(* ===== verification/Prelude.thy ===== *)
theory Prelude
  imports Main "HOL-Library.Word"
begin

text \<open>
  Shared vocabulary of the development: the machine integers of the C code, byte lists,
  the sequencing of C calls that report success by a truth value, and the lemmas on words
  and lists that several components use.

  \<^item> \<open>u8\<close> is \<open>pb_byte_t\<close> / \<open>uint8_t\<close>, \<open>u32\<close> is
    \<open>uint32_t\<close>, \<open>u64\<close> is \<open>uint64_t\<close> and \<open>size_t\<close> of the
    64-bit targets the application is built for.
  \<^item> \<open>then_ok\<close> is the C idiom \<open>if (!f(s)) return false; g(s)\<close>.
\<close>

unbundle bit_operations_syntax

type_synonym u8 = "8 word"
type_synonym u16 = "16 word"
type_synonym u32 = "32 word"
type_synonym u64 = "64 word"

text \<open>C casts between unsigned integer types: \<open>(uint8_t) x\<close> is \<open>to_u8 x\<close>.\<close>

abbreviation to_u8 :: "'a::len word \<Rightarrow> u8" where "to_u8 \<equiv> ucast"
abbreviation to_u16 :: "'a::len word \<Rightarrow> u16" where "to_u16 \<equiv> ucast"
abbreviation to_u32 :: "'a::len word \<Rightarrow> u32" where "to_u32 \<equiv> ucast"
abbreviation to_u64 :: "'a::len word \<Rightarrow> u64" where "to_u64 \<equiv> ucast"

named_theorems word_len \<comment> \<open>sizes of words as naturals\<close>

definition then_ok :: "bool \<times> 's \<Rightarrow> ('s \<Rightarrow> bool \<times> 's) \<Rightarrow> bool \<times> 's" where
  "then_ok r g = (if fst r then g (snd r) else r)"

lemma then_ok_simps [simp]:
  "then_ok (True, s) g = g s"
  "then_ok (False, s) g = (False, s)"
  by (simp_all add: then_ok_def)

lemma then_ok_TrueE:
  assumes "then_ok r g = (True, s')"
  obtains s where "r = (True, s)" and "g s = (True, s')"
  using assms by (cases r) (auto simp: then_ok_def split: if_splits)

text \<open>The same for parsers: \<open>if (!f(s, &x)) return 0; g(s, x)\<close>. The state is kept
  on failure, since C has already advanced it.\<close>

definition get_then :: "'a option \<times> 's \<Rightarrow> ('a \<Rightarrow> 's \<Rightarrow> 'b option \<times> 's) \<Rightarrow> 'b option \<times> 's" where
  "get_then r g = (case r of (Some x, s) \<Rightarrow> g x s | (None, s) \<Rightarrow> (None, s))"

lemma get_then_simps [simp]:
  "get_then (Some x, s) g = g x s"
  "get_then (None, s) g = (None, s)"
  by (simp_all add: get_then_def)

lemma get_then_SomeE:
  assumes "get_then r g = (Some y, s')"
  obtains x s where "r = (Some x, s)" and "g x s = (Some y, s')"
  using assms by (cases r; cases "fst r") (auto simp: get_then_def)

subsection \<open>Lists\<close>

lemma update_last_butlast:
  "xs \<noteq> [] \<Longrightarrow> xs[length xs - 1 := y] = butlast xs @ [y]"
  by (metis append_butlast_last_id length_butlast list_update_length)

lemma nth_last_minus: "xs \<noteq> [] \<Longrightarrow> xs ! (length xs - 1) = last xs"
  by (simp add: last_conv_nth)

subsection \<open>Words\<close>

lemma unat_lt_u64: "unat (x :: u64) < 2 ^ 64"
  using unsigned_less [of x] by simp

lemma unat_word_of_nat_u64 [simp]: "n < 2 ^ 64 \<Longrightarrow> unat (word_of_nat n :: u64) = n"
  by (simp add: unat_of_nat)

lemma unat_minus_word_of_nat:
  fixes x :: "'a::len word"
  assumes "n \<le> unat x"
  shows "unat (x - word_of_nat n) = unat x - n"
proof -
  have "n < 2 ^ LENGTH('a)"
    using assms unsigned_less by (rule le_less_trans)
  then have "unat (word_of_nat n :: 'a word) = n" by (simp add: unat_of_nat)
  moreover from this assms have "word_of_nat n \<le> x" by (simp add: word_le_nat_alt)
  ultimately show ?thesis by (simp add: unat_sub)
qed

lemma unat_ucast_wider:
  fixes x :: "'a::len word"
  assumes "LENGTH('a) \<le> LENGTH('b::len)"
  shows "unat (ucast x :: 'b word) = unat x"
proof -
  have "unat x < 2 ^ LENGTH('a)" by (rule unsigned_less)
  also have "\<dots> \<le> 2 ^ LENGTH('b)" using assms by (rule power_increasing) simp
  finally show ?thesis by (simp add: unsigned_ucast_eq take_bit_nat_eq_self_iff)
qed

lemma unat_to_wider [simp]:
  "unat (to_u64 (w :: u32)) = unat w"
  "unat (to_u64 (b :: u8)) = unat b"
  "unat (to_u32 (b :: u8)) = unat b"
  by (simp_all add: unat_ucast_wider)

lemma low7_unat: "unat (x AND 0x7F :: 'a::len word) = unat x mod 128"
proof -
  have "x AND 0x7F = take_bit 7 x"
    by (simp add: take_bit_eq_mask mask_eq_exp_minus_1)
  then have "unat (x AND 0x7F) = take_bit 7 (unat x)"
    by (simp only: unsigned_take_bit_eq)
  then show ?thesis by (simp add: take_bit_eq_mod)
qed

text \<open>Adding bits above all bits that are set is an addition.\<close>

lemma or_push_bit_unat:
  fixes r x :: "'a::len word"
  assumes r: "unat r < 2 ^ n" and fits: "unat r + unat x * 2 ^ n < 2 ^ LENGTH('a)"
  shows "unat (r OR push_bit n x) = unat r + unat x * 2 ^ n"
proof -
  have px: "unat (push_bit n x) = unat x * 2 ^ n"
    unfolding unsigned_push_bit_eq
    using fits by (simp add: push_bit_eq_mult take_bit_nat_eq_self_iff)
  have disj: "r AND push_bit n x = 0"
  proof (rule bit_word_eqI)
    fix k
    assume "k < LENGTH('a)"
    have "\<not> bit r k" if "n \<le> k"
    proof -
      have "unat r < 2 ^ k"
        using r that by (meson less_le_trans one_le_numeral power_increasing)
      then have "\<not> bit (unat r) k" by (simp add: bit_iff_odd)
      then show ?thesis by (simp add: bit_unsigned_iff \<open>k < LENGTH('a)\<close>)
    qed
    then show "bit (r AND push_bit n x) k = bit (0 :: 'a word) k"
      by (auto simp: bit_and_iff bit_push_bit_iff)
  qed
  then have "r OR push_bit n x = r + push_bit n x"
    by (simp add: disjunctive_add_eq_or)
  then show ?thesis using fits px by (simp add: unat_word_ariths)
qed

lemma word_of_unatI: "unat x = n \<Longrightarrow> x = word_of_nat n"
  by auto

text \<open>A byte from its value.\<close>

definition byte_of :: "nat \<Rightarrow> u8" where "byte_of n = word_of_nat n"

lemma unat_byte_of [simp]: "n < 256 \<Longrightarrow> unat (byte_of n) = n"
  by (simp add: byte_of_def unat_of_nat)

lemma byte_of_unat [simp]: "byte_of (unat b) = b"
  by (simp add: byte_of_def)

lemma unat_u8_less [simp]: "unat (b :: u8) < 256"
  using unsigned_less [of b] by simp

lemma byte_of_eqI: "unat (b :: u8) = n \<Longrightarrow> b = byte_of n"
  by auto

lemma u8_msb_clear_iff: "(b :: u8) AND 0x80 = 0 \<longleftrightarrow> unat b < 128"
proof -
  have "b AND 0x80 = 0 \<longleftrightarrow> \<not> bit b 7"
    using and_exp_eq_0_iff_not_bit [of b 7] by simp
  also have "\<dots> \<longleftrightarrow> \<not> bit (unat b) 7"
    by (simp add: bit_unsigned_iff)
  also have "\<dots> \<longleftrightarrow> even (unat b div 128)"
    by (simp add: bit_iff_odd)
  also have "\<dots> \<longleftrightarrow> unat b < 128"
  proof -
    have "unat b div 128 = (if unat b < 128 then 0 else 1)"
      using unat_u8_less [of b] by (simp add: div_nat_eqI)
    then show ?thesis by simp
  qed
  finally show ?thesis .
qed

end
