(* ===== verification/NanopbStream.thy ===== *)
theory NanopbStream
  imports Prelude
begin

text \<open>
  The stream layer of nanopb (\<open>pb_encode.c\<close>, \<open>pb_decode.c\<close>), the Protocol Buffers
  runtime that the Firestore client serialises with.

  An output stream (\<open>pb_ostream_t\<close>) is a callback, the state it works on, a limit and a
  count; a NULL callback marks a sizing stream. An input stream (\<open>pb_istream_t\<close>) either
  reads memory (callback \<open>buf_read\<close>, whose state is a pointer: here the bytes that pointer
  still points at) or calls user code, a parameter of the model. A read through the pointer past
  the end of the array is undefined behaviour in C: here it sets the fault flag of the stream,
  so that memory safety is a statement about that flag. Functions that report failure through
  \<open>errmsg\<close> keep the first message, as \<open>PB_SET_ERROR\<close> does.

  The configuration is the one the application is built with: 64-bit support, error messages,
  custom streams, packed arrays, \<open>pb_size_t\<close> of 32 bits.
\<close>

subsection \<open>Output streams\<close>

record 's pb_ostream =
  o_callback :: "('s \<Rightarrow> u8 list \<Rightarrow> bool \<times> 's) option"
  o_state :: 's
  max_size :: u64
  bytes_written :: u64
  o_errmsg :: "string option"

definition o_set_error :: "string \<Rightarrow> 's pb_ostream \<Rightarrow> 's pb_ostream" where
  "o_set_error msg s =
     s\<lparr>o_errmsg := (case o_errmsg s of None \<Rightarrow> Some msg | Some e \<Rightarrow> Some e)\<rparr>"

definition o_fail :: "string \<Rightarrow> 's pb_ostream \<Rightarrow> bool \<times> 's pb_ostream" where
  "o_fail msg s = (False, o_set_error msg s)"

text \<open>
  The state of \<open>buf_write\<close>: the caller's array, the offset of the write pointer in it, and
  whether some write went past its end.
\<close>

record obuf =
  ob_mem :: "u8 list"
  ob_dest :: nat
  ob_fault :: bool

definition buf_write :: "obuf \<Rightarrow> u8 list \<Rightarrow> bool \<times> obuf" where
  "buf_write st buf =
     (True, st\<lparr>ob_dest := ob_dest st + length buf,
               ob_mem := fold (\<lambda>i m. m[ob_dest st + i := buf ! i]) [0..<length buf] (ob_mem st),
               ob_fault := (ob_fault st \<or> length (ob_mem st) < ob_dest st + length buf)\<rparr>)"

definition pb_ostream_from_buffer :: "u8 list \<Rightarrow> u64 \<Rightarrow> obuf pb_ostream" where
  "pb_ostream_from_buffer buf bufsize =
     \<lparr>o_callback = Some buf_write, o_state = \<lparr>ob_mem = buf, ob_dest = 0, ob_fault = False\<rparr>,
      max_size = bufsize, bytes_written = 0, o_errmsg = None\<rparr>"

text \<open>\<open>PB_OSTREAM_SIZING\<close>; the state of such a stream is never used.\<close>

definition pb_ostream_sizing :: "'s \<Rightarrow> 's pb_ostream" where
  "pb_ostream_sizing st =
     \<lparr>o_callback = None, o_state = st, max_size = 0, bytes_written = 0, o_errmsg = None\<rparr>"

definition pb_write :: "'s pb_ostream \<Rightarrow> u8 list \<Rightarrow> u64 \<Rightarrow> bool \<times> 's pb_ostream" where
  "pb_write s buf count =
     (case o_callback s of
        None \<Rightarrow> (True, s\<lparr>bytes_written := bytes_written s + count\<rparr>)
      | Some cb \<Rightarrow>
          if 0 < count then
            if bytes_written s + count < bytes_written s \<or> max_size s < bytes_written s + count
            then o_fail ''stream full'' s
            else
              (case cb (o_state s) (take (unat count) buf) of
                 (ok, st) \<Rightarrow>
                   if ok then (True, s\<lparr>o_state := st, bytes_written := bytes_written s + count\<rparr>)
                   else o_fail ''io error'' (s\<lparr>o_state := st\<rparr>))
          else (True, s\<lparr>bytes_written := bytes_written s + count\<rparr>))"

subsection \<open>Input streams\<close>

datatype 's pb_reader =
    Buf_read
  | User_read "'s \<Rightarrow> nat \<Rightarrow> bool \<times> u8 list \<times> 's"

record 's pb_istream =
  i_callback :: "'s pb_reader"
  i_ptr :: "u8 list"
  i_state :: 's
  bytes_left :: u64
  i_errmsg :: "string option"
  i_fault :: bool

definition i_set_error :: "string \<Rightarrow> 's pb_istream \<Rightarrow> 's pb_istream" where
  "i_set_error msg s =
     s\<lparr>i_errmsg := (case i_errmsg s of None \<Rightarrow> Some msg | Some e \<Rightarrow> Some e)\<rparr>"

definition i_fail :: "string \<Rightarrow> 's pb_istream \<Rightarrow> 'a option \<times> 's pb_istream" where
  "i_fail msg s = (None, i_set_error msg s)"

definition buf_read :: "'s pb_istream \<Rightarrow> nat \<Rightarrow> bool \<times> u8 list \<times> 's pb_istream" where
  "buf_read s count =
     (True, take count (i_ptr s),
      s\<lparr>i_ptr := drop count (i_ptr s), i_fault := (i_fault s \<or> length (i_ptr s) < count)\<rparr>)"

text \<open>\<open>stream->callback(stream, buf, count)\<close> for the two kinds of stream.\<close>

definition call_reader :: "'s pb_istream \<Rightarrow> nat \<Rightarrow> bool \<times> u8 list \<times> 's pb_istream" where
  "call_reader s count =
     (case i_callback s of
        Buf_read \<Rightarrow> buf_read s count
      | User_read f \<Rightarrow> (case f (i_state s) count of (ok, bs, st) \<Rightarrow> (ok, bs, s\<lparr>i_state := st\<rparr>)))"

definition is_buf_read :: "'s pb_istream \<Rightarrow> bool" where
  "is_buf_read s = (case i_callback s of Buf_read \<Rightarrow> True | User_read f \<Rightarrow> False)"

text \<open>The part of \<open>pb_read\<close> after the skipping of user streams: check, call, count down.\<close>

definition pb_read_direct :: "'s pb_istream \<Rightarrow> u64 \<Rightarrow> u8 list option \<times> 's pb_istream" where
  "pb_read_direct s count =
     (if bytes_left s < count then i_fail ''end-of-stream'' s
      else (case call_reader s (unat count) of
              (ok, bs, s') \<Rightarrow>
                if \<not> ok then i_fail ''io error'' s'
                else (Some bs, s'\<lparr>bytes_left := bytes_left s' - count\<rparr>)))"

text \<open>\<open>while (count > 16) pb_read(stream, tmp, 16); pb_read(stream, tmp, count)\<close>\<close>

function pb_read_skip :: "'s pb_istream \<Rightarrow> u64 \<Rightarrow> u8 list option \<times> 's pb_istream" where
  "pb_read_skip s count =
     (if 16 < count then
        (case pb_read_direct s 16 of
           (None, s') \<Rightarrow> (None, s')
         | (Some _, s') \<Rightarrow> pb_read_skip s' (count - 16))
      else pb_read_direct s count)"
  by pat_completeness auto
termination
proof (relation "measure (\<lambda>(s, count). unat count)", goal_cases)
  case (2 s count)
  then show ?case by (simp add: word_less_nat_alt unat_sub word_le_nat_alt)
qed simp

text \<open>
  \<open>pb_read\<close>: \<open>want\<close> is \<open>buf != NULL\<close>; the bytes stored through \<open>buf\<close>
  are the result.
\<close>

definition pb_read :: "'s pb_istream \<Rightarrow> bool \<Rightarrow> u64 \<Rightarrow> u8 list option \<times> 's pb_istream" where
  "pb_read s want count =
     (if count = 0 then (Some [], s)
      else if \<not> want \<and> \<not> is_buf_read s then pb_read_skip s count
      else pb_read_direct s count)"

definition pb_readbyte :: "'s pb_istream \<Rightarrow> u8 option \<times> 's pb_istream" where
  "pb_readbyte s =
     (if bytes_left s = 0 then i_fail ''end-of-stream'' s
      else (case call_reader s 1 of
              (ok, bs, s') \<Rightarrow>
                if \<not> ok then i_fail ''io error'' s'
                else (Some (hd bs), s'\<lparr>bytes_left := bytes_left s' - 1\<rparr>)))"

definition pb_istream_from_buffer :: "u8 list \<Rightarrow> u64 \<Rightarrow> unit pb_istream" where
  "pb_istream_from_buffer buf bufsize =
     \<lparr>i_callback = Buf_read, i_ptr = buf, i_state = (), bytes_left = bufsize,
      i_errmsg = None, i_fault = False\<rparr>"

subsection \<open>The contract of an input stream\<close>

text \<open>
  What the decoders rely on: a stream in a good state has a content, the bytes that can still
  be read from it; reading takes them from the front, and reading more than there is fails
  without moving the stream. \<open>adv n s\<close> is the stream after \<open>n\<close> bytes were read.
\<close>

locale pb_source =
  fixes inv :: "'s pb_istream \<Rightarrow> bool"
    and content :: "'s pb_istream \<Rightarrow> u8 list"
    and adv :: "nat \<Rightarrow> 's pb_istream \<Rightarrow> 's pb_istream"
  assumes content_length: "inv s \<Longrightarrow> length (content s) = unat (bytes_left s)"
    and adv_inv: "inv s \<Longrightarrow> n \<le> length (content s) \<Longrightarrow> inv (adv n s)"
    and adv_content: "inv s \<Longrightarrow> n \<le> length (content s) \<Longrightarrow> content (adv n s) = drop n (content s)"
    and adv_adv: "inv s \<Longrightarrow> n + m \<le> length (content s) \<Longrightarrow> adv m (adv n s) = adv (n + m) s"
    and adv_zero: "adv 0 s = s"
    and readbyte: "inv s \<Longrightarrow> content s = b # bs \<Longrightarrow> pb_readbyte s = (Some b, adv 1 s)"
    and read: "inv s \<Longrightarrow> unat k \<le> length (content s) \<Longrightarrow>
      pb_read s True k = (Some (take (unat k) (content s)), adv (unat k) s)"
    and skip: "inv s \<Longrightarrow> unat k \<le> length (content s) \<Longrightarrow>
      \<exists>r. pb_read s False k = (Some r, adv (unat k) s)"
    and read_short: "inv s \<Longrightarrow> length (content s) < unat k \<Longrightarrow> fst (pb_read s True k) = None"
begin

lemma readbyte_end: "inv s \<Longrightarrow> content s = [] \<Longrightarrow> pb_readbyte s = i_fail ''end-of-stream'' s"
  using content_length [of s] by (simp add: pb_readbyte_def unat_eq_0)

lemma read_one: "inv s \<Longrightarrow> content s = b # bs \<Longrightarrow> pb_read s True 1 = (Some [b], adv 1 s)"
  using read [of s 1] by simp

lemma adv_Suc: "inv s \<Longrightarrow> Suc n \<le> length (content s) \<Longrightarrow> adv n (adv 1 s) = adv (Suc n) s"
  using adv_adv [of s 1 n] by simp

lemma adv_one_content: "inv s \<Longrightarrow> content s = b # bs \<Longrightarrow> content (adv 1 s) = bs \<and> inv (adv 1 s)"
  using adv_content [of s 1] adv_inv [of s 1] by simp

end

text \<open>
  Memory streams satisfy it: the good states are those in which the pointer still points at
  \<open>bytes_left\<close> bytes of the array and no read has gone past the end.
\<close>

definition buf_ok :: "'s pb_istream \<Rightarrow> bool" where
  "buf_ok s \<longleftrightarrow> i_callback s = Buf_read \<and> \<not> i_fault s \<and> unat (bytes_left s) \<le> length (i_ptr s)"

definition buf_content :: "'s pb_istream \<Rightarrow> u8 list" where
  "buf_content s = take (unat (bytes_left s)) (i_ptr s)"

definition buf_adv :: "nat \<Rightarrow> 's pb_istream \<Rightarrow> 's pb_istream" where
  "buf_adv n s = s\<lparr>i_ptr := drop n (i_ptr s), bytes_left := bytes_left s - word_of_nat n\<rparr>"

lemma buf_length_content: "buf_ok s \<Longrightarrow> length (buf_content s) = unat (bytes_left s)"
  by (simp add: buf_ok_def buf_content_def)

lemma buf_adv_ok: "buf_ok s \<Longrightarrow> n \<le> unat (bytes_left s) \<Longrightarrow> buf_ok (buf_adv n s)"
  by (auto simp: buf_ok_def buf_adv_def unat_minus_word_of_nat)

lemma buf_read_direct:
  assumes "buf_ok s" and "unat n \<le> unat (bytes_left s)"
  shows "pb_read_direct s n = (Some (take (unat n) (buf_content s)), buf_adv (unat n) s)"
  using assms
  by (simp add: pb_read_direct_def buf_ok_def buf_content_def buf_adv_def call_reader_def
      buf_read_def word_less_nat_alt min_absorb1 linorder_not_less)

lemma buf_pb_read:
  assumes "buf_ok s" and "unat n \<le> unat (bytes_left s)"
  shows "pb_read s want n = (Some (take (unat n) (buf_content s)), buf_adv (unat n) s)"
proof (cases "n = 0")
  case True
  then show ?thesis by (simp add: pb_read_def buf_adv_def)
next
  case False
  with assms show ?thesis
    by (simp add: pb_read_def buf_read_direct is_buf_read_def buf_ok_def)
qed

interpretation buf: pb_source buf_ok buf_content buf_adv
proof (unfold_locales, goal_cases)
  case (1 s)
  then show ?case by (rule buf_length_content)
next
  case (2 s n)
  then show ?case by (simp add: buf_adv_ok buf_length_content)
next
  case (3 s n)
  then show ?case
    by (simp add: buf_length_content) (simp add: buf_content_def buf_adv_def unat_minus_word_of_nat drop_take)
next
  case (4 s n m)
  then show ?case by (simp add: buf_adv_def add.commute algebra_simps)
next
  case (5 s)
  then show ?case by (simp add: buf_adv_def)
next
  case (6 s b bs)
  then obtain j xs where "unat (bytes_left s) = Suc j" and "i_ptr s = b # xs"
    by (cases "unat (bytes_left s)"; cases "i_ptr s") (auto simp: buf_content_def)
  moreover from this have "bytes_left s \<noteq> 0" by auto
  ultimately show ?case using 6
    by (simp add: pb_readbyte_def call_reader_def buf_ok_def buf_read_def buf_adv_def)
next
  case (7 s k)
  then show ?case by (simp add: buf_pb_read buf_length_content)
next
  case (8 s k)
  then show ?case by (simp add: buf_pb_read buf_length_content)
next
  case (9 s k)
  then show ?case
    by (auto simp: pb_read_def pb_read_direct_def i_fail_def buf_length_content word_less_nat_alt)
qed

subsection \<open>The contract of an output stream\<close>

text \<open>
  What the encoders rely on: a stream in a good state has room for some number of bytes, and
  writing bytes that fit appends them (\<open>emit\<close>). A bounded sink also refuses, without
  writing, bytes that do not fit.
\<close>

locale pb_sink =
  fixes sinv :: "'s pb_ostream \<Rightarrow> bool"
    and room :: "'s pb_ostream \<Rightarrow> nat"
    and emit :: "u8 list \<Rightarrow> 's pb_ostream \<Rightarrow> 's pb_ostream"
  assumes room_bound: "sinv s \<Longrightarrow> room s < 2 ^ 64"
    and write_fits: "sinv s \<Longrightarrow> length bs \<le> room s \<Longrightarrow>
      pb_write s bs (word_of_nat (length bs)) = (True, emit bs s)"
    and emit_inv: "sinv s \<Longrightarrow> length bs \<le> room s \<Longrightarrow> sinv (emit bs s)"
    and emit_room: "sinv s \<Longrightarrow> length bs \<le> room s \<Longrightarrow> room (emit bs s) = room s - length bs"
    and emit_emit: "sinv s \<Longrightarrow> length xs + length ys \<le> room s \<Longrightarrow>
      emit ys (emit xs s) = emit (xs @ ys) s"
begin

text \<open>An encoding step that writes \<open>bs\<close>, if there is room.\<close>

definition writes :: "('s pb_ostream \<Rightarrow> bool \<times> 's pb_ostream) \<Rightarrow> u8 list \<Rightarrow> bool" where
  "writes f bs \<longleftrightarrow> (\<forall>s. sinv s \<longrightarrow> length bs \<le> room s \<longrightarrow> f s = (True, emit bs s))"

lemma writes_write: "n = word_of_nat (length bs) \<Longrightarrow> writes (\<lambda>s. pb_write s bs n) bs"
  by (simp add: writes_def write_fits)

lemma writes_then: "writes f xs \<Longrightarrow> writes g ys \<Longrightarrow> writes (\<lambda>s. then_ok (f s) g) (xs @ ys)"
  by (auto simp: writes_def emit_inv emit_room emit_emit)

end

locale pb_bounded_sink = pb_sink +
  assumes write_full: "sinv s \<Longrightarrow> room s < length bs \<Longrightarrow> length bs < 2 ^ 64 \<Longrightarrow>
      pb_write s bs (word_of_nat (length bs)) = o_fail ''stream full'' s"
begin

text \<open>A step that writes \<open>bs\<close> if there is room and fails otherwise.\<close>

definition exact :: "('a pb_ostream \<Rightarrow> bool \<times> 'a pb_ostream) \<Rightarrow> u8 list \<Rightarrow> bool" where
  "exact f bs \<longleftrightarrow> writes f bs \<and> (\<forall>s. sinv s \<longrightarrow> room s < length bs \<longrightarrow> \<not> fst (f s))"

lemma exact_write:
  "length bs < 2 ^ 64 \<Longrightarrow> n = word_of_nat (length bs) \<Longrightarrow> exact (\<lambda>s. pb_write s bs n) bs"
  by (simp add: exact_def writes_write write_full o_fail_def)

lemma exact_then: "exact f xs \<Longrightarrow> exact g ys \<Longrightarrow> exact (\<lambda>s. then_ok (f s) g) (xs @ ys)"
proof -
  assume f: "exact f xs" and g: "exact g ys"
  have "\<not> fst (then_ok (f s) g)" if s: "sinv s" and full: "room s < length (xs @ ys)" for s
  proof (cases "room s < length xs")
    case True
    then show ?thesis using f s by (simp add: exact_def then_ok_def)
  next
    case False
    then have "f s = (True, emit xs s)" and "sinv (emit xs s)" and "room (emit xs s) < length ys"
      using f s full by (simp_all add: exact_def writes_def emit_inv emit_room)
    then show ?thesis using g by (simp add: exact_def)
  qed
  then show ?thesis using f g by (simp add: exact_def writes_then)
qed

lemma exact_success:
  assumes "exact f bs" and "sinv s" and "f s = (True, s')"
  shows "length bs \<le> room s \<and> s' = emit bs s"
  using assms by (fastforce simp: exact_def writes_def not_less [symmetric])

end

text \<open>The memory sink: \<open>buf_write\<close> into an array that the limit keeps within.\<close>

lemma fold_update_eq:
  "d + length buf \<le> length m \<Longrightarrow>
   fold (\<lambda>i m. m[d + i := buf ! i]) [0..<length buf] m = take d m @ buf @ drop (d + length buf) m"
proof (induction buf rule: rev_induct)
  case (snoc x xs)
  have "fold (\<lambda>i m. m[d + i := (xs @ [x]) ! i]) [0..<length xs] m =
        fold (\<lambda>i m. m[d + i := xs ! i]) [0..<length xs] m"
    by (rule fold_cong) (auto simp: nth_append)
  also have "\<dots> = take d m @ xs @ drop (d + length xs) m"
    using snoc by simp
  finally show ?case
    using snoc.prems by (simp add: list_update_append min_absorb2 Cons_nth_drop_Suc [symmetric])
qed simp

definition mem_sink :: "obuf pb_ostream \<Rightarrow> bool" where
  "mem_sink s \<longleftrightarrow> o_callback s = Some buf_write \<and> \<not> ob_fault (o_state s) \<and>
     bytes_written s \<le> max_size s \<and>
     ob_dest (o_state s) + (unat (max_size s) - unat (bytes_written s)) \<le> length (ob_mem (o_state s))"

definition mem_room :: "'s pb_ostream \<Rightarrow> nat" where
  "mem_room s = unat (max_size s) - unat (bytes_written s)"

definition mem_emit :: "u8 list \<Rightarrow> obuf pb_ostream \<Rightarrow> obuf pb_ostream" where
  "mem_emit bs s =
     (let st = o_state s; d = ob_dest st
      in s\<lparr>o_state := st\<lparr>ob_dest := d + length bs,
                         ob_mem := take d (ob_mem st) @ bs @ drop (d + length bs) (ob_mem st)\<rparr>,
           bytes_written := bytes_written s + word_of_nat (length bs)\<rparr>)"

lemma unat_plus_word_of_nat:
  "unat (x :: 'a::len word) + n < 2 ^ LENGTH('a) \<Longrightarrow> unat (x + word_of_nat n) = unat x + n"
  by (simp add: unat_word_ariths unat_of_nat)

lemma mem_room_bound: "mem_room s < 2 ^ 64"
  using unat_lt_u64 [of "max_size s"] by (simp add: mem_room_def)

lemma mem_written:
  assumes "mem_sink s" and "n \<le> mem_room s"
  shows "unat (bytes_written s + word_of_nat n) = unat (bytes_written s) + n"
    and "unat (bytes_written s) + n \<le> unat (max_size s)"
proof -
  show le: "unat (bytes_written s) + n \<le> unat (max_size s)"
    using assms by (auto simp: mem_sink_def mem_room_def word_le_nat_alt)
  show "unat (bytes_written s + word_of_nat n) = unat (bytes_written s) + n"
    by (rule unat_plus_word_of_nat) (use le unat_lt_u64 [of "max_size s"] in simp)
qed

lemma mem_write_fits:
  assumes ok: "mem_sink s" and fits: "length bs \<le> mem_room s"
  shows "pb_write s bs (word_of_nat (length bs)) = (True, mem_emit bs s)"
proof (cases "bs = []")
  case True
  with ok show ?thesis by (simp add: pb_write_def mem_sink_def mem_emit_def)
next
  case False
  have len: "length bs < 2 ^ 64" using fits mem_room_bound [of s] by simp
  note w = mem_written [OF ok fits]
  have pos: "(0 :: u64) < word_of_nat (length bs)"
    using len False by (simp add: word_less_nat_alt)
  have no_wrap: "\<not> bytes_written s + word_of_nat (length bs) < bytes_written s"
    and le_max: "\<not> max_size s < bytes_written s + word_of_nat (length bs)"
    using w by (simp_all add: word_less_nat_alt)
  have "ob_dest (o_state s) + length bs \<le> length (ob_mem (o_state s))"
    using ok fits by (simp add: mem_sink_def mem_room_def)
  then show ?thesis
    using ok pos no_wrap le_max len
    by (simp add: pb_write_def mem_sink_def buf_write_def fold_update_eq mem_emit_def Let_def)
qed

lemma mem_write_full:
  assumes ok: "mem_sink s" and full: "mem_room s < length bs" and len: "length bs < 2 ^ 64"
  shows "pb_write s bs (word_of_nat (length bs)) = o_fail ''stream full'' s"
proof -
  have pos: "(0 :: u64) < word_of_nat (length bs)"
    using len full by (auto simp: word_less_nat_alt)
  have "unat (bytes_written s) + length bs < 2 ^ 64 \<Longrightarrow>
        max_size s < bytes_written s + word_of_nat (length bs)"
    using full len by (simp add: word_less_nat_alt unat_plus_word_of_nat mem_room_def)
  moreover have "2 ^ 64 \<le> unat (bytes_written s) + length bs \<Longrightarrow>
        bytes_written s + word_of_nat (length bs) < bytes_written s"
  proof -
    assume over: "2 ^ 64 \<le> unat (bytes_written s) + length bs"
    have "unat (bytes_written s + word_of_nat (length bs)) =
          (unat (bytes_written s) + length bs) mod 2 ^ 64"
      using len by (simp add: unat_word_ariths)
    also have "\<dots> = unat (bytes_written s) + length bs - 2 ^ 64"
      using over len unat_lt_u64 [of "bytes_written s"] by (simp add: mod_if)
    finally show ?thesis using len over by (simp add: word_less_nat_alt)
  qed
  ultimately have "bytes_written s + word_of_nat (length bs) < bytes_written s \<or>
      max_size s < bytes_written s + word_of_nat (length bs)"
    by linarith
  with ok pos show ?thesis by (simp add: pb_write_def mem_sink_def)
qed

lemma mem_emit_inv: "mem_sink s \<Longrightarrow> length bs \<le> mem_room s \<Longrightarrow> mem_sink (mem_emit bs s)"
  using mem_written [of s "length bs"]
  by (auto simp: mem_sink_def mem_emit_def Let_def word_le_nat_alt mem_room_def)

lemma mem_emit_room:
  "mem_sink s \<Longrightarrow> length bs \<le> mem_room s \<Longrightarrow> mem_room (mem_emit bs s) = mem_room s - length bs"
  using mem_written [of s "length bs"] by (simp add: mem_emit_def Let_def mem_room_def)

lemma mem_emit_emit:
  assumes "mem_sink s" and "length xs + length ys \<le> mem_room s"
  shows "mem_emit ys (mem_emit xs s) = mem_emit (xs @ ys) s"
proof -
  have "ob_dest (o_state s) + length xs + length ys \<le> length (ob_mem (o_state s))"
    using assms by (simp add: mem_sink_def mem_room_def)
  then show ?thesis
    by (simp add: mem_emit_def Let_def min_absorb2 add.assoc add.commute [of "length ys"])
qed

interpretation msink: pb_bounded_sink mem_sink mem_room mem_emit
  by unfold_locales
    (simp_all add: mem_room_bound [simplified] mem_write_fits mem_write_full mem_emit_inv mem_emit_room mem_emit_emit)

text \<open>The sizing sink: it counts, and has room up to the largest \<open>size_t\<close>.\<close>

definition size_sink :: "'s pb_ostream \<Rightarrow> bool" where
  "size_sink s \<longleftrightarrow> o_callback s = None"

definition size_room :: "'s pb_ostream \<Rightarrow> nat" where
  "size_room s = 2 ^ 64 - 1 - unat (bytes_written s)"

definition size_emit :: "u8 list \<Rightarrow> 's pb_ostream \<Rightarrow> 's pb_ostream" where
  "size_emit bs s = s\<lparr>bytes_written := bytes_written s + word_of_nat (length bs)\<rparr>"

lemma size_emit_room:
  assumes "length bs \<le> size_room s"
  shows "size_room (size_emit bs s) = size_room s - length bs"
proof -
  have "unat (bytes_written s + word_of_nat (length bs)) = unat (bytes_written s) + length bs"
    using assms unat_lt_u64 [of "bytes_written s"]
    by (intro unat_plus_word_of_nat) (simp add: size_room_def)
  then show ?thesis by (simp add: size_room_def size_emit_def)
qed

interpretation ssink: pb_sink size_sink size_room size_emit
  by unfold_locales
    (auto simp: size_sink_def size_emit_room pb_write_def, simp_all add: size_room_def size_emit_def)

end
