(* ===== verification/NanopbWire.thy ===== *)
theory NanopbWire
  imports NanopbStream
begin

text \<open>
  The wire primitives of nanopb: variable-length and fixed-width integers, tags, strings,
  skipping of fields, and the length-limited substreams (\<open>pb_encode.c\<close> lines 608-715,
  \<open>pb_decode.c\<close> lines 187-400 and 1280-1332).
\<close>

subsection \<open>Wire types\<close>

type_synonym pb_wire_type_t = u32

abbreviation (input) PB_WT_VARINT :: pb_wire_type_t where "PB_WT_VARINT \<equiv> 0"
abbreviation (input) PB_WT_64BIT :: pb_wire_type_t where "PB_WT_64BIT \<equiv> 1"
abbreviation (input) PB_WT_STRING :: pb_wire_type_t where "PB_WT_STRING \<equiv> 2"
abbreviation (input) PB_WT_32BIT :: pb_wire_type_t where "PB_WT_32BIT \<equiv> 5"

subsection \<open>Encoding\<close>

text \<open>The loop \<open>while (value)\<close> of \<open>pb_encode_varint\<close>: the bytes it stores in \<open>buffer\<close>.\<close>

function varint_loop :: "u64 \<Rightarrow> u8 list" where
  "varint_loop value =
     (if value \<noteq> 0 then (to_u8 (value AND 0x7F) OR 0x80) # varint_loop (drop_bit 7 value)
      else [])"
  by pat_completeness auto
termination
proof (relation "measure unat", goal_cases)
  case (2 v)
  then have "0 < unat v" by (simp add: unat_gt_0)
  then show ?case by (simp add: drop_bit_eq_div unat_div)
qed simp

declare varint_loop.simps [simp del]

definition pb_encode_varint :: "'s pb_ostream \<Rightarrow> u64 \<Rightarrow> bool \<times> 's pb_ostream" where
  "pb_encode_varint s value =
     (if value \<le> 0x7F then pb_write s [to_u8 value] 1
      else
        (let buffer = varint_loop value;
             i = length buffer
         in pb_write s (buffer[i - 1 := (buffer ! (i - 1)) AND 0x7F]) (word_of_nat i)))"

definition pb_encode_svarint :: "'s pb_ostream \<Rightarrow> u64 \<Rightarrow> bool \<times> 's pb_ostream" where
  "pb_encode_svarint s value =
     (let zigzagged = (if value <s 0 then NOT (push_bit 1 value) else push_bit 1 value)
      in pb_encode_varint s zigzagged)"

definition pb_encode_fixed32 :: "'s pb_ostream \<Rightarrow> u32 \<Rightarrow> bool \<times> 's pb_ostream" where
  "pb_encode_fixed32 s val =
     pb_write s [to_u8 (val AND 0xFF),
                 to_u8 (drop_bit 8 val AND 0xFF),
                 to_u8 (drop_bit 16 val AND 0xFF),
                 to_u8 (drop_bit 24 val AND 0xFF)] 4"

definition pb_encode_fixed64 :: "'s pb_ostream \<Rightarrow> u64 \<Rightarrow> bool \<times> 's pb_ostream" where
  "pb_encode_fixed64 s val =
     pb_write s [to_u8 (val AND 0xFF),
                 to_u8 (drop_bit 8 val AND 0xFF),
                 to_u8 (drop_bit 16 val AND 0xFF),
                 to_u8 (drop_bit 24 val AND 0xFF),
                 to_u8 (drop_bit 32 val AND 0xFF),
                 to_u8 (drop_bit 40 val AND 0xFF),
                 to_u8 (drop_bit 48 val AND 0xFF),
                 to_u8 (drop_bit 56 val AND 0xFF)] 8"

definition pb_encode_tag :: "'s pb_ostream \<Rightarrow> pb_wire_type_t \<Rightarrow> u32 \<Rightarrow> bool \<times> 's pb_ostream" where
  "pb_encode_tag s wiretype field_number =
     pb_encode_varint s (push_bit 3 (to_u64 field_number) OR to_u64 wiretype)"

definition pb_encode_string :: "'s pb_ostream \<Rightarrow> u8 list \<Rightarrow> u64 \<Rightarrow> bool \<times> 's pb_ostream" where
  "pb_encode_string s buffer sz =
     then_ok (pb_encode_varint s sz) (\<lambda>s'. pb_write s' buffer sz)"

subsection \<open>Decoding\<close>

lemma pb_readbyte_Some_left:
  assumes "pb_readbyte s = (Some b, s')"
  shows "bytes_left s' = bytes_left s - 1 \<and> bytes_left s \<noteq> 0"
  using assms
  by (auto simp: pb_readbyte_def i_fail_def call_reader_def buf_read_def
      split: if_splits pb_reader.splits prod.splits)

lemma pb_readbyte_less:
  "pb_readbyte s = (Some b, s') \<Longrightarrow> unat (bytes_left s') < unat (bytes_left s)"
  by (drule pb_readbyte_Some_left) (simp add: measure_unat)

text \<open>
  The loop of \<open>pb_decode_varint32_eof\<close>. \<open>bitpos\<close> is a \<open>uint_fast8_t\<close>, which is
  8 bits wide on the targets of the application: it wraps at 256.
\<close>

function varint32_loop :: "'s pb_istream \<Rightarrow> u8 \<Rightarrow> u32 \<Rightarrow> u32 option \<times> 's pb_istream" where
  "varint32_loop s bitpos result =
     (case pb_readbyte s of
        (None, s') \<Rightarrow> (None, s')
      | (Some byte, s') \<Rightarrow>
          (let sign_extension = (if bitpos < 63 then 0xFF else 0x01 :: u8);
               result' = (if 32 \<le> bitpos then result
                          else result OR push_bit (unat bitpos) (to_u32 (byte AND 0x7F)));
               bitpos' = bitpos + 7
           in if 32 \<le> bitpos \<and> byte AND 0x7F \<noteq> 0 \<and>
                 (drop_bit 31 result = 0 \<or> byte \<noteq> sign_extension)
              then i_fail ''varint overflow'' s'
              else if byte AND 0x80 \<noteq> 0 then varint32_loop s' bitpos' result'
              else if bitpos' = 35 \<and> byte AND 0x70 \<noteq> 0 then i_fail ''varint overflow'' s'
              else (Some result', s')))"
  by pat_completeness auto
termination
  by (relation "measure (\<lambda>(s, bitpos, result). unat (bytes_left s))") (auto dest: pb_readbyte_less sym)

declare varint32_loop.simps [simp del]

text \<open>
  The result is \<open>*dest\<close> when the call succeeds; \<open>eof\<close> is the \<open>bool *eof\<close> argument:
  \<open>None\<close> for NULL, otherwise what it points at.
\<close>

definition pb_decode_varint32_eof ::
  "'s pb_istream \<Rightarrow> bool option \<Rightarrow> u32 option \<times> bool option \<times> 's pb_istream" where
  "pb_decode_varint32_eof s eof =
     (case pb_readbyte s of
        (None, s') \<Rightarrow>
          (None, (if bytes_left s' = 0 then map_option (\<lambda>_. True) eof else eof), s')
      | (Some byte, s') \<Rightarrow>
          if byte AND 0x80 = 0 then (Some (to_u32 byte), eof, s')
          else (case varint32_loop s' 7 (to_u32 (byte AND 0x7F)) of
                  (r, s'') \<Rightarrow> (r, eof, s'')))"

definition pb_decode_varint32 :: "'s pb_istream \<Rightarrow> u32 option \<times> 's pb_istream" where
  "pb_decode_varint32 s = (case pb_decode_varint32_eof s None of (r, _, s') \<Rightarrow> (r, s'))"

function varint64_loop :: "'s pb_istream \<Rightarrow> u8 \<Rightarrow> u64 \<Rightarrow> u64 option \<times> 's pb_istream" where
  "varint64_loop s bitpos result =
     (if 64 \<le> bitpos then i_fail ''varint overflow'' s
      else (case pb_readbyte s of
              (None, s') \<Rightarrow> (None, s')
            | (Some byte, s') \<Rightarrow>
                (let result' = result OR push_bit (unat bitpos) (to_u64 (byte AND 0x7F))
                 in if byte AND 0x80 \<noteq> 0 then varint64_loop s' (bitpos + 7) result'
                    else (Some result', s'))))"
  by pat_completeness auto
termination
  by (relation "measure (\<lambda>(s, bitpos, result). unat (bytes_left s))") (auto dest: pb_readbyte_less sym)

declare varint64_loop.simps [simp del]

definition pb_decode_varint :: "'s pb_istream \<Rightarrow> u64 option \<times> 's pb_istream" where
  "pb_decode_varint s = varint64_loop s 0 0"

definition pb_decode_svarint :: "'s pb_istream \<Rightarrow> u64 option \<times> 's pb_istream" where
  "pb_decode_svarint s =
     (case pb_decode_varint s of
        (None, s') \<Rightarrow> (None, s')
      | (Some value, s') \<Rightarrow>
          (Some (if value AND 1 \<noteq> 0 then NOT (drop_bit 1 value) else drop_bit 1 value), s'))"

definition pb_decode_fixed32 :: "'s pb_istream \<Rightarrow> u32 option \<times> 's pb_istream" where
  "pb_decode_fixed32 s =
     (case pb_read s True 4 of
        (None, s') \<Rightarrow> (None, s')
      | (Some b, s') \<Rightarrow>
          (Some (push_bit 0 (to_u32 (b ! 0)) OR push_bit 8 (to_u32 (b ! 1)) OR
                 push_bit 16 (to_u32 (b ! 2)) OR push_bit 24 (to_u32 (b ! 3))), s'))"

definition pb_decode_fixed64 :: "'s pb_istream \<Rightarrow> u64 option \<times> 's pb_istream" where
  "pb_decode_fixed64 s =
     (case pb_read s True 8 of
        (None, s') \<Rightarrow> (None, s')
      | (Some b, s') \<Rightarrow>
          (Some (push_bit 0 (to_u64 (b ! 0)) OR push_bit 8 (to_u64 (b ! 1)) OR
                 push_bit 16 (to_u64 (b ! 2)) OR push_bit 24 (to_u64 (b ! 3)) OR
                 push_bit 32 (to_u64 (b ! 4)) OR push_bit 40 (to_u64 (b ! 5)) OR
                 push_bit 48 (to_u64 (b ! 6)) OR push_bit 56 (to_u64 (b ! 7))), s'))"

lemma call_reader_left [simp]:
  "call_reader s n = (ok, bs, s') \<Longrightarrow> bytes_left s' = bytes_left s"
  by (auto simp: call_reader_def buf_read_def split: pb_reader.splits prod.splits)

lemma pb_read_direct_Some_left:
  "pb_read_direct s n = (Some bs, s') \<Longrightarrow> bytes_left s' = bytes_left s - n \<and> n \<le> bytes_left s"
  by (auto simp: pb_read_direct_def i_fail_def split: if_splits prod.splits)

lemma pb_read_1_less:
  assumes "pb_read s True 1 = (Some bs, s')"
  shows "unat (bytes_left s') < unat (bytes_left s)"
proof -
  from assms have "bytes_left s' = bytes_left s - 1 \<and> 1 \<le> bytes_left s"
    by (auto simp: pb_read_def dest: pb_read_direct_Some_left)
  then have "bytes_left s' = bytes_left s - 1" and "bytes_left s \<noteq> 0"
    by auto
  then show ?thesis by (simp add: measure_unat)
qed

text \<open>The result \<open>Some ()\<close> stands for \<open>return true\<close>.\<close>

function pb_skip_varint :: "'s pb_istream \<Rightarrow> unit option \<times> 's pb_istream" where
  "pb_skip_varint s =
     (case pb_read s True 1 of
        (None, s') \<Rightarrow> (None, s')
      | (Some bs, s') \<Rightarrow> if hd bs AND 0x80 \<noteq> 0 then pb_skip_varint s' else (Some (), s'))"
  by pat_completeness auto
termination
  by (relation "measure (\<lambda>s. unat (bytes_left s))") (auto dest: pb_read_1_less sym)

declare pb_skip_varint.simps [simp del]

definition pb_skip_bytes :: "'s pb_istream \<Rightarrow> u64 \<Rightarrow> unit option \<times> 's pb_istream" where
  \<comment> \<open>\<open>pb_read(stream, NULL, n)\<close>\<close>
  "pb_skip_bytes s n = (case pb_read s False n of (r, s') \<Rightarrow> (map_option (\<lambda>_. ()) r, s'))"

definition pb_skip_string :: "'s pb_istream \<Rightarrow> unit option \<times> 's pb_istream" where
  "pb_skip_string s =
     (case pb_decode_varint32 s of
        (None, s') \<Rightarrow> (None, s')
      | (Some len, s') \<Rightarrow> pb_skip_bytes s' (to_u64 len))"

text \<open>The results are the success flag with \<open>*wire_type\<close> and \<open>*tag\<close>, and \<open>*eof\<close>.\<close>

definition pb_decode_tag ::
  "'s pb_istream \<Rightarrow> (pb_wire_type_t \<times> u32) option \<times> bool \<times> 's pb_istream" where
  "pb_decode_tag s =
     (case pb_decode_varint32_eof s (Some False) of
        (None, eof, s') \<Rightarrow> (None, eof = Some True, s')
      | (Some temp, eof, s') \<Rightarrow>
          if temp = 0 then (None, True, s')
          else (Some (temp AND 7, drop_bit 3 temp), eof = Some True, s'))"

definition pb_skip_field :: "'s pb_istream \<Rightarrow> pb_wire_type_t \<Rightarrow> unit option \<times> 's pb_istream" where
  "pb_skip_field s wire_type =
     (if wire_type = PB_WT_VARINT then pb_skip_varint s
      else if wire_type = PB_WT_64BIT then pb_skip_bytes s 8
      else if wire_type = PB_WT_STRING then pb_skip_string s
      else if wire_type = PB_WT_32BIT then pb_skip_bytes s 4
      else i_fail ''invalid wire_type'' s)"

text \<open>The varint case of \<open>read_raw_value\<close>: \<open>got\<close> are the bytes stored in \<open>buf\<close> so far.\<close>

function read_raw_varint :: "'s pb_istream \<Rightarrow> u8 list \<Rightarrow> nat \<Rightarrow> u8 list option \<times> 's pb_istream" where
  "read_raw_varint s got max_sz =
     (if max_sz < Suc (length got) then (None, s)
      else (case pb_read s True 1 of
              (None, s') \<Rightarrow> (None, s')
            | (Some bs, s') \<Rightarrow>
                if hd bs AND 0x80 \<noteq> 0 then read_raw_varint s' (got @ [hd bs]) max_sz
                else (Some (got @ [hd bs]), s')))"
  by pat_completeness auto
termination
  by (relation "measure (\<lambda>(s, got, max_sz). max_sz - length got)") auto

declare read_raw_varint.simps [simp del]

definition read_raw_value ::
  "'s pb_istream \<Rightarrow> pb_wire_type_t \<Rightarrow> nat \<Rightarrow> u8 list option \<times> 's pb_istream" where
  "read_raw_value s wire_type max_sz =
     (if wire_type = PB_WT_VARINT then read_raw_varint s [] max_sz
      else if wire_type = PB_WT_64BIT then pb_read s True 8
      else if wire_type = PB_WT_32BIT then pb_read s True 4
      else i_fail ''invalid wire_type'' s)"

subsection \<open>Substreams\<close>

text \<open>The result is the substream, when the call succeeds, and the parent stream.\<close>

definition pb_make_string_substream ::
  "'s pb_istream \<Rightarrow> 's pb_istream option \<times> 's pb_istream" where
  "pb_make_string_substream s =
     (case pb_decode_varint32 s of
        (None, s') \<Rightarrow> (None, s')
      | (Some sz, s') \<Rightarrow>
          if bytes_left s' < to_u64 sz then i_fail ''parent stream too short'' s'
          else (Some (s'\<lparr>bytes_left := to_u64 sz\<rparr>),
                s'\<lparr>bytes_left := bytes_left s' - to_u64 sz\<rparr>))"

text \<open>
  \<open>stream->state = substream->state\<close> copies what the state pointer designates: the rest of the
  array for a memory stream, the state of the user's callback otherwise. The fault flag is not
  data of the program: it is kept on both paths.
\<close>

definition pb_close_string_substream ::
  "'s pb_istream \<Rightarrow> 's pb_istream \<Rightarrow> unit option \<times> 's pb_istream" where
  "pb_close_string_substream s sub =
     (case (if bytes_left sub \<noteq> 0 then pb_skip_bytes sub (bytes_left sub) else (Some (), sub)) of
        (None, sub') \<Rightarrow> (None, s\<lparr>i_fault := i_fault sub'\<rparr>)
      | (Some _, sub') \<Rightarrow>
          (Some (), s\<lparr>i_ptr := i_ptr sub', i_state := i_state sub', i_fault := i_fault sub',
                      i_errmsg := i_errmsg sub'\<rparr>))"

end
