(* ===== verification/NanopbWireFacts.thy ===== *)
theory NanopbWireFacts
  imports NanopbWire
begin

text \<open>
  What the wire primitives of nanopb compute: the encoders write the Protocol Buffers
  base-128 and little-endian forms, the decoders read them back, skipping a field moves over
  exactly its bytes, and no decoder reads past the end of a memory stream.
\<close>

subsection \<open>The base-128 format\<close>

text \<open>The wire format of an unsigned integer, stated on naturals and independent of the code.\<close>

function base128 :: "nat \<Rightarrow> u8 list" where
  "base128 n = (if n < 128 then [byte_of n] else byte_of (n mod 128 + 128) # base128 (n div 128))"
  by pat_completeness auto
termination
  by (relation "measure id") auto

declare base128.simps [simp del]

lemma base128_small [simp]: "n < 128 \<Longrightarrow> base128 n = [byte_of n]"
  by (simp add: base128.simps)

lemma base128_large: "128 \<le> n \<Longrightarrow> base128 n = byte_of (n mod 128 + 128) # base128 (n div 128)"
  by (subst base128.simps) simp

lemma base128_not_Nil [simp]: "base128 n \<noteq> []"
  by (subst base128.simps) simp

lemma base128_length_le: "n < 128 ^ k \<Longrightarrow> 0 < k \<Longrightarrow> length (base128 n) \<le> k"
proof (induction k arbitrary: n)
  case (Suc k)
  show ?case
  proof (cases "n < 128")
    case False
    with Suc.prems have "n div 128 < 128 ^ k" and "0 < k"
      by (cases k; simp add: less_mult_imp_div_less mult.commute)+
    then have "length (base128 (n div 128)) \<le> k" by (rule Suc.IH)
    with False show ?thesis by (simp add: base128_large)
  qed simp
qed simp

lemma base128_u64_length: "length (base128 (unat (v :: u64))) \<le> 10"
  by (rule base128_length_le) (use unat_lt_u64 [of v] in simp_all)

lemma septet_split:
  "(n :: nat) * 2 ^ (7 * k) = n mod 128 * 2 ^ (7 * k) + n div 128 * 2 ^ (7 * Suc k)"
proof -
  have "n * 2 ^ (7 * k) = (n div 128 * 128 + n mod 128) * 2 ^ (7 * k)" by simp
  then show ?thesis by (simp only: distrib_right) (simp add: power_add)
qed

lemma septet_bound:
  assumes "a < (2 :: nat) ^ (7 * k)"
  shows "a + n mod 128 * 2 ^ (7 * k) < 2 ^ (7 * Suc k)"
proof -
  have "a + n mod 128 * 2 ^ (7 * k) < 2 ^ (7 * k) + 127 * 2 ^ (7 * k)"
    using assms by (intro add_less_le_mono mult_right_mono) auto
  then show ?thesis by (simp add: power_add)
qed

subsection \<open>Encoding integers\<close>

lemma continuation_byte:
  "to_u8 (v AND 0x7F :: u64) OR 0x80 = byte_of (unat v mod 128 + 128)"
proof -
  have r: "unat (to_u8 (v AND 0x7F)) = unat v mod 128"
    by (simp add: unsigned_ucast_eq low7_unat take_bit_nat_eq_self_iff)
  have "to_u8 (v AND 0x7F) OR 0x80 = to_u8 (v AND 0x7F) OR push_bit 7 1"
    by (simp add: push_bit_eq_mult)
  moreover have "unat (to_u8 (v AND 0x7F) OR push_bit 7 1) = unat v mod 128 + 128"
    by (subst or_push_bit_unat) (simp_all add: r)
  ultimately show ?thesis
    by (intro byte_of_eqI) simp
qed

lemma varint_loop_mask:
  assumes "v \<noteq> 0"
  shows "(varint_loop v)[length (varint_loop v) - 1 := last (varint_loop v) AND 0x7F] = base128 (unat v)"
  using assms
proof (induction v rule: varint_loop.induct)
  case (1 v)
  have step: "varint_loop v = byte_of (unat v mod 128 + 128) # varint_loop (drop_bit 7 v)"
    using 1 by (subst varint_loop.simps) (simp add: continuation_byte)
  have down: "unat (drop_bit 7 v) = unat v div 128"
    by (simp add: drop_bit_eq_div unat_div)
  show ?case
  proof (cases "unat v < 128")
    case True
    then have "varint_loop (drop_bit 7 v) = []"
      using down by (subst varint_loop.simps) (simp add: word_unat_eq_iff)
    moreover have "byte_of (unat v + 128) AND 0x7F = byte_of (unat v)"
      using True by (intro byte_of_eqI) (simp add: low7_unat)
    ultimately show ?thesis using True step by simp
  next
    case False
    then have nz: "drop_bit 7 v \<noteq> 0"
      using down by (auto simp: word_unat_eq_iff)
    then have ne: "varint_loop (drop_bit 7 v) \<noteq> []"
      by (subst varint_loop.simps) simp
    from 1(1) [OF 1(2) nz] down False step ne show ?thesis
      by (cases "length (varint_loop (drop_bit 7 v))") (auto simp: base128_large)
  qed
qed

text \<open>The encoder writes the base-128 form of its argument.\<close>

lemma pb_encode_varint_eq:
  "pb_encode_varint s v = pb_write s (base128 (unat v)) (word_of_nat (length (base128 (unat v))))"
proof (cases "v \<le> 0x7F")
  case True
  then have "unat v < 128" by (simp add: word_le_nat_alt)
  moreover from this have "to_u8 v = byte_of (unat v)"
    by (intro byte_of_eqI) (simp add: unsigned_ucast_eq take_bit_eq_mod)
  ultimately show ?thesis using True by (simp add: pb_encode_varint_def)
next
  case False
  then have "v \<noteq> 0" by auto
  moreover from this have "varint_loop v \<noteq> []" by (subst varint_loop.simps) simp
  moreover from \<open>v \<noteq> 0\<close> have "length (varint_loop v) = length (base128 (unat v))"
    by (metis length_list_update varint_loop_mask)
  ultimately show ?thesis
    using False varint_loop_mask [of v]
    by (simp add: pb_encode_varint_def Let_def last_conv_nth)
qed

subsection \<open>Decoding integers\<close>

context pb_source
begin

lemma varint64_loop_base128:
  assumes "inv s" and "content s = base128 n @ rest" and "unat bitpos = 7 * k"
    and "k < 10" and "unat r < 2 ^ (7 * k)" and "unat r + n * 2 ^ (7 * k) < 2 ^ 64"
  shows "\<exists>v. varint64_loop s bitpos r = (Some v, adv (length (base128 n)) s) \<and>
     unat v = unat r + n * 2 ^ (7 * k)"
  using assms
proof (induction n arbitrary: s k r bitpos rule: base128.induct)
  case (1 n)
  have guard: "\<not> (64 :: u8) \<le> bitpos"
    using 1(4,5) by (simp add: word_le_nat_alt)
  show ?case
  proof (cases "n < 128")
    case True
    then have c: "content s = byte_of n # rest" using 1 by simp
    let ?x = "to_u64 (byte_of n AND 0x7F)"
    have x: "unat ?x = n" using True by (simp add: low7_unat)
    have "unat (r OR push_bit (7 * k) ?x) = unat r + n * 2 ^ (7 * k)"
      using 1(6,7) x by (subst or_push_bit_unat) simp_all
    then show ?thesis
      using readbyte [OF 1(2) c] True guard 1(4)
      by (subst varint64_loop.simps) (simp add: u8_msb_clear_iff Let_def)
  next
    case False
    let ?b = "byte_of (n mod 128 + 128)"
    let ?x = "to_u64 (?b AND 0x7F)"
    let ?r = "r OR push_bit (7 * k) ?x"
    have "n mod 128 < 128" by simp
    then have b: "unat ?b = n mod 128 + 128" by (intro unat_byte_of) linarith
    have c: "content s = ?b # (base128 (n div 128) @ rest)"
      using 1(3) False by (simp add: base128_large)
    have x: "unat ?x = n mod 128"
      by (simp add: low7_unat b)
    have split: "n * 2 ^ (7 * k) = n mod 128 * 2 ^ (7 * k) + n div 128 * 2 ^ (7 * Suc k)"
      by (rule septet_split)
    have r': "unat ?r = unat r + n mod 128 * 2 ^ (7 * k)"
      using 1(6,7) x split by (subst or_push_bit_unat) simp_all
    have lt: "unat ?r < 2 ^ (7 * Suc k)"
      using 1(6) r' septet_bound [of "unat r" k n] by simp
    have "1 * 2 ^ (7 * Suc k) \<le> n div 128 * 2 ^ (7 * Suc k)"
      using False by (intro mult_right_mono) auto
    then have "(2 :: nat) ^ (7 * Suc k) < 2 ^ 64" using split 1(7) by linarith
    then have k: "Suc k < 10" by (simp only: power_strict_increasing_iff) simp
    have bp: "unat (bitpos + 7) = 7 * Suc k"
      using 1(4) k by (simp add: unat_word_ariths)
    have sum: "unat ?r + n div 128 * 2 ^ (7 * Suc k) < 2 ^ 64"
      using 1(7) split r' by simp
    note adv1 = adv_one_content [OF 1(2) c]
    have le: "Suc (length (base128 (n div 128))) \<le> length (content s)" using c by simp
    from 1(1) [OF False _ _ bp k lt sum] adv1 obtain v where
      v: "varint64_loop (adv 1 s) (bitpos + 7) ?r = (Some v, adv (length (base128 (n div 128))) (adv 1 s))"
        "unat v = unat ?r + n div 128 * 2 ^ (7 * Suc k)"
      by blast
    moreover have "varint64_loop s bitpos r = varint64_loop (adv 1 s) (bitpos + 7) ?r"
      using readbyte [OF 1(2) c] guard 1(4) b
      by (subst varint64_loop.simps) (simp add: u8_msb_clear_iff Let_def)
    ultimately show ?thesis
      using False adv_Suc [OF 1(2) le] r' split by (simp add: base128_large)
  qed
qed

lemma pb_decode_varint_base128:
  assumes "inv s" and "content s = base128 (unat v) @ rest"
  shows "pb_decode_varint s = (Some v, adv (length (base128 (unat v))) s)"
  using varint64_loop_base128 [of s "unat v" rest 0 0 0] assms unat_lt_u64 [of v]
  by (auto simp: pb_decode_varint_def word_unat_eq_iff)

end

subsection \<open>Zig-zag, fixed width, tags\<close>

lemma zigzag_inverse:
  fixes v :: u64
  defines "z \<equiv> (if v <s 0 then NOT (push_bit 1 v) else push_bit 1 v)"
  shows "(if z AND 1 \<noteq> 0 then NOT (drop_bit 1 z) else drop_bit 1 z) = v"
proof -
  have sgn: "v <s 0 \<longleftrightarrow> bit v 63"
    using bit_last_iff [of v] by (simp add: word_sless_alt)
  have odd: "z AND 1 \<noteq> 0 \<longleftrightarrow> v <s 0"
    using and_exp_eq_0_iff_not_bit [of z 0]
    by (auto simp: z_def bit_not_iff_eq bit_push_bit_iff simp del: push_bit_Suc push_bit_of_1)
  have pb: "bit (push_bit 1 v) (1 + n) \<longleftrightarrow> n < 63 \<and> bit v n" for n
    unfolding bit_push_bit_iff by auto
  show ?thesis
  proof (cases "v <s 0")
    case True
    have "NOT (drop_bit 1 z) = v"
    proof (rule bit_word_eqI)
      fix n assume n: "n < LENGTH(64)"
      have "bit (NOT (drop_bit 1 z)) n \<longleftrightarrow> \<not> (n < 63 \<and> \<not> bit (push_bit 1 v) (1 + n))"
        using n True unfolding z_def
        by (simp only: if_True bit_not_iff bit_drop_bit_eq o_apply possible_bit_word) auto
      also have "\<dots> \<longleftrightarrow> bit v n"
        using n True sgn unfolding pb by (cases "n = 63") auto
      finally show "bit (NOT (drop_bit 1 z)) n \<longleftrightarrow> bit v n" .
    qed
    then show ?thesis using odd True by simp
  next
    case False
    have "drop_bit 1 z = v"
    proof (rule bit_word_eqI)
      fix n assume n: "n < LENGTH(64)"
      have "bit (drop_bit 1 z) n \<longleftrightarrow> bit (push_bit 1 v) (1 + n)"
        using False by (simp add: bit_drop_bit_eq z_def)
      also have "\<dots> \<longleftrightarrow> bit v n"
        using n False sgn unfolding pb by (cases "n = 63") auto
      finally show "bit (drop_bit 1 z) n \<longleftrightarrow> bit v n" .
    qed
    then show ?thesis using odd False by simp
  qed
qed

lemma byte_slice_bit:
  fixes v :: "'a::len word"
  assumes "n < LENGTH('b::len)" and "LENGTH('a) = LENGTH('b)"
  shows "bit (push_bit k (ucast (to_u8 (drop_bit k v AND 0xFF)) :: 'b word)) n \<longleftrightarrow>
     k \<le> n \<and> n < k + 8 \<and> bit v n"
proof -
  have ff: "(0xFF :: 'a word) = mask 8" by (simp add: mask_eq_exp_minus_1)
  show ?thesis
    unfolding ff using assms by (auto simp: bit_simps)
qed

lemma byte_slice_bit_0:
  fixes v :: "'a::len word"
  assumes "n < LENGTH('b::len)" and "LENGTH('a) = LENGTH('b)"
  shows "bit (push_bit 0 (ucast (to_u8 (v AND 0xFF)) :: 'b word)) n \<longleftrightarrow> n < 8 \<and> bit v n"
  using byte_slice_bit [of n 0 v, where 'b = 'b] assms by simp

lemma le32_bytes:
  fixes v :: u32
  shows "push_bit 0 (to_u32 (to_u8 (v AND 0xFF))) OR push_bit 8 (to_u32 (to_u8 (drop_bit 8 v AND 0xFF))) OR
    push_bit 16 (to_u32 (to_u8 (drop_bit 16 v AND 0xFF))) OR
    push_bit 24 (to_u32 (to_u8 (drop_bit 24 v AND 0xFF))) = v"
proof (rule bit_word_eqI)
  fix n assume n: "n < LENGTH(32)"
  then have "n < 8 \<or> 8 \<le> n \<and> n < 8 + 8 \<or> 16 \<le> n \<and> n < 16 + 8 \<or> 24 \<le> n \<and> n < 24 + 8"
    by auto
  then show "bit (push_bit 0 (to_u32 (to_u8 (v AND 0xFF))) OR push_bit 8 (to_u32 (to_u8 (drop_bit 8 v AND 0xFF))) OR
    push_bit 16 (to_u32 (to_u8 (drop_bit 16 v AND 0xFF))) OR
    push_bit 24 (to_u32 (to_u8 (drop_bit 24 v AND 0xFF)))) n = bit v n"
    unfolding bit_or_iff byte_slice_bit [OF n refl] byte_slice_bit_0 [OF n refl] by blast
qed

lemma le64_bytes:
  fixes v :: u64
  shows "push_bit 0 (to_u64 (to_u8 (v AND 0xFF))) OR push_bit 8 (to_u64 (to_u8 (drop_bit 8 v AND 0xFF))) OR
    push_bit 16 (to_u64 (to_u8 (drop_bit 16 v AND 0xFF))) OR
    push_bit 24 (to_u64 (to_u8 (drop_bit 24 v AND 0xFF))) OR
    push_bit 32 (to_u64 (to_u8 (drop_bit 32 v AND 0xFF))) OR
    push_bit 40 (to_u64 (to_u8 (drop_bit 40 v AND 0xFF))) OR
    push_bit 48 (to_u64 (to_u8 (drop_bit 48 v AND 0xFF))) OR
    push_bit 56 (to_u64 (to_u8 (drop_bit 56 v AND 0xFF))) = v" (is "?l = v")
proof (rule bit_word_eqI)
  fix n assume n: "n < LENGTH(64)"
  then have "n < 8 \<or> 8 \<le> n \<and> n < 8 + 8 \<or> 16 \<le> n \<and> n < 16 + 8 \<or> 24 \<le> n \<and> n < 24 + 8 \<or>
      32 \<le> n \<and> n < 32 + 8 \<or> 40 \<le> n \<and> n < 40 + 8 \<or> 48 \<le> n \<and> n < 48 + 8 \<or> 56 \<le> n \<and> n < 56 + 8"
    by auto
  then show "bit ?l n = bit v n"
    unfolding bit_or_iff byte_slice_bit [OF n refl] byte_slice_bit_0 [OF n refl] by blast
qed

subsection \<open>What the encoders write\<close>

text \<open>The little-endian bytes of a fixed-width value.\<close>

definition le32 :: "u32 \<Rightarrow> u8 list" where
  "le32 v = map (\<lambda>k. to_u8 (drop_bit k v AND 0xFF)) [0, 8, 16, 24]"

definition le64 :: "u64 \<Rightarrow> u8 list" where
  "le64 v = map (\<lambda>k. to_u8 (drop_bit k v AND 0xFF)) [0, 8, 16, 24, 32, 40, 48, 56]"

lemma length_le32 [simp]: "length (le32 v) = 4" and length_le64 [simp]: "length (le64 w) = 8"
  by (simp_all add: le32_def le64_def)

definition zigzag :: "u64 \<Rightarrow> u64" where
  "zigzag v = (if v <s 0 then NOT (push_bit 1 v) else push_bit 1 v)"

definition tag_value :: "pb_wire_type_t \<Rightarrow> u32 \<Rightarrow> nat" where
  "tag_value wt field = unat field * 8 + unat wt"

lemma tag_word:
  assumes "unat wt < 8"
  shows "unat (push_bit 3 (to_u64 field) OR to_u64 (wt :: u32)) = tag_value wt field"
proof -
  have "unat field < 2 ^ 32" using unsigned_less [of field] by simp
  then have "unat (to_u64 wt OR push_bit 3 (to_u64 field)) = unat wt + unat field * 2 ^ 3"
    using assms by (subst or_push_bit_unat) simp_all
  then show ?thesis by (simp add: tag_value_def or.commute)
qed

context pb_sink
begin

lemma writes_varint: "writes (\<lambda>s. pb_encode_varint s v) (base128 (unat v))"
  unfolding pb_encode_varint_eq by (rule writes_write) simp

lemma writes_svarint: "writes (\<lambda>s. pb_encode_svarint s v) (base128 (unat (zigzag v)))"
  unfolding pb_encode_svarint_def Let_def zigzag_def [symmetric] by (rule writes_varint)

lemma writes_fixed32: "writes (\<lambda>s. pb_encode_fixed32 s v) (le32 v)"
  unfolding pb_encode_fixed32_def le32_def list.map drop_bit_0 id_apply
  by (rule writes_write) simp

lemma writes_fixed64: "writes (\<lambda>s. pb_encode_fixed64 s v) (le64 v)"
  unfolding pb_encode_fixed64_def le64_def list.map drop_bit_0 id_apply
  by (rule writes_write) simp

lemma writes_tag: "unat wt < 8 \<Longrightarrow> writes (\<lambda>s. pb_encode_tag s wt field) (base128 (tag_value wt field))"
  unfolding pb_encode_tag_def using writes_varint [of "push_bit 3 (to_u64 field) OR to_u64 wt"]
  by (simp add: tag_word)

lemma writes_string:
  "length bs < 2 ^ 64 \<Longrightarrow> n = word_of_nat (length bs) \<Longrightarrow>
   writes (\<lambda>s. pb_encode_string s bs n) (base128 (length bs) @ bs)"
  unfolding pb_encode_string_def
  by (rule writes_then) (use writes_varint [of n] in simp, simp add: writes_write)

end

lemma base128_u64_short: "length (base128 (unat (v :: u64))) < 2 ^ 64"
  using base128_u64_length [of v] by simp

context pb_bounded_sink
begin

lemma exact_varint: "exact (\<lambda>s. pb_encode_varint s v) (base128 (unat v))"
  unfolding pb_encode_varint_eq by (rule exact_write) (simp_all add: base128_u64_short [simplified])

lemma exact_svarint: "exact (\<lambda>s. pb_encode_svarint s v) (base128 (unat (zigzag v)))"
  unfolding pb_encode_svarint_def Let_def zigzag_def [symmetric] by (rule exact_varint)

lemma exact_fixed32: "exact (\<lambda>s. pb_encode_fixed32 s v) (le32 v)"
  unfolding pb_encode_fixed32_def le32_def list.map drop_bit_0 id_apply
  by (rule exact_write) simp_all

lemma exact_fixed64: "exact (\<lambda>s. pb_encode_fixed64 s v) (le64 v)"
  unfolding pb_encode_fixed64_def le64_def list.map drop_bit_0 id_apply
  by (rule exact_write) simp_all

lemma exact_tag: "unat wt < 8 \<Longrightarrow> exact (\<lambda>s. pb_encode_tag s wt field) (base128 (tag_value wt field))"
  unfolding pb_encode_tag_def using exact_varint [of "push_bit 3 (to_u64 field) OR to_u64 wt"]
  by (simp add: tag_word)

lemma exact_string:
  "length bs < 2 ^ 64 \<Longrightarrow> n = word_of_nat (length bs) \<Longrightarrow>
   exact (\<lambda>s. pb_encode_string s bs n) (base128 (length bs) @ bs)"
  unfolding pb_encode_string_def
  by (rule exact_then) (use exact_varint [of n] in simp, simp add: exact_write)

end

subsection \<open>Decoding 32-bit integers\<close>

lemma high3_clear_iff: "(b :: u8) AND 0x70 = 0 \<longleftrightarrow> unat b mod 128 < 16"
proof -
  have "b AND 0x70 = 0 \<longleftrightarrow> take_bit 3 (drop_bit 4 b) = 0"
  proof -
    have "b AND 0x70 = push_bit 4 (take_bit 3 (drop_bit 4 b))"
      by (rule bit_word_eqI) (simp add: bit_simps, simp add: numeral_eq_Suc less_Suc_eq; auto)
    then show ?thesis
      by (auto simp: push_bit_eq_mult word_unat_eq_iff unat_word_ariths unsigned_take_bit_eq take_bit_eq_mod)
  qed
  also have "\<dots> \<longleftrightarrow> unat b div 16 mod 8 = 0"
    by (simp add: word_unat_eq_iff drop_bit_eq_div take_bit_eq_mod unat_div unat_mod)
  also have "\<dots> \<longleftrightarrow> unat b mod 128 < 16"
  proof -
    have "unat b mod 128 = 16 * (unat b div 16 mod 8) + unat b mod 16"
      using mod_mult2_eq [of "unat b" 16 8] by simp
    then show ?thesis by (cases "unat b div 16 mod 8") auto
  qed
  finally show ?thesis .
qed

context pb_source
begin

lemma varint32_loop_small:
  assumes "inv s" and "content s = base128 n @ rest" and "unat bitpos = 7 * k"
    and "unat r < 2 ^ (7 * k)" and "unat r + n * 2 ^ (7 * k) < 2 ^ 32" and "k \<le> 4"
  shows "\<exists>v. varint32_loop s bitpos r = (Some v, adv (length (base128 n)) s) \<and>
     unat v = unat r + n * 2 ^ (7 * k)"
  using assms
proof (induction n arbitrary: s k r bitpos rule: base128.induct)
  case (1 n)
  have guard: "\<not> (32 :: u8) \<le> bitpos"
    using 1(4,7) by (simp add: word_le_nat_alt)
  show ?case
  proof (cases "n < 128")
    case True
    then have c: "content s = byte_of n # rest" using 1 by simp
    let ?x = "to_u32 (byte_of n AND 0x7F)"
    have x: "unat ?x = n" using True by (simp add: low7_unat)
    have sum: "unat (r OR push_bit (7 * k) ?x) = unat r + n * 2 ^ (7 * k)"
      using 1(5,6) x by (subst or_push_bit_unat) simp_all
    have last: "\<not> (bitpos + 7 = 35 \<and> byte_of n AND 0x70 \<noteq> 0)"
    proof (cases "k = 4")
      case True
      then have "n < 16" using 1(6) by simp
      then show ?thesis by (simp add: high3_clear_iff)
    next
      case False
      then have "unat (bitpos + 7) \<noteq> 35" using 1(4,7) by (simp add: unat_word_ariths)
      then show ?thesis by auto
    qed
    show ?thesis
      using readbyte [OF 1(2) c] True guard 1(4) last sum
      by (subst varint32_loop.simps) (auto simp: u8_msb_clear_iff Let_def)
  next
    case False
    let ?b = "byte_of (n mod 128 + 128)"
    let ?x = "to_u32 (?b AND 0x7F)"
    let ?r = "r OR push_bit (7 * k) ?x"
    have "n mod 128 < 128" by simp
    then have b: "unat ?b = n mod 128 + 128" by (intro unat_byte_of) linarith
    have c: "content s = ?b # (base128 (n div 128) @ rest)"
      using 1(3) False by (simp add: base128_large)
    have x: "unat ?x = n mod 128" by (simp add: low7_unat b)
    have split: "n * 2 ^ (7 * k) = n mod 128 * 2 ^ (7 * k) + n div 128 * 2 ^ (7 * Suc k)"
      by (rule septet_split)
    have r': "unat ?r = unat r + n mod 128 * 2 ^ (7 * k)"
      using 1(5,6) x split by (subst or_push_bit_unat) simp_all
    have lt: "unat ?r < 2 ^ (7 * Suc k)"
      using 1(5) r' septet_bound [of "unat r" k n] by simp
    have "1 * 2 ^ (7 * Suc k) \<le> n div 128 * 2 ^ (7 * Suc k)"
      using False by (intro mult_right_mono) auto
    then have "(2 :: nat) ^ (7 * Suc k) < 2 ^ 32" using split 1(6) by linarith
    then have k: "Suc k \<le> 4" by (simp only: power_strict_increasing_iff) simp
    have bp: "unat (bitpos + 7) = 7 * Suc k"
      using 1(4) k by (simp add: unat_word_ariths)
    have sum: "unat ?r + n div 128 * 2 ^ (7 * Suc k) < 2 ^ 32"
      using 1(6) split r' by simp
    note adv1 = adv_one_content [OF 1(2) c]
    have le: "Suc (length (base128 (n div 128))) \<le> length (content s)" using c by simp
    from 1(1) [OF False _ _ bp lt sum k] adv1 obtain v where
      v: "varint32_loop (adv 1 s) (bitpos + 7) ?r = (Some v, adv (length (base128 (n div 128))) (adv 1 s))"
        "unat v = unat ?r + n div 128 * 2 ^ (7 * Suc k)"
      by blast
    moreover have "varint32_loop s bitpos r = varint32_loop (adv 1 s) (bitpos + 7) ?r"
      using readbyte [OF 1(2) c] guard 1(4) b
      by (subst varint32_loop.simps) (simp add: u8_msb_clear_iff Let_def)
    ultimately show ?thesis
      using False adv_Suc [OF 1(2) le] r' split by (simp add: base128_large)
  qed
qed

text \<open>Values that need more than 32 bits, and are not the 64-bit form of a negative number.\<close>

lemma varint32_loop_large:
  assumes "inv s" and "content s = base128 n @ rest" and "unat bitpos = 7 * k"
    and "1 \<le> n" and "k \<le> 4 \<Longrightarrow> 2 ^ 32 \<le> n * 2 ^ (7 * k)" and "n * 2 ^ (7 * k) < 2 ^ 63"
  shows "fst (varint32_loop s bitpos r) = None"
  using assms
proof (induction n arbitrary: s k r bitpos rule: base128.induct)
  case (1 n)
  have "(1 :: nat) * 2 ^ (7 * k) < 2 ^ 63"
    using 1(5,7) by (meson le_less_trans mult_right_mono zero_le)
  then have k: "k < 9" by (simp only: mult_1 power_strict_increasing_iff)
  show ?case
  proof (cases "n < 128")
    case True
    then have c: "content s = byte_of n # rest" using 1 by simp
    show ?thesis
    proof (cases "k \<le> 4")
      case True
      have "4 \<le> k"
      proof (rule ccontr)
        assume "\<not> 4 \<le> k"
        then have "(2 :: nat) ^ (7 * k) \<le> 2 ^ 21" by (intro power_increasing) auto
        then have "n * 2 ^ (7 * k) \<le> 127 * 2 ^ 21" using \<open>n < 128\<close> by (intro mult_mono) auto
        then show False using 1(6) [OF True] by simp
      qed
      then have "k = 4" and n: "16 \<le> n" using True 1(6) by auto
      then have "unat (bitpos + 7) = unat (35 :: u8)" using 1(4) by (simp add: unat_word_ariths)
      then have bp: "bitpos + 7 = 35" by (simp only: word_unat_eq_iff)
      have "\<not> 32 \<le> bitpos" using 1(4) \<open>k = 4\<close> by (simp add: word_le_nat_alt)
      then show ?thesis
        using readbyte [OF 1(2) c] \<open>n < 128\<close> n bp
        by (subst varint32_loop.simps) (simp add: u8_msb_clear_iff high3_clear_iff Let_def i_fail_def)
    next
      case False
      have "byte_of n \<noteq> 0xFF" and "byte_of n AND 0x7F \<noteq> 0"
        using \<open>n < 128\<close> 1(5) by (auto simp: word_unat_eq_iff low7_unat)
      moreover have "32 \<le> bitpos" and "bitpos < 63"
        using False k 1(4) by (simp_all add: word_le_nat_alt word_less_nat_alt)
      ultimately show ?thesis
        using readbyte [OF 1(2) c]
        by (subst varint32_loop.simps) (simp add: Let_def i_fail_def)
    qed
  next
    case False
    let ?b = "byte_of (n mod 128 + 128)"
    have "n mod 128 < 128" by simp
    then have b: "unat ?b = n mod 128 + 128" by (intro unat_byte_of) linarith
    have c: "content s = ?b # (base128 (n div 128) @ rest)"
      using 1(3) False by (simp add: base128_large)
    note adv1 = adv_one_content [OF 1(2) c]
    have bp: "unat (bitpos + 7) = 7 * Suc k"
      using 1(4) k by (simp add: unat_word_ariths)
    have split: "n * 2 ^ (7 * k) = n mod 128 * 2 ^ (7 * k) + n div 128 * 2 ^ (7 * Suc k)"
      by (rule septet_split)
    have big: "2 ^ 32 \<le> n div 128 * 2 ^ (7 * Suc k)" if "Suc k \<le> 4"
    proof -
      have "n mod 128 * 2 ^ (7 * k) < 2 ^ (7 * Suc k)"
        using septet_bound [of 0 k n] by simp
      then have "2 ^ 32 < (n div 128 + 1) * 2 ^ (7 * Suc k)"
        using split 1(6) that by (simp only: distrib_right mult_1) linarith
      moreover have "(2 :: nat) ^ 32 = 2 ^ (32 - 7 * Suc k) * 2 ^ (7 * Suc k)"
        using that by (subst power_add [symmetric]) simp
      ultimately have "(2 :: nat) ^ (32 - 7 * Suc k) < n div 128 + 1"
        by (simp only: mult_less_cancel2)
      then have "(2 :: nat) ^ (32 - 7 * Suc k) \<le> n div 128" by simp
      then show ?thesis using \<open>2 ^ 32 = _\<close> by (simp only: mult_right_mono)
    qed
    have small: "n div 128 * 2 ^ (7 * Suc k) < 2 ^ 63" using 1(7) split by simp
    have one: "1 \<le> n div 128" using False by auto
    have IH: "fst (varint32_loop (adv 1 s) (bitpos + 7) r') = None" for r'
      using 1(1) [OF False _ _ bp one big small] adv1 by blast
    then show ?thesis
      using readbyte [OF 1(2) c] b
      by (subst varint32_loop.simps) (simp add: u8_msb_clear_iff Let_def i_fail_def)
  qed
qed

end

context pb_source
begin

lemma varint32_eof_small:
  assumes i: "inv s" and c: "content s = base128 n @ rest" and n: "n < 2 ^ 32"
  shows "pb_decode_varint32_eof s eof = (Some (word_of_nat n), eof, adv (length (base128 n)) s)"
proof (cases "n < 128")
  case True
  then have "content s = byte_of n # rest" using c by simp
  moreover have "to_u32 (byte_of n) = word_of_nat n"
    using True by (simp add: word_unat_eq_iff unat_of_nat)
  ultimately show ?thesis
    using True readbyte [OF i] by (simp add: pb_decode_varint32_eof_def u8_msb_clear_iff)
next
  case False
  let ?b = "byte_of (n mod 128 + 128)"
  have "n mod 128 < 128" by simp
  then have b: "unat ?b = n mod 128 + 128" by (intro unat_byte_of) linarith
  have c': "content s = ?b # (base128 (n div 128) @ rest)"
    using c False by (simp add: base128_large)
  have x: "unat (to_u32 (?b AND 0x7F)) = n mod 128" by (simp add: low7_unat b)
  note adv1 = adv_one_content [OF i c']
  have le: "Suc (length (base128 (n div 128))) \<le> length (content s)" using c' by simp
  have "n mod 128 + n div 128 * 2 ^ (7 * 1) = n"
    using mod_div_mult_eq [of n 128] by simp
  then obtain v where "unat v = n" and
    "varint32_loop (adv 1 s) 7 (to_u32 (?b AND 0x7F)) = (Some v, adv (length (base128 (n div 128))) (adv 1 s))"
    using varint32_loop_small [of "adv 1 s" "n div 128" rest 7 1 "to_u32 (?b AND 0x7F)"] adv1 x n
    by auto
  moreover from this have "v = word_of_nat n" by auto
  ultimately show ?thesis
    using readbyte [OF i c'] b False adv_Suc [OF i le]
    by (simp add: pb_decode_varint32_eof_def u8_msb_clear_iff base128_large)
qed

lemma varint32_small:
  assumes "inv s" and "content s = base128 n @ rest" and "n < 2 ^ 32"
  shows "pb_decode_varint32 s = (Some (word_of_nat n), adv (length (base128 n)) s)"
  using varint32_eof_small [OF assms] by (simp add: pb_decode_varint32_def)

lemma varint32_large:
  assumes i: "inv s" and c: "content s = base128 n @ rest" and n: "2 ^ 32 \<le> n" "n < 2 ^ 63"
  shows "fst (pb_decode_varint32 s) = None"
proof -
  let ?b = "byte_of (n mod 128 + 128)"
  have "n mod 128 < 128" by simp
  then have b: "unat ?b = n mod 128 + 128" by (intro unat_byte_of) linarith
  have c': "content s = ?b # (base128 (n div 128) @ rest)"
    using c n(1) by (simp add: base128_large)
  note adv1 = adv_one_content [OF i c']
  have "2 ^ 25 \<le> n div 128" and "n div 128 < 2 ^ 56"
    using n by (simp_all add: less_eq_div_iff_mult_less_eq less_mult_imp_div_less)
  then have "fst (varint32_loop (adv 1 s) 7 r) = None" for r
    using varint32_loop_large [of "adv 1 s" "n div 128" rest 7 1 r] adv1 by simp
  then show ?thesis
    using readbyte [OF i c'] b
    by (simp add: pb_decode_varint32_def pb_decode_varint32_eof_def u8_msb_clear_iff case_prod_beta)
qed

lemma decode_tag_value:
  assumes "inv s" and "content s = base128 (tag_value wt field) @ rest"
    and wt: "unat wt < 8" and field: "unat field < 2 ^ 29" and nz: "tag_value wt field \<noteq> 0"
  shows "pb_decode_tag s = (Some (wt, field), False, adv (length (base128 (tag_value wt field))) s)"
proof -
  have lt: "tag_value wt field < 2 ^ 32" using wt field by (simp add: tag_value_def)
  let ?t = "word_of_nat (tag_value wt field) :: u32"
  have t: "unat ?t = tag_value wt field" using lt by (simp add: unat_of_nat)
  have "?t AND 7 = take_bit 3 ?t" by (simp add: take_bit_eq_mask mask_eq_exp_minus_1)
  then have "unat (?t AND 7) = tag_value wt field mod 8"
    using t by (simp only: unsigned_take_bit_eq) (simp add: take_bit_eq_mod)
  then have "?t AND 7 = wt" using wt by (simp add: tag_value_def word_unat_eq_iff)
  moreover have "unat (drop_bit 3 ?t) = tag_value wt field div 8"
    using t by (simp only: unsigned_drop_bit_eq) (use lt in \<open>simp add: drop_bit_eq_div take_bit_eq_mod\<close>)
  then have "drop_bit 3 ?t = field" using wt by (simp add: tag_value_def word_unat_eq_iff)
  moreover have "?t \<noteq> 0" using t nz by auto
  ultimately show ?thesis
    using varint32_eof_small [OF assms(1,2) lt] by (simp add: pb_decode_tag_def)
qed

lemma skip_varint_base128:
  assumes "inv s" and "content s = base128 n @ rest"
  shows "pb_skip_varint s = (Some (), adv (length (base128 n)) s)"
  using assms
proof (induction n arbitrary: s rule: base128.induct)
  case (1 n)
  show ?case
  proof (cases "n < 128")
    case True
    then show ?thesis
      using 1(2,3) read_one [of s "byte_of n"]
      by (subst pb_skip_varint.simps) (simp add: u8_msb_clear_iff)
  next
    case False
    let ?b = "byte_of (n mod 128 + 128)"
    have "n mod 128 < 128" by simp
    then have b: "unat ?b = n mod 128 + 128" by (intro unat_byte_of) linarith
    have c: "content s = ?b # (base128 (n div 128) @ rest)"
      using 1(3) False by (simp add: base128_large)
    have le: "Suc (length (base128 (n div 128))) \<le> length (content s)" using c by simp
    show ?thesis
      using 1(1) [OF False] adv_one_content [OF 1(2) c] read_one [OF 1(2) c] b False adv_Suc [OF 1(2) le]
      by (subst pb_skip_varint.simps) (simp add: u8_msb_clear_iff base128_large)
  qed
qed

lemma skip_bytes:
  assumes "inv s" and "unat n \<le> length (content s)"
  shows "pb_skip_bytes s n = (Some (), adv (unat n) s)"
  using skip [OF assms] by (auto simp: pb_skip_bytes_def)

end

text \<open>Continuation bytes without value bits only move the bit position, modulo 256.\<close>

context pb_source
begin

lemma varint32_loop_zeros:
  assumes "inv s" and "content s = replicate k 0x80 @ bs"
  shows "varint32_loop s bitpos r = varint32_loop (adv k s) (bitpos + 7 * word_of_nat k) r"
  using assms
proof (induction k arbitrary: s bitpos)
  case 0
  then show ?case by (simp add: adv_zero)
next
  case (Suc k)
  then have c: "content s = 0x80 # (replicate k 0x80 @ bs)" by simp
  then have le: "Suc k \<le> length (content s)" by simp
  have "varint32_loop s bitpos r = varint32_loop (adv 1 s) (bitpos + 7) r"
    using readbyte [OF Suc(2) c] by (subst varint32_loop.simps) (simp add: Let_def)
  also have "\<dots> = varint32_loop (adv k (adv 1 s)) (bitpos + 7 + 7 * word_of_nat k) r"
    using adv_one_content [OF Suc(2) c] by (intro Suc(1)) simp_all
  finally show ?case using adv_Suc [OF Suc(2) le] by (simp add: algebra_simps)
qed

lemma varint64_loop_zeros:
  assumes "inv s" and "content s = replicate k 0x80 @ bs" and "unat bitpos + 7 * k < 71"
  shows "varint64_loop s bitpos r = varint64_loop (adv k s) (bitpos + 7 * word_of_nat k) r"
  using assms
proof (induction k arbitrary: s bitpos)
  case 0
  then show ?case by (simp add: adv_zero)
next
  case (Suc k)
  then have c: "content s = 0x80 # (replicate k 0x80 @ bs)" by simp
  then have le: "Suc k \<le> length (content s)" by simp
  have bp: "unat (bitpos + 7) = unat bitpos + 7" using Suc(4) by (simp add: unat_word_ariths)
  have "varint64_loop s bitpos r = varint64_loop (adv 1 s) (bitpos + 7) r"
    using readbyte [OF Suc(2) c] Suc(4)
    by (subst varint64_loop.simps) (simp add: Let_def word_le_nat_alt)
  also have "\<dots> = varint64_loop (adv k (adv 1 s)) (bitpos + 7 + 7 * word_of_nat k) r"
    using adv_one_content [OF Suc(2) c] bp Suc(4) by (intro Suc(1)) simp_all
  finally show ?case using adv_Suc [OF Suc(2) le] by (simp add: algebra_simps)
qed

end

text \<open>The bytes that follow a tag, by wire type.\<close>

inductive wire_payload :: "pb_wire_type_t \<Rightarrow> u8 list \<Rightarrow> bool" where
  payload_varint: "wire_payload PB_WT_VARINT (base128 n)"
| payload_64bit: "length bs = 8 \<Longrightarrow> wire_payload PB_WT_64BIT bs"
| payload_string: "length bs < 2 ^ 32 \<Longrightarrow> wire_payload PB_WT_STRING (base128 (length bs) @ bs)"
| payload_32bit: "length bs = 4 \<Longrightarrow> wire_payload PB_WT_32BIT bs"

inductive_cases payload_stringE: "wire_payload PB_WT_STRING bs"

context pb_source
begin

lemma skip_field_payload:
  assumes "wire_payload wt bs" and "inv s" and "content s = bs @ rest"
  shows "pb_skip_field s wt = (Some (), adv (length bs) s)"
  using assms
proof (induction rule: wire_payload.induct)
  case (payload_varint n)
  then show ?case by (simp add: pb_skip_field_def skip_varint_base128)
next
  case (payload_64bit bs)
  then show ?case using skip_bytes [of s 8] by (simp add: pb_skip_field_def)
next
  case (payload_string bs)
  let ?k = "length (base128 (length bs))"
  have n: "unat (to_u64 (word_of_nat (length bs) :: u32)) = length bs"
    using payload_string(1) by (simp add: unat_of_nat)
  have "inv (adv ?k s)" and "content (adv ?k s) = bs @ rest"
    using payload_string by (simp_all add: adv_inv adv_content)
  then have "pb_skip_bytes (adv ?k s) (to_u64 (word_of_nat (length bs) :: u32)) = (Some (), adv (length bs) (adv ?k s))"
    using skip_bytes [of "adv ?k s" "to_u64 (word_of_nat (length bs) :: u32)"] n by simp
  moreover have "pb_decode_varint32 s = (Some (word_of_nat (length bs)), adv ?k s)"
    by (rule varint32_small) (use payload_string in auto)
  ultimately show ?case
    using payload_string by (simp add: pb_skip_field_def pb_skip_string_def adv_adv)
next
  case (payload_32bit bs)
  then show ?case using skip_bytes [of s 4] by (simp add: pb_skip_field_def)
qed

end

context pb_source
begin

lemma decode_svarint_zigzag:
  assumes "inv s" and "content s = base128 (unat (zigzag v)) @ rest"
  shows "pb_decode_svarint s = (Some v, adv (length (base128 (unat (zigzag v)))) s)"
  using pb_decode_varint_base128 [OF assms] zigzag_inverse [of v]
  by (simp add: pb_decode_svarint_def zigzag_def)

lemma decode_fixed32_le32:
  assumes "inv s" and "content s = le32 v @ rest"
  shows "pb_decode_fixed32 s = (Some v, adv 4 s)"
proof -
  have "pb_read s True 4 = (Some (le32 v), adv 4 s)"
    using read [of s 4] assms by (simp add: le32_def)
  then show ?thesis
    using le32_bytes [of v] by (simp add: pb_decode_fixed32_def le32_def)
qed

lemma decode_fixed64_le64:
  assumes "inv s" and "content s = le64 v @ rest"
  shows "pb_decode_fixed64 s = (Some v, adv 8 s)"
proof -
  have "pb_read s True 8 = (Some (le64 v), adv 8 s)"
    using read [of s 8] assms by (simp add: le64_def)
  then show ?thesis
    using le64_bytes [of v] by (simp add: pb_decode_fixed64_def le64_def)
qed

end

subsection \<open>Memory safety of the decoders\<close>

text \<open>
  \<open>reads s s'\<close>: between the memory streams \<open>s\<close> and \<open>s'\<close> some bytes within
  \<open>bytes_left\<close> were consumed, and nothing else moved.
\<close>

definition reads :: "'s pb_istream \<Rightarrow> 's pb_istream \<Rightarrow> bool" where
  "reads s s' \<longleftrightarrow> (\<exists>n \<le> unat (bytes_left s). \<exists>e. s' = (buf_adv n s)\<lparr>i_errmsg := e\<rparr>)"

lemma reads_refl [simp]: "reads s s"
  unfolding reads_def
  by (rule exI [of _ 0], rule conjI, simp, rule exI [of _ "i_errmsg s"]) (simp add: buf_adv_def)

lemma reads_err [simp]: "reads s (s\<lparr>i_errmsg := e\<rparr>)"
  unfolding reads_def by (rule exI [of _ 0]) (auto simp: buf_adv_def)

lemma reads_i_fail: "reads s s' \<Longrightarrow> reads s (snd (i_fail m s'))"
  by (auto simp: reads_def i_fail_def i_set_error_def) blast

lemma reads_trans [trans]:
  assumes "reads s s'" and "reads s' s''"
  shows "reads s s''"
proof -
  from assms(1) obtain n e where n: "n \<le> unat (bytes_left s)" "s' = (buf_adv n s)\<lparr>i_errmsg := e\<rparr>"
    by (auto simp: reads_def)
  from assms(2) obtain m e' where m: "m \<le> unat (bytes_left s')" "s'' = (buf_adv m s')\<lparr>i_errmsg := e'\<rparr>"
    by (auto simp: reads_def)
  have "n + m \<le> unat (bytes_left s)"
    using n m(1) by (simp add: buf_adv_def unat_minus_word_of_nat)
  moreover have "s'' = (buf_adv (n + m) s)\<lparr>i_errmsg := e'\<rparr>"
    using n m by (simp add: buf_adv_def add.commute algebra_simps)
  ultimately show ?thesis by (auto simp: reads_def)
qed

lemma reads_ok: "buf_ok s \<Longrightarrow> reads s s' \<Longrightarrow> buf_ok s'"
  using buf_adv_ok [of s] by (auto simp: reads_def buf_ok_def)

lemma reads_left: "reads s s' \<Longrightarrow> unat (bytes_left s') \<le> unat (bytes_left s)"
  by (auto simp: reads_def buf_adv_def unat_minus_word_of_nat)

lemma reads_adv: "n \<le> unat (bytes_left s) \<Longrightarrow> reads s (buf_adv n s)"
  unfolding reads_def
  by (rule exI [of _ n], rule conjI, simp, rule exI [of _ "i_errmsg s"]) (simp add: buf_adv_def)

text \<open>A decoder is safe when from a good memory stream it only consumes bytes of the stream.\<close>

definition safe_dec :: "('s pb_istream \<Rightarrow> 'a \<times> 's pb_istream) \<Rightarrow> bool" where
  "safe_dec f \<longleftrightarrow> (\<forall>s. buf_ok s \<longrightarrow> reads s (snd (f s)))"

lemma safe_decD: "safe_dec f \<Longrightarrow> buf_ok s \<Longrightarrow> f s = (r, s') \<Longrightarrow> reads s s' \<and> buf_ok s'"
  by (metis reads_ok safe_dec_def snd_conv)

lemma safe_dec_snd: "safe_dec f \<Longrightarrow> buf_ok s \<Longrightarrow> reads s (snd (f s))"
  by (simp add: safe_dec_def)

lemma safe_readbyte: "safe_dec pb_readbyte"
proof (unfold safe_dec_def, intro allI impI)
  fix s :: "'a pb_istream" assume ok: "buf_ok s"
  show "reads s (snd (pb_readbyte s))"
  proof (cases "buf_content s")
    case Nil
    then show ?thesis using buf.readbyte_end [OF ok] by (simp add: reads_i_fail)
  next
    case (Cons b bs)
    then have "1 \<le> unat (bytes_left s)" using buf_length_content [OF ok] by simp
    then show ?thesis using buf.readbyte [OF ok Cons] by (simp add: reads_adv)
  qed
qed

lemma safe_pb_read: "safe_dec (\<lambda>s. pb_read s want n)"
proof (unfold safe_dec_def, intro allI impI)
  fix s :: "'a pb_istream" assume ok: "buf_ok s"
  show "reads s (snd (pb_read s want n))"
  proof (cases "unat n \<le> unat (bytes_left s)")
    case True
    then show ?thesis using buf_pb_read [OF ok] by (simp add: reads_adv)
  next
    case False
    then have "pb_read s want n = i_fail ''end-of-stream'' s"
      using ok by (auto simp: pb_read_def pb_read_direct_def word_less_nat_alt is_buf_read_def buf_ok_def)
    then show ?thesis by (simp add: reads_i_fail)
  qed
qed

lemma safe_varint64_loop: "buf_ok s \<Longrightarrow> reads s (snd (varint64_loop s bitpos r))"
proof (induction s bitpos r rule: varint64_loop.induct)
  case (1 s bitpos r)
  show ?case
  proof (cases "64 \<le> bitpos")
    case True
    then show ?thesis by (subst varint64_loop.simps) (simp add: reads_i_fail)
  next
    case False
    obtain x s' where x: "pb_readbyte s = (x, s')" by (cases "pb_readbyte s")
    note step = safe_decD [OF safe_readbyte 1(2) x]
    show ?thesis
      using False x step 1(1) [OF False x [symmetric]]
      by (subst varint64_loop.simps) (auto simp: Let_def split: option.splits intro: reads_trans)
  qed
qed

lemma safe_varint32_loop: "buf_ok s \<Longrightarrow> reads s (snd (varint32_loop s bitpos r))"
proof (induction s bitpos r rule: varint32_loop.induct)
  case (1 s bitpos r)
  obtain x s' where x: "pb_readbyte s = (x, s')" by (cases "pb_readbyte s")
  note step = safe_decD [OF safe_readbyte 1(2) x]
  show ?case
    using x step 1(1) [OF x [symmetric]]
    by (subst varint32_loop.simps)
       (auto simp: Let_def reads_i_fail split: option.splits intro: reads_trans)
qed

lemma safe_skip_varint: "safe_dec pb_skip_varint"
proof -
  have "buf_ok s \<Longrightarrow> reads s (snd (pb_skip_varint s))" for s :: "'a pb_istream"
  proof (induction s rule: pb_skip_varint.induct)
    case (1 s)
    obtain x s' where x: "pb_read s True 1 = (x, s')" by (cases "pb_read s True 1")
    note step = safe_decD [OF safe_pb_read 1(2) x]
    show ?case
      using x step 1(1) [OF x [symmetric]]
      by (subst pb_skip_varint.simps) (auto split: option.splits intro: reads_trans)
  qed
  then show ?thesis by (simp add: safe_dec_def)
qed

lemma safe_decI: "(\<And>s r s'. buf_ok s \<Longrightarrow> f s = (r, s') \<Longrightarrow> reads s s') \<Longrightarrow> safe_dec f"
  unfolding safe_dec_def by (metis prod.collapse)

text \<open>Sequencing: a call and what is done with its result.\<close>

lemma safe_dec_then:
  assumes f: "safe_dec f" and h: "\<And>s. h s = (case f s of (r, s') \<Rightarrow> g r s')"
    and g: "\<And>r. safe_dec (g r)"
  shows "safe_dec h"
proof (rule safe_decI)
  fix s r s' assume ok: "buf_ok s" and hs: "h s = (r, s')"
  obtain x t where x: "f s = (x, t)" by (cases "f s")
  then have "g x t = (r, s')" using hs h by simp
  then show "reads s s'"
    using safe_decD [OF f ok x] safe_decD [OF g [of x]] by (blast intro: reads_trans)
qed

lemma safe_dec_return: "safe_dec (\<lambda>s. (r, s))"
  by (simp add: safe_dec_def)

lemma safe_dec_option:
  "(\<And>v. safe_dec (g v)) \<Longrightarrow> safe_dec (\<lambda>s. case r of None \<Rightarrow> (None, s) | Some v \<Rightarrow> g v s)"
  by (cases r) (simp_all add: safe_dec_return)

lemma safe_decode_varint: "safe_dec pb_decode_varint"
  by (simp add: safe_dec_def pb_decode_varint_def safe_varint64_loop)

lemma safe_varint32_eof:
  assumes "buf_ok s" and "pb_decode_varint32_eof s eof = (r, e, s')"
  shows "reads s s' \<and> buf_ok s'"
proof -
  obtain x t where x: "pb_readbyte s = (x, t)" by (cases "pb_readbyte s")
  note step = safe_decD [OF safe_readbyte assms(1) x]
  have "reads s s'"
  proof (cases x)
    case None
    then show ?thesis using x assms(2) step by (auto simp: pb_decode_varint32_eof_def)
  next
    case (Some b)
    show ?thesis
    proof (cases "b AND 0x80 = 0")
      case True
      then show ?thesis using x Some assms(2) step by (auto simp: pb_decode_varint32_eof_def)
    next
      case False
      then have "s' = snd (varint32_loop t 7 (to_u32 (b AND 0x7F)))"
        using x Some assms(2) by (auto simp: pb_decode_varint32_eof_def split: prod.splits)
      then show ?thesis
        using step safe_varint32_loop by (auto intro: reads_trans)
    qed
  qed
  then show ?thesis using assms(1) reads_ok by blast
qed

lemma safe_varint32: "safe_dec pb_decode_varint32"
proof (rule safe_decI)
  fix s :: "'a pb_istream" and r s'
  assume ok: "buf_ok s" and d: "pb_decode_varint32 s = (r, s')"
  obtain x e t where x: "pb_decode_varint32_eof s None = (x, e, t)" by (metis prod_cases3)
  then have "s' = t" using d by (simp add: pb_decode_varint32_def)
  then show "reads s s'" using safe_varint32_eof [OF ok x] by simp
qed

lemma safe_decode_tag:
  assumes "buf_ok s" and "pb_decode_tag s = (r, e, s')"
  shows "reads s s' \<and> buf_ok s'"
proof -
  obtain x f t where x: "pb_decode_varint32_eof s (Some False) = (x, f, t)"
    by (metis prod_cases3)
  then have "s' = t"
    using assms(2) by (auto simp: pb_decode_tag_def split: option.splits if_splits)
  then show ?thesis using safe_varint32_eof [OF assms(1) x] by simp
qed

lemma safe_skip_bytes: "safe_dec (\<lambda>s. pb_skip_bytes s n)"
  by (rule safe_dec_then [OF safe_pb_read, where g = "\<lambda>r s. (map_option (\<lambda>_. ()) r, s)"])
     (simp_all add: pb_skip_bytes_def safe_dec_return)

lemma safe_skip_string: "safe_dec pb_skip_string"
  by (rule safe_dec_then [OF safe_varint32, where g = "\<lambda>r s. case r of None \<Rightarrow> (None, s)
        | Some len \<Rightarrow> pb_skip_bytes s (to_u64 len)"])
     (simp add: pb_skip_string_def, rule safe_dec_option, rule safe_skip_bytes)

lemma safe_svarint: "safe_dec pb_decode_svarint"
  by (rule safe_dec_then [OF safe_decode_varint, where g = "\<lambda>r s.
        (map_option (\<lambda>v. if v AND 1 \<noteq> 0 then NOT (drop_bit 1 v) else drop_bit 1 v) r, s)"])
     (auto simp: pb_decode_svarint_def safe_dec_return split: option.split prod.split)

lemma safe_fixed32: "safe_dec pb_decode_fixed32"
  by (rule safe_decI)
     (auto simp: pb_decode_fixed32_def dest: safe_decD [OF safe_pb_read] split: prod.splits option.splits)

lemma safe_fixed64: "safe_dec pb_decode_fixed64"
  by (rule safe_decI)
     (auto simp: pb_decode_fixed64_def dest: safe_decD [OF safe_pb_read] split: prod.splits option.splits)

lemma safe_skip_field: "safe_dec (\<lambda>s. pb_skip_field s wt)"
  using safe_skip_varint safe_skip_string safe_skip_bytes
  by (auto simp: safe_dec_def pb_skip_field_def reads_i_fail)

lemma safe_read_raw_varint: "buf_ok s \<Longrightarrow> reads s (snd (read_raw_varint s got m))"
proof (induction s got m rule: read_raw_varint.induct)
  case (1 s got m)
  show ?case
  proof (cases "m < Suc (length got)")
    case True
    then show ?thesis by (subst read_raw_varint.simps) simp
  next
    case False
    obtain x s' where x: "pb_read s True 1 = (x, s')" by (cases "pb_read s True 1")
    note step = safe_decD [OF safe_pb_read 1(2) x]
    show ?thesis
      using False x step 1(1) [OF False x [symmetric]]
      by (subst read_raw_varint.simps) (auto split: option.splits intro: reads_trans)
  qed
qed

lemma safe_read_raw_value: "safe_dec (\<lambda>s. read_raw_value s wt m)"
  by (auto simp: safe_dec_def read_raw_value_def reads_i_fail safe_read_raw_varint
      safe_pb_read [unfolded safe_dec_def, rule_format])

subsection \<open>Substreams\<close>

lemma make_substream:
  assumes ok: "buf_ok s" and mk: "pb_make_string_substream s = (Some sub, s')"
  shows "buf_ok sub" "buf_ok s'" "i_ptr sub = i_ptr s'"
    "unat (bytes_left sub) + unat (bytes_left s') \<le> length (i_ptr s')"
    "unat (bytes_left sub) + unat (bytes_left s') \<le> unat (bytes_left s)"
proof -
  obtain sz t where t: "pb_decode_varint32 s = (Some sz, t)"
    using mk by (auto simp: pb_make_string_substream_def split: prod.splits option.splits)
  have okt: "buf_ok t" and st: "reads s t" using safe_decD [OF safe_varint32 ok t] by auto
  have le: "\<not> bytes_left t < to_u64 sz" and sub: "sub = t\<lparr>bytes_left := to_u64 sz\<rparr>"
    and s': "s' = t\<lparr>bytes_left := bytes_left t - to_u64 sz\<rparr>"
    using mk t by (auto simp: pb_make_string_substream_def i_fail_def split: if_splits)
  have d: "unat (bytes_left t - to_u64 sz) = unat (bytes_left t) - unat sz"
    using le by (simp add: unat_sub linorder_not_less)
  have le': "unat sz \<le> unat (bytes_left t)" using le by (simp add: word_less_nat_alt)
  show "buf_ok sub" "buf_ok s'" "i_ptr sub = i_ptr s'"
    "unat (bytes_left sub) + unat (bytes_left s') \<le> length (i_ptr s')"
    using okt le' by (auto simp: sub s' buf_ok_def d)
  show "unat (bytes_left sub) + unat (bytes_left s') \<le> unat (bytes_left s)"
    using le' reads_left [OF st] by (simp add: sub s' d)
qed

lemma close_substream:
  assumes mk: "buf_ok s" "pb_make_string_substream s = (Some sub, s')" and rd: "reads sub sub'"
  shows "\<exists>e. pb_close_string_substream s' sub' = (Some (), s'\<lparr>i_ptr := drop (unat (bytes_left sub)) (i_ptr s'), i_errmsg := e\<rparr>)"
    and "buf_ok (s'\<lparr>i_ptr := drop (unat (bytes_left sub)) (i_ptr s')\<rparr>)"
proof -
  note m = make_substream [OF mk]
  show "buf_ok (s'\<lparr>i_ptr := drop (unat (bytes_left sub)) (i_ptr s')\<rparr>)"
    using m(2,4) by (auto simp: buf_ok_def)
  obtain n e where n: "n \<le> unat (bytes_left sub)" and sub': "sub' = (buf_adv n sub)\<lparr>i_errmsg := e\<rparr>"
    using rd by (auto simp: reads_def)
  have ok': "buf_ok sub'" using reads_ok [OF m(1) rd] .
  have left: "unat (bytes_left sub') = unat (bytes_left sub) - n"
    using n by (simp add: sub' buf_adv_def unat_minus_word_of_nat)
  have st: "i_state sub = i_state s'"
    using mk(2) by (auto simp: pb_make_string_substream_def i_fail_def split: prod.splits option.splits if_splits)
  have nf: "\<not> i_fault s'" "\<not> i_fault sub" using m(1,2) by (simp_all add: buf_ok_def)
  have skip: "pb_skip_bytes sub' (bytes_left sub') = (Some (), buf_adv (unat (bytes_left sub')) sub')"
    using buf_pb_read [OF ok', of "bytes_left sub'" False] by (simp add: pb_skip_bytes_def)
  have len: "unat (bytes_left sub) - n + n = unat (bytes_left sub)" using n by simp
  show "\<exists>e. pb_close_string_substream s' sub' = (Some (), s'\<lparr>i_ptr := drop (unat (bytes_left sub)) (i_ptr s'), i_errmsg := e\<rparr>)"
  proof (cases "bytes_left sub' = 0")
    case True
    then have "n = unat (bytes_left sub)" using left n by simp
    then show ?thesis
      using True st nf m(3) by (cases s') (auto simp: pb_close_string_substream_def sub' buf_adv_def)
  next
    case False
    then show ?thesis
      using skip st nf m(3) left len
      by (cases s') (auto simp: pb_close_string_substream_def sub' buf_adv_def)
  qed
qed

text \<open>A length, a payload and a rest: the substream has the payload, and closing it leads to the rest.\<close>

lemma delimited_substream:
  assumes "buf_ok s" and "buf_content s = base128 (length payload) @ payload @ rest"
    and "length payload < 2 ^ 32"
  shows "\<exists>sub parent. pb_make_string_substream s = (Some sub, parent) \<and> buf_ok sub \<and>
    buf_content sub = payload \<and>
    (\<forall>sub'. reads sub sub' \<longrightarrow>
      (\<exists>s'. pb_close_string_substream parent sub' = (Some (), s') \<and> buf_ok s' \<and> buf_content s' = rest \<and> reads s s'))"
proof -
  let ?k = "length (base128 (length payload))"
  let ?t = "buf_adv ?k s"
  let ?n = "to_u64 (word_of_nat (length payload) :: u32)"
  have n: "unat ?n = length payload" using assms(3) by (simp add: unat_of_nat)
  have okt: "buf_ok ?t" and ct: "buf_content ?t = payload @ rest"
    using buf.adv_inv [OF assms(1), of ?k] buf.adv_content [OF assms(1), of ?k] assms(2) by simp_all
  have lt: "unat (bytes_left ?t) = length payload + length rest"
    using buf_length_content [OF okt] ct by simp
  have d: "pb_decode_varint32 s = (Some (word_of_nat (length payload)), ?t)"
    using buf.varint32_small [OF assms(1,2,3)] .
  define sub where "sub = ?t\<lparr>bytes_left := ?n\<rparr>"
  define parent where "parent = ?t\<lparr>bytes_left := bytes_left ?t - ?n\<rparr>"
  have mk: "pb_make_string_substream s = (Some sub, parent)"
    using d lt n by (simp add: pb_make_string_substream_def sub_def parent_def word_less_nat_alt)
  have cp: "unat (bytes_left parent) = length rest"
    using lt n by (simp add: parent_def unat_sub word_le_nat_alt)
  have take_t: "take (length payload + length rest) (i_ptr ?t) = payload @ rest"
    using ct lt by (simp add: buf_content_def)
  have sub_c: "buf_content sub = payload"
    using arg_cong [OF take_t, of "take (length payload)"] n
    by (simp add: sub_def buf_content_def min_absorb1)
  have rest_c: "take (length rest) (drop (length payload) (i_ptr parent)) = rest"
    using arg_cong [OF take_t, of "drop (length payload)"]
    by (simp add: parent_def drop_take)
  have "\<exists>s'. pb_close_string_substream parent sub' = (Some (), s') \<and> buf_ok s' \<and> buf_content s' = rest \<and> reads s s'"
    if rd: "reads sub sub'" for sub'
  proof -
    obtain e where e: "pb_close_string_substream parent sub' =
        (Some (), parent\<lparr>i_ptr := drop (unat (bytes_left sub)) (i_ptr parent), i_errmsg := e\<rparr>)"
      using close_substream(1) [OF assms(1) mk rd] by blast
    have "parent\<lparr>i_ptr := drop (unat (bytes_left sub)) (i_ptr parent), i_errmsg := e\<rparr> = (buf_adv (length payload) ?t)\<lparr>i_errmsg := e\<rparr>"
      using n word_of_unatI [OF n] by (simp add: parent_def sub_def buf_adv_def)
    then have "reads ?t (parent\<lparr>i_ptr := drop (unat (bytes_left sub)) (i_ptr parent), i_errmsg := e\<rparr>)"
      unfolding reads_def using lt by (intro exI [of _ "length payload"] conjI exI [of _ e]) simp_all
    then have "reads s (parent\<lparr>i_ptr := drop (unat (bytes_left sub)) (i_ptr parent), i_errmsg := e\<rparr>)"
      using reads_trans [OF reads_adv, of ?k s] buf_length_content [OF assms(1)] assms(2) by simp
    then show ?thesis
      using close_substream(2) [OF assms(1) mk rd] e n rest_c cp
      by (auto simp: buf_content_def buf_ok_def sub_def)
  qed
  then show ?thesis
    using mk sub_c make_substream(1) [OF assms(1) mk] by blast
qed

end
