(* ===== verification/NanopbWireProps.thy ===== *)
theory NanopbWireProps
  imports NanopbWireFacts
begin

text \<open>
  The properties of nanopb's streams and wire primitives, over memory streams: what an encoder
  wrote into an array is what the decoder of the same kind reads from it, the limits of both
  kinds of stream hold, and substreams and skipping keep the position.
\<close>

text \<open>The bytes written into the array between the states \<open>s\<close> and \<open>s'\<close> of a stream.\<close>

definition new_bytes :: "obuf pb_ostream \<Rightarrow> obuf pb_ostream \<Rightarrow> u8 list" where
  "new_bytes s s' = drop (ob_dest (o_state s)) (take (ob_dest (o_state s')) (ob_mem (o_state s')))"

lemma new_bytes_emit:
  "mem_sink s \<Longrightarrow> length bs \<le> mem_room s \<Longrightarrow> new_bytes s (mem_emit bs s) = bs"
  by (simp add: new_bytes_def mem_emit_def Let_def mem_sink_def mem_room_def)

lemma from_buffer_ok:
  "length xs < 2 ^ 64 \<Longrightarrow> buf_ok (pb_istream_from_buffer xs (word_of_nat (length xs)))"
  by (simp add: buf_ok_def pb_istream_from_buffer_def)

lemma from_buffer_content:
  "length xs < 2 ^ 64 \<Longrightarrow> buf_content (pb_istream_from_buffer xs (word_of_nat (length xs))) = xs"
  by (simp add: buf_content_def pb_istream_from_buffer_def)

lemma from_buffer_adv:
  "buf_adv (length xs) (pb_istream_from_buffer (xs @ ys) (word_of_nat (length (xs @ ys)))) =
   pb_istream_from_buffer ys (word_of_nat (length ys))"
  by (simp add: buf_adv_def pb_istream_from_buffer_def)

text \<open>The shape of the round trips: an exact encoder against a decoder of its bytes.\<close>

lemma wire_roundtrip:
  assumes enc: "msink.exact enc bs" and out: "mem_sink out" "enc out = (True, out')"
    and dec: "\<And>s. buf_ok s \<Longrightarrow> buf_content s = bs @ rest \<Longrightarrow> dec s = (Some v, buf_adv (length bs) s)"
    and len: "length (new_bytes out out' @ rest) < 2 ^ 64"
  shows "dec (pb_istream_from_buffer (new_bytes out out' @ rest) (word_of_nat (length (new_bytes out out' @ rest)))) =
     (Some v, pb_istream_from_buffer rest (word_of_nat (length rest)))"
proof -
  have "new_bytes out out' = bs"
    using msink.exact_success [OF enc out] out(1) by (simp add: new_bytes_emit)
  then show ?thesis
    using dec [OF from_buffer_ok from_buffer_content] len from_buffer_adv [of bs rest] by simp
qed

lemma sink_from_buffer: "unat n \<le> length buf \<Longrightarrow> mem_sink (pb_ostream_from_buffer buf n)"
  by (simp add: mem_sink_def pb_ostream_from_buffer_def)

lemma room_from_buffer: "mem_room (pb_ostream_from_buffer buf n) = unat n"
  by (simp add: mem_room_def pb_ostream_from_buffer_def)

text \<open>
  C20. Variable-length integers round trip: when \<open>pb_encode_varint\<close> succeeds on a memory
  stream, \<open>pb_decode_varint\<close> on the bytes it wrote, followed by anything, returns the value
  and leaves exactly what followed.
\<close>
theorem varint_roundtrip:
  assumes "mem_sink out" and "pb_encode_varint out v = (True, out')"
    and "length (new_bytes out out' @ rest) < 2 ^ 64"
  shows "pb_decode_varint (pb_istream_from_buffer (new_bytes out out' @ rest)
       (word_of_nat (length (new_bytes out out' @ rest)))) =
     (Some v, pb_istream_from_buffer rest (word_of_nat (length rest)))"
  by (rule wire_roundtrip [OF msink.exact_varint]) (use assms buf.pb_decode_varint_base128 in auto)

text \<open>The stream used by the witnesses: a buffer of 16 zero bytes.\<close>

definition sample_out :: "obuf pb_ostream" where
  "sample_out = pb_ostream_from_buffer (replicate 16 0) 16"

lemma sample_out_sink: "mem_sink sample_out" and sample_out_room: "mem_room sample_out = 16"
  by (simp_all add: sample_out_def sink_from_buffer room_from_buffer)

lemma sample_encoded:
  assumes "msink.exact enc bs" and "length bs \<le> 16"
  obtains out' where "enc sample_out = (True, out')" and "new_bytes sample_out out' = bs"
  using assms sample_out_sink sample_out_room
  by (metis msink.exact_def msink.writes_def new_bytes_emit)

theorem varint_roundtrip_witness:
  "\<exists>out'. pb_encode_varint sample_out 300 = (True, out') \<and>
     pb_decode_varint (pb_istream_from_buffer (new_bytes sample_out out' @ [7])
       (word_of_nat (length (new_bytes sample_out out' @ [7])))) = (Some 300, pb_istream_from_buffer [7] 1)"
proof -
  obtain out' where e: "pb_encode_varint sample_out 300 = (True, out')"
    and b: "new_bytes sample_out out' = base128 (unat (300 :: u64))"
    by (rule sample_encoded [OF msink.exact_varint, of 300]) (simp add: base128_large)
  then have "length (new_bytes sample_out out' @ [7]) < 2 ^ 64" by (simp add: base128_large)
  then show ?thesis using varint_roundtrip [OF sample_out_sink e] e by fastforce
qed

text \<open>
  Signed integers round trip through the zig-zag form: \<open>pb_decode_svarint\<close> undoes
  \<open>pb_encode_svarint\<close> for every 64-bit value, negative ones included.
\<close>
theorem svarint_roundtrip:
  assumes "mem_sink out" and "pb_encode_svarint out v = (True, out')"
    and "length (new_bytes out out' @ rest) < 2 ^ 64"
  shows "pb_decode_svarint (pb_istream_from_buffer (new_bytes out out' @ rest)
       (word_of_nat (length (new_bytes out out' @ rest)))) =
     (Some v, pb_istream_from_buffer rest (word_of_nat (length rest)))"
  by (rule wire_roundtrip [OF msink.exact_svarint]) (use assms buf.decode_svarint_zigzag in auto)

theorem svarint_roundtrip_witness:
  "\<exists>out'. pb_encode_svarint sample_out (- 1) = (True, out') \<and>
     pb_decode_svarint (pb_istream_from_buffer (new_bytes sample_out out' @ [])
       (word_of_nat (length (new_bytes sample_out out' @ [])))) = (Some (- 1), pb_istream_from_buffer [] 0)"
proof -
  obtain out' where e: "pb_encode_svarint sample_out (- 1) = (True, out')"
    and b: "new_bytes sample_out out' = base128 (unat (zigzag (- 1)))"
    by (rule sample_encoded [OF msink.exact_svarint, of "- 1"])
       (use base128_u64_length [of "zigzag (- 1)"] in simp)
  then have "length (new_bytes sample_out out' @ []) < 2 ^ 64"
    using base128_u64_length [of "zigzag (- 1)"] by simp
  then show ?thesis using svarint_roundtrip [OF sample_out_sink e] e by fastforce
qed

text \<open>
  Fixed-width integers round trip: \<open>pb_decode_fixed32\<close> and
  \<open>pb_decode_fixed64\<close> read back what \<open>pb_encode_fixed32\<close> and
  \<open>pb_encode_fixed64\<close> wrote, whatever precedes and follows it in the array.
\<close>
theorem fixed_roundtrip:
  assumes "mem_sink out" and "mem_sink out2"
    and "pb_encode_fixed32 out v = (True, out')" and "length (new_bytes out out' @ rest) < 2 ^ 64"
    and "pb_encode_fixed64 out2 w = (True, out2')" and "length (new_bytes out2 out2' @ rest) < 2 ^ 64"
  shows "pb_decode_fixed32 (pb_istream_from_buffer (new_bytes out out' @ rest)
           (word_of_nat (length (new_bytes out out' @ rest)))) =
         (Some v, pb_istream_from_buffer rest (word_of_nat (length rest))) \<and>
         pb_decode_fixed64 (pb_istream_from_buffer (new_bytes out2 out2' @ rest)
           (word_of_nat (length (new_bytes out2 out2' @ rest)))) =
         (Some w, pb_istream_from_buffer rest (word_of_nat (length rest)))"
proof
  show "pb_decode_fixed32 (pb_istream_from_buffer (new_bytes out out' @ rest)
           (word_of_nat (length (new_bytes out out' @ rest)))) =
         (Some v, pb_istream_from_buffer rest (word_of_nat (length rest)))"
    by (rule wire_roundtrip [OF msink.exact_fixed32])
       (use assms buf.decode_fixed32_le32 in auto)
  show "pb_decode_fixed64 (pb_istream_from_buffer (new_bytes out2 out2' @ rest)
           (word_of_nat (length (new_bytes out2 out2' @ rest)))) =
         (Some w, pb_istream_from_buffer rest (word_of_nat (length rest)))"
    by (rule wire_roundtrip [OF msink.exact_fixed64])
       (use assms buf.decode_fixed64_le64 in auto)
qed

theorem fixed_roundtrip_witness:
  "\<exists>a b. pb_encode_fixed32 sample_out 0x12345678 = (True, a) \<and> pb_encode_fixed64 sample_out 5 = (True, b) \<and>
     pb_decode_fixed32 (pb_istream_from_buffer (new_bytes sample_out a @ [9])
       (word_of_nat (length (new_bytes sample_out a @ [9])))) = (Some 0x12345678, pb_istream_from_buffer [9] 1)"
proof -
  obtain a where a: "pb_encode_fixed32 sample_out 0x12345678 = (True, a)"
    and ba: "new_bytes sample_out a = le32 0x12345678"
    by (rule sample_encoded [OF msink.exact_fixed32, of "0x12345678"]) (simp add: le32_def)
  obtain b where b: "pb_encode_fixed64 sample_out 5 = (True, b)"
    and bb: "new_bytes sample_out b = le64 5"
    by (rule sample_encoded [OF msink.exact_fixed64, of 5]) (simp add: le64_def)
  have "length (new_bytes sample_out a @ [9]) < 2 ^ 64" and "length (new_bytes sample_out b @ [9]) < 2 ^ 64"
    by (simp_all add: ba bb le32_def le64_def)
  then show ?thesis
    using fixed_roundtrip [OF sample_out_sink sample_out_sink a _ b, of "[9]"] a b by auto
qed

text \<open>
  C29. Field tags round trip: the tag that \<open>pb_encode_tag\<close> writes for a wire type and a field
  number is the one \<open>pb_decode_tag\<close> returns, with \<open>eof\<close> false, for every field number
  of the Protocol Buffers range (below 2 to the 29) other than the reserved pair 0, 0, which the
  decoder takes as the end of the message.
\<close>
theorem tag_roundtrip:
  assumes "mem_sink out" and "pb_encode_tag out wt field = (True, out')"
    and "unat wt < 8" and "unat field < 2 ^ 29" and "wt \<noteq> 0 \<or> field \<noteq> 0"
    and "length (new_bytes out out' @ rest) < 2 ^ 64"
  shows "pb_decode_tag (pb_istream_from_buffer (new_bytes out out' @ rest)
       (word_of_nat (length (new_bytes out out' @ rest)))) =
     (Some (wt, field), False, pb_istream_from_buffer rest (word_of_nat (length rest)))"
proof -
  let ?bs = "base128 (tag_value wt field)"
  have b: "new_bytes out out' = ?bs"
    using msink.exact_success [OF msink.exact_tag [OF assms(3)] assms(1,2)] assms(1)
    by (simp add: new_bytes_emit)
  have "tag_value wt field \<noteq> 0"
    using assms(5) by (auto simp: tag_value_def word_unat_eq_iff)
  then show ?thesis
    using buf.decode_tag_value [OF from_buffer_ok from_buffer_content assms(3,4)] assms(6) b
      from_buffer_adv [of ?bs rest]
    by simp
qed

theorem tag_roundtrip_witness:
  "\<exists>out'. pb_encode_tag sample_out PB_WT_STRING 20 = (True, out') \<and>
     pb_decode_tag (pb_istream_from_buffer (new_bytes sample_out out' @ [])
       (word_of_nat (length (new_bytes sample_out out' @ [])))) =
     (Some (PB_WT_STRING, 20), False, pb_istream_from_buffer [] 0)"
proof -
  have two: "unat PB_WT_STRING < 8" by simp
  obtain out' where e: "pb_encode_tag sample_out PB_WT_STRING 20 = (True, out')"
    and b: "new_bytes sample_out out' = base128 (tag_value PB_WT_STRING 20)"
    by (rule sample_encoded [OF msink.exact_tag [OF two, of 20]])
       (simp add: tag_value_def base128_large)
  then have "length (new_bytes sample_out out' @ []) < 2 ^ 64"
    by (simp add: tag_value_def base128_large)
  then show ?thesis using tag_roundtrip [OF sample_out_sink e two] e by fastforce
qed

text \<open>
  C21. The 32-bit decoder agrees with the 64-bit encoder: \<open>pb_decode_varint32\<close> returns every
  value below 2 to the 32 that \<open>pb_encode_varint\<close> wrote, and rejects every larger one below
  2 to the 63, the non-negative 64-bit values that do not fit.
\<close>
theorem varint32_of_varint:
  assumes "mem_sink out" and "pb_encode_varint out v = (True, out')"
    and "length (new_bytes out out' @ rest) < 2 ^ 64" and "unat v < 2 ^ 63"
  shows "let s = pb_istream_from_buffer (new_bytes out out' @ rest)
           (word_of_nat (length (new_bytes out out' @ rest)))
         in if unat v < 2 ^ 32
            then pb_decode_varint32 s = (Some (to_u32 v), pb_istream_from_buffer rest (word_of_nat (length rest)))
            else fst (pb_decode_varint32 s) = None"
proof -
  let ?bs = "base128 (unat v)"
  have b: "new_bytes out out' = ?bs"
    using msink.exact_success [OF msink.exact_varint assms(1,2)] assms(1) by (simp add: new_bytes_emit)
  have w: "word_of_nat (unat v) = to_u32 v" if "unat v < 2 ^ 32"
    using that by (simp add: word_unat_eq_iff unsigned_ucast_eq unat_of_nat take_bit_eq_mod)
  show ?thesis
    using buf.varint32_small [OF from_buffer_ok from_buffer_content]
      buf.varint32_large [OF from_buffer_ok from_buffer_content] w assms(3,4) b
      from_buffer_adv [of ?bs rest]
    by (auto simp: Let_def)
qed

theorem varint32_of_varint_witness:
  "\<exists>out'. pb_encode_varint sample_out 70000 = (True, out') \<and>
     pb_decode_varint32 (pb_istream_from_buffer (new_bytes sample_out out' @ [])
       (word_of_nat (length (new_bytes sample_out out' @ [])))) = (Some 70000, pb_istream_from_buffer [] 0)"
proof -
  obtain out' where e: "pb_encode_varint sample_out 70000 = (True, out')"
    and b: "new_bytes sample_out out' = base128 (unat (70000 :: u64))"
    by (rule sample_encoded [OF msink.exact_varint, of 70000]) (simp add: base128_large)
  then have "length (new_bytes sample_out out' @ []) < 2 ^ 64" by (simp add: base128_large)
  then show ?thesis using varint32_of_varint [OF sample_out_sink e, of "[]"] e by (auto simp: Let_def)
qed

text \<open>
  The local array \<open>buffer[10]\<close> of \<open>pb_encode_varint\<close> never overflows: for every 64-bit
  value its loop stores at least one and at most ten bytes, so that \<open>buffer[i-1]\<close> exists too.
\<close>
theorem varint_buffer_bound:
  "value \<noteq> 0 \<Longrightarrow> 1 \<le> length (varint_loop value) \<and> length (varint_loop value) \<le> 10"
  using arg_cong [OF varint_loop_mask [of "value"], of length] base128_u64_length [of "value"]
  by (cases "base128 (unat value)") auto

theorem varint_buffer_bound_witness:
  "(2 ^ 63 :: u64) \<noteq> 0 \<and> length (varint_loop (2 ^ 63)) \<le> 10"
  using varint_buffer_bound [of "2 ^ 63"] by simp

text \<open>
  C16. No wire decoder reads past the end of a memory stream, on any input, well formed or not:
  each one consumes some of the \<open>bytes_left\<close> bytes and leaves the stream in a good state, with the
  end of the readable bytes where it was.
\<close>
theorem wire_decoders_safe:
  assumes "buf_ok s"
  shows "\<forall>s' \<in> {snd (pb_readbyte s), snd (pb_read s want n), snd (pb_decode_varint s),
                 snd (pb_decode_varint32 s), snd (pb_decode_svarint s), snd (pb_decode_fixed32 s),
                 snd (pb_decode_fixed64 s), snd (snd (pb_decode_tag s)), snd (pb_skip_field s wt),
                 snd (read_raw_value s wt m)}.
           reads s s' \<and> buf_ok s'"
proof -
  note read_by = safe_dec_snd [OF _ assms]
  note tag = safe_decode_tag [OF assms, of "fst (pb_decode_tag s)" "fst (snd (pb_decode_tag s))"
    "snd (snd (pb_decode_tag s))"]
  have "reads s s'" if "s' \<in> {snd (pb_readbyte s), snd (pb_read s want n), snd (pb_decode_varint s),
                 snd (pb_decode_varint32 s), snd (pb_decode_svarint s), snd (pb_decode_fixed32 s),
                 snd (pb_decode_fixed64 s), snd (snd (pb_decode_tag s)), snd (pb_skip_field s wt),
                 snd (read_raw_value s wt m)}" for s'
    using that read_by [OF safe_readbyte] read_by [OF safe_pb_read, of want n]
      read_by [OF safe_decode_varint] read_by [OF safe_varint32] read_by [OF safe_svarint]
      read_by [OF safe_fixed32] read_by [OF safe_fixed64] tag
      read_by [OF safe_skip_field, of wt] read_by [OF safe_read_raw_value, of wt m]
    by auto
  then show ?thesis using reads_ok [OF assms] by blast
qed

theorem wire_decoders_safe_witness:
  "buf_ok (pb_istream_from_buffer [0x96] 1) \<and>
   reads (pb_istream_from_buffer [0x96] 1) (snd (pb_decode_varint (pb_istream_from_buffer [0x96] 1)))"
proof -
  have ok: "buf_ok (pb_istream_from_buffer [0x96] 1)"
    by (simp add: buf_ok_def pb_istream_from_buffer_def)
  show ?thesis using wire_decoders_safe [OF ok, of True 0 0 0] ok by simp
qed

text \<open>
  C25. Skipping an unknown field moves over exactly its payload: on a memory stream that starts
  with the payload of a wire type (a base-128 integer, eight bytes, a length and that many bytes,
  four bytes), \<open>pb_skip_field\<close> succeeds and the rest of the content follows.
\<close>
theorem skip_field_exact:
  assumes "wire_payload wt bs" and "buf_ok s" and "buf_content s = bs @ rest"
  shows "\<exists>s'. pb_skip_field s wt = (Some (), s') \<and> buf_ok s' \<and> buf_content s' = rest"
  using buf.skip_field_payload [OF assms] buf.adv_inv [OF assms(2), of "length bs"]
    buf.adv_content [OF assms(2), of "length bs"] assms(3)
  by simp

theorem skip_field_exact_witness:
  "\<exists>s'. pb_skip_field (pb_istream_from_buffer [2, 65, 66, 8] 4) PB_WT_STRING = (Some (), s') \<and>
     buf_ok s' \<and> buf_content s' = [8]"
proof -
  have "wire_payload PB_WT_STRING (base128 (length [65, 66 :: u8]) @ [65, 66])"
    by (rule payload_string) simp
  moreover have "base128 (length [65, 66 :: u8]) @ [65, 66] = [2, 65, 66]"
    by (simp add: byte_of_def)
  ultimately show ?thesis
    by (intro skip_field_exact [of _ "[2, 65, 66]"])
       (simp_all add: buf_ok_def buf_content_def pb_istream_from_buffer_def)
qed

text \<open>
  A length-limited substream isolates its reader: on a stream whose content is a length,
  that many bytes and a rest, \<open>pb_make_string_substream\<close> gives a substream with exactly those
  bytes, and closing it after its reader consumed any part of them leaves the parent at the rest.
\<close>
theorem substream_isolates:
  assumes "buf_ok s" and "buf_content s = base128 (length payload) @ payload @ rest"
    and "length payload < 2 ^ 32"
  shows "\<exists>sub parent. pb_make_string_substream s = (Some sub, parent) \<and> buf_ok sub \<and>
    buf_content sub = payload \<and>
    (\<forall>sub'. reads sub sub' \<longrightarrow>
      (\<exists>s'. pb_close_string_substream parent sub' = (Some (), s') \<and> buf_ok s' \<and> buf_content s' = rest))"
  using delimited_substream [OF assms] by blast

theorem substream_isolates_witness:
  "\<exists>sub parent. pb_make_string_substream (pb_istream_from_buffer [1, 65, 8] 3) = (Some sub, parent) \<and>
     buf_content sub = [65] \<and>
     (\<exists>s'. pb_close_string_substream parent sub = (Some (), s') \<and> buf_content s' = [8])"
proof -
  have "buf_ok (pb_istream_from_buffer [1, 65, 8] 3)"
    by (simp add: buf_ok_def pb_istream_from_buffer_def)
  moreover have "buf_content (pb_istream_from_buffer [1, 65, 8] 3) = base128 (length [65 :: u8]) @ [65] @ [8]"
    by (simp add: buf_content_def pb_istream_from_buffer_def byte_of_def)
  ultimately show ?thesis using substream_isolates reads_refl by fastforce
qed

text \<open>
  C32. Writing respects the limit and the rest of the array: on a memory stream
  \<open>pb_write\<close> succeeds exactly when the bytes fit below \<open>max_size\<close>; then it stores
  them at the write pointer and changes nothing before or after them, and otherwise it changes
  nothing but the error message. In both cases the stream stays within its array.
\<close>
theorem pb_write_bounded:
  assumes "mem_sink s" and "length buf < 2 ^ 64"
  shows "case pb_write s buf (word_of_nat (length buf)) of (ok, s') \<Rightarrow>
    let m = ob_mem (o_state s); d = ob_dest (o_state s) in
    ok = (unat (bytes_written s) + length buf \<le> unat (max_size s)) \<and>
    ob_mem (o_state s') = (if ok then take d m @ buf @ drop (d + length buf) m else m) \<and>
    unat (bytes_written s') = unat (bytes_written s) + (if ok then length buf else 0) \<and>
    length (ob_mem (o_state s')) = length m \<and> max_size s' = max_size s \<and> mem_sink s'"
proof (cases "length buf \<le> mem_room s")
  case True
  have "ob_dest (o_state s) + length buf \<le> length (ob_mem (o_state s))"
    using assms(1) True by (simp add: mem_sink_def mem_room_def)
  then show ?thesis
    using mem_write_fits [OF assms(1) True] mem_written [OF assms(1) True] mem_emit_inv [OF assms(1) True]
    by (simp add: Let_def mem_emit_def)
next
  case False
  then have "\<not> unat (bytes_written s) + length buf \<le> unat (max_size s)"
    by (simp add: mem_room_def)
  then show ?thesis
    using mem_write_full [OF assms(1)] assms False
    by (simp add: o_fail_def o_set_error_def mem_sink_def)
qed

theorem pb_write_bounded_witness:
  "mem_sink sample_out \<and>
   (case pb_write sample_out [1, 2] (word_of_nat (length [1, 2 :: u8])) of (ok, s') \<Rightarrow>
      ok \<and> unat (bytes_written s') = 2)"
proof -
  have "unat (bytes_written sample_out) + length [1, 2 :: u8] \<le> unat (max_size sample_out)"
    and "bytes_written sample_out = 0"
    by (simp_all add: sample_out_def pb_ostream_from_buffer_def)
  then show ?thesis
    using pb_write_bounded [OF sample_out_sink, of "[1, 2]"] sample_out_sink
    by (simp add: Let_def split: prod.splits)
qed

text \<open>
  C39. An over-long encoding is accepted with a wrong value: \<open>bitpos\<close> is an 8-bit counter in
  the 32-bit decoder, so after 36 continuation bytes with no value bits it wraps to 3 and the next
  byte is added at that position. Thirty-seven bytes 80 and a byte 01, a value of 2 to the
  259 if anything, decode to 8 where the 64-bit decoder reports an overflow.
\<close>
theorem varint32_overlong_wraps:
  "fst (pb_decode_varint32 (pb_istream_from_buffer (replicate 37 0x80 @ [0x01]) 38)) = Some 8 \<and>
   fst (pb_decode_varint (pb_istream_from_buffer (replicate 37 0x80 @ [0x01]) 38)) = None"
proof -
  let ?s = "pb_istream_from_buffer (replicate 37 0x80 @ [0x01]) 38"
  have ok: "buf_ok ?s" and c: "buf_content ?s = replicate 37 0x80 @ [0x01]"
    using from_buffer_ok [of "replicate 37 0x80 @ [0x01]"] from_buffer_content [of "replicate 37 0x80 @ [0x01]"]
    by simp_all
  have c1: "buf_content ?s = 0x80 # (replicate 36 0x80 @ [0x01])"
    unfolding c by (simp only: numeral_eq_Suc pred_numeral_simps replicate_Suc append_Cons)
  have adv1: "buf_ok (buf_adv 1 ?s)" "buf_content (buf_adv 1 ?s) = replicate 36 0x80 @ [0x01]"
    using buf.adv_one_content [OF ok c1] by simp_all
  let ?t = "buf_adv 36 (buf_adv 1 ?s)"
  have "buf_ok ?t" and "buf_content ?t = [0x01]"
    using buf.adv_inv [OF adv1(1), of 36] buf.adv_content [OF adv1(1), of 36] adv1(2) by simp_all
  then have last: "pb_readbyte ?t = (Some 1, buf_adv 1 ?t)" by (rule buf.readbyte)
  have "varint32_loop (buf_adv 1 ?s) 7 0 = varint32_loop ?t 3 0"
  proof -
    have "(7 + 7 * word_of_nat 36 :: u8) = 3" by simp
    then show ?thesis using buf.varint32_loop_zeros [OF adv1, of 7 0] by (simp only:)
  qed
  also have "\<dots> = (Some 8, buf_adv 1 ?t)"
    using last by (subst varint32_loop.simps) simp
  finally have "fst (pb_decode_varint32 ?s) = Some 8"
    using buf.readbyte [OF ok c1] by (simp add: pb_decode_varint32_def pb_decode_varint32_eof_def)
  moreover have "buf_content ?s = replicate 10 0x80 @ (replicate 27 0x80 @ [0x01])"
    unfolding c by (simp add: replicate_add [symmetric] flip: append_assoc)
  then have "varint64_loop ?s 0 0 = varint64_loop (buf_adv 10 ?s) 70 0"
    using buf.varint64_loop_zeros [OF ok, of 10 _ 0 0] by simp
  then have "fst (pb_decode_varint ?s) = None"
    by (simp add: pb_decode_varint_def varint64_loop.simps i_fail_def)
  ultimately show ?thesis by simp
qed

end
