(* ===== verification/CMem.thy ===== *)
theory CMem
  imports Prelude "HOL-Library.Monad_Syntax"
begin

text \<open>
  Writable C buffers. A buffer is the list of its bytes and a pointer into it is an offset.
  A store outside the buffer is undefined behaviour of C and has no result (\<open>None\<close>),
  so a function of the model that returns \<open>Some\<close> has stayed within its buffers: that
  is how the memory-safety properties of the components are stated.

  \<^item> \<open>store_at\<close> is the assignment \<open>m[p] = b\<close>.
  \<^item> \<open>copy_to\<close> is \<open>OPENSSL_memcpy(&m[p], xs, length)\<close>.
  \<^item> \<open>patch\<close> is the specification of both: the buffer with a run of bytes
    replaced.
\<close>

definition store_at :: "'a list \<Rightarrow> nat \<Rightarrow> 'a \<Rightarrow> 'a list option" where
  "store_at m p b = (if p < length m then Some (m[p := b]) else None)"

definition patch :: "'a list \<Rightarrow> nat \<Rightarrow> 'a list \<Rightarrow> 'a list" where
  "patch m p xs = take p m @ xs @ drop (p + length xs) m"

definition copy_to :: "'a list \<Rightarrow> nat \<Rightarrow> 'a list \<Rightarrow> 'a list option" where
  "copy_to m p xs = (if p + length xs \<le> length m then Some (patch m p xs) else None)"

lemma store_at_patch: "p < length m \<Longrightarrow> store_at m p b = Some (patch m p [b])"
  by (simp add: store_at_def patch_def upd_conv_take_nth_drop)

lemma length_patch [simp]: "p + length xs \<le> length m \<Longrightarrow> length (patch m p xs) = length m"
  by (simp add: patch_def)

lemma patch_Nil [simp]: "patch m p [] = m"
  by (simp add: patch_def)

lemma patch_append:
  assumes "p + length xs + length ys \<le> length m" "q = p + length xs"
  shows "patch (patch m p xs) q ys = patch m p (xs @ ys)"
  using assms by (simp add: patch_def ac_simps)

lemma patch_over:
  assumes "p + length xs \<le> length m" "length ys \<le> length xs"
  shows "patch (patch m p xs) p ys = patch m p (ys @ drop (length ys) xs)"
  using assms by (simp add: patch_def)

lemma patch_longer:
  assumes "p + length ys \<le> length m" "length xs \<le> length ys"
  shows "patch (patch m p xs) p ys = patch m p ys"
  using assms by (simp add: patch_def add.commute)

lemma take_patch [simp]: "p \<le> length m \<Longrightarrow> take p (patch m p xs) = take p m"
  by (simp add: patch_def)

lemma drop_patch [simp]: "p \<le> length m \<Longrightarrow> drop (p + length xs) (patch m p xs) = drop (p + length xs) m"
  by (simp add: patch_def)

lemma nth_patch:
  "p + length xs \<le> length m \<Longrightarrow> i < length m \<Longrightarrow>
    patch m p xs ! i = (if p \<le> i \<and> i < p + length xs then xs ! (i - p) else m ! i)"
  by (auto simp: patch_def nth_append min_def)

lemma read_patch: "p + length xs \<le> length m \<Longrightarrow> take (length xs) (drop p (patch m p xs)) = xs"
  by (simp add: patch_def)

lemma copy_to_Some [simp]: "p + length xs \<le> length m \<Longrightarrow> copy_to m p xs = Some (patch m p xs)"
  by (simp add: copy_to_def)

lemma length_store_at: "store_at m p b = Some m' \<Longrightarrow> length m' = length m"
  by (auto simp: store_at_def split: if_splits)

lemma length_copy_to: "copy_to m p xs = Some m' \<Longrightarrow> length m' = length m"
  by (auto simp: copy_to_def split: if_splits)

end
