(* ===== verification/Base64.thy ===== *)
theory Base64
  imports CMem
begin

text \<open>
  The base64 coder of \<open>crypto/base64/base64.c\<close> with the constant-time helpers of
  \<open>crypto/internal.h\<close> it is built on, in the order of the file. Input ranges
  \<open>(in, in_len)\<close> are byte lists; output pointers are offsets into a buffer (theory
  \<open>CMem\<close>), every store checked; \<open>size_t\<close> counters are naturals with the
  wrap-around at 2^64 written out where the code tests for it; a failing \<open>assert\<close>
  has no result.
\<close>

section \<open>Constant-time selection\<close>

definition constant_time_msb_w :: "u64 \<Rightarrow> u64" where
  "constant_time_msb_w a = 0 - drop_bit 63 a"

definition constant_time_is_zero_w :: "u64 \<Rightarrow> u64" where
  "constant_time_is_zero_w a = constant_time_msb_w (NOT a AND (a - 1))"

definition constant_time_eq_w :: "u64 \<Rightarrow> u64 \<Rightarrow> u64" where
  "constant_time_eq_w a b = constant_time_is_zero_w (a XOR b)"

definition constant_time_eq_8 :: "u64 \<Rightarrow> u64 \<Rightarrow> u8" where
  "constant_time_eq_8 a b = to_u8 (constant_time_eq_w a b)"

definition constant_time_select_8 :: "u8 \<Rightarrow> u8 \<Rightarrow> u8 \<Rightarrow> u8" where
  "constant_time_select_8 msk a b = (msk AND a) OR (NOT msk AND b)"

definition constant_time_lt_args_8 :: "u8 \<Rightarrow> u8 \<Rightarrow> u8" where
  "constant_time_lt_args_8 a b =
    (let aw = to_u64 a; bw = to_u64 b in to_u8 (constant_time_msb_w (aw - bw)))"

definition constant_time_in_range_8 :: "u8 \<Rightarrow> u8 \<Rightarrow> u8 \<Rightarrow> u8" where
  "constant_time_in_range_8 a mn mx =
    (let a = a - mn in constant_time_lt_args_8 a (mx - mn + 1))"

section \<open>Encoding\<close>

text \<open>Character constants: \<open>+ / 0 a A\<close> are 43, 47, 48, 97, 65.\<close>

definition conv_bin2ascii :: "u8 \<Rightarrow> u8" where
  "conv_bin2ascii a0 =
    (let a = a0 AND 0x3f;
         ret = constant_time_select_8 (constant_time_eq_8 (to_u64 a) 62) 43 47;
         ret = constant_time_select_8 (constant_time_lt_args_8 a 62) (a - 52 + 48) ret;
         ret = constant_time_select_8 (constant_time_lt_args_8 a 52) (a - 26 + 97) ret;
         ret = constant_time_select_8 (constant_time_lt_args_8 a 26) (a + 65) ret
     in ret)"

definition EVP_EncodedLength :: "u64 \<Rightarrow> u64 option" where
  "EVP_EncodedLength len =
    (if len + 2 < len then None
     else
       let len = (len + 2) div 3 in
       if drop_bit 2 (push_bit 2 len) \<noteq> len then None
       else
         let len = push_bit 2 len in
         if len + 1 < len then None
         else Some (len + 1))"

record evp_encode_ctx =
  data_used :: nat
  ctx_data :: "u8 list"
  eof_seen :: bool
  error_encountered :: bool

text \<open>\<open>EVP_EncodeInit\<close> and \<open>EVP_DecodeInit\<close> clear the whole structure,
  \<open>EVP_ENCODE_CTX_new\<close> allocates a cleared one.\<close>

definition EVP_EncodeInit :: "evp_encode_ctx \<Rightarrow> evp_encode_ctx" where
  "EVP_EncodeInit ctx =
    \<lparr>data_used = 0, ctx_data = replicate 48 0, eof_seen = False, error_encountered = False\<rparr>"

text \<open>The four characters of a group, and the store of four characters through
  \<open>*(dst++)\<close>.\<close>

definition store4 :: "u8 list \<Rightarrow> nat \<Rightarrow> u8 \<Rightarrow> u8 \<Rightarrow> u8 \<Rightarrow> u8 \<Rightarrow> u8 list option" where
  "store4 dst p a b c d = do {
     dst \<leftarrow> store_at dst p a;
     dst \<leftarrow> store_at dst (p + 1) b;
     dst \<leftarrow> store_at dst (p + 2) c;
     store_at dst (p + 3) d
   }"

fun encode_block_loop :: "u8 list \<Rightarrow> nat \<Rightarrow> u8 list \<Rightarrow> nat \<Rightarrow> (u8 list \<times> nat \<times> nat) option" where
  "encode_block_loop dst p [] ret = Some (dst, p, ret)"
| "encode_block_loop dst p (s0 # s1 # s2 # src) ret =
    (let l = push_bit 16 (to_u32 s0) OR push_bit 8 (to_u32 s1) OR to_u32 s2 in do {
       dst \<leftarrow> store4 dst p
         (conv_bin2ascii (to_u8 (drop_bit 18 l))) (conv_bin2ascii (to_u8 (drop_bit 12 l)))
         (conv_bin2ascii (to_u8 (drop_bit 6 l))) (conv_bin2ascii (to_u8 l));
       encode_block_loop dst (p + 4) src (ret + 4)
     })"
| "encode_block_loop dst p (s0 # rest) ret =
    (let l = push_bit 16 (to_u32 s0);
         l = (case rest of [s1] \<Rightarrow> l OR push_bit 8 (to_u32 s1) | _ \<Rightarrow> l) in do {
       dst \<leftarrow> store4 dst p
         (conv_bin2ascii (to_u8 (drop_bit 18 l))) (conv_bin2ascii (to_u8 (drop_bit 12 l)))
         (if rest = [] then 61 else conv_bin2ascii (to_u8 (drop_bit 6 l))) 61;
       Some (dst, p + 4, ret + 4)
     })"

definition EVP_EncodeBlock :: "u8 list \<Rightarrow> nat \<Rightarrow> u8 list \<Rightarrow> (u8 list \<times> nat) option" where
  "EVP_EncodeBlock dst p src = do {
     (dst, p', ret) \<leftarrow> encode_block_loop dst p src 0;
     dst \<leftarrow> store_at dst p' 0;
     Some (dst, ret)
   }"

text \<open>One line of output: the encoded block, a newline and the terminating NUL.\<close>

definition encode_line :: "u8 list \<Rightarrow> nat \<Rightarrow> u8 list \<Rightarrow> (u8 list \<times> nat) option" where
  "encode_line out p src = do {
     (out, encoded) \<leftarrow> EVP_EncodeBlock out p src;
     out \<leftarrow> store_at out (p + encoded) 10;
     out \<leftarrow> store_at out (p + encoded + 1) 0;
     Some (out, encoded)
   }"

text \<open>The loop over whole lines; its first result is \<open>False\<close> when the count of output
  bytes overflows, which makes the caller return.\<close>

function encode_lines ::
  "u8 list \<Rightarrow> nat \<Rightarrow> u8 list \<Rightarrow> nat \<Rightarrow> (bool \<times> u8 list \<times> u8 list \<times> nat) option" where
  "encode_lines out p inp tot =
    (if length inp < 48 then Some (True, out, inp, tot)
     else do {
       (out, encoded) \<leftarrow> encode_line out p (take 48 inp);
       let tot' = (tot + encoded + 1) mod 2 ^ 64;
       if tot' < tot then Some (False, out, drop 48 inp, tot)
       else encode_lines out (p + encoded + 1) (drop 48 inp) tot'
     })"
  by pat_completeness auto
termination by (relation "measure (\<lambda>(_, _, inp, _). length inp)") auto

declare encode_lines.simps [simp del]

definition INT_MAX :: nat where "INT_MAX = 2 ^ 31 - 1"

text \<open>The second half of \<open>EVP_EncodeUpdate\<close>: the whole lines, and what is kept
  for the next call.\<close>

definition encode_update_tail ::
  "evp_encode_ctx \<Rightarrow> u8 list \<Rightarrow> nat \<Rightarrow> u8 list \<Rightarrow> nat \<Rightarrow> (evp_encode_ctx \<times> u8 list \<times> nat) option" where
  "encode_update_tail ctx out p inp tot = do {
     (ok, out, inp, tot) \<leftarrow> encode_lines out p inp tot;
     if \<not> ok then Some (ctx, out, 0)
     else do {
       d \<leftarrow> copy_to (ctx_data ctx) 0 inp;
       let ctx = ctx\<lparr>ctx_data := d, data_used := length inp\<rparr>;
       Some (ctx, out, if tot > INT_MAX then 0 else tot)
     }
   }"

definition EVP_EncodeUpdate ::
  "evp_encode_ctx \<Rightarrow> u8 list \<Rightarrow> u8 list \<Rightarrow> (evp_encode_ctx \<times> u8 list \<times> nat) option" where
  "EVP_EncodeUpdate ctx out inp =
    (if inp = [] then Some (ctx, out, 0)
     else if \<not> data_used ctx < 48 then None
     else if 48 - data_used ctx > length inp then do {
       d \<leftarrow> copy_to (ctx_data ctx) (data_used ctx) inp;
       Some (ctx\<lparr>ctx_data := d, data_used := data_used ctx + length inp\<rparr>, out, 0)
     }
     else do {
       (ctx, out, p, inp, tot) \<leftarrow>
         (if data_used ctx \<noteq> 0 then
            let todo = 48 - data_used ctx in do {
              d \<leftarrow> copy_to (ctx_data ctx) (data_used ctx) (take todo inp);
              (out, encoded) \<leftarrow> encode_line out 0 d;
              Some (ctx\<lparr>ctx_data := d, data_used := 0\<rparr>, out, encoded + 1, drop todo inp, encoded + 1)
            }
          else Some (ctx, out, 0, inp, 0));
       encode_update_tail ctx out p inp tot
     })"

definition EVP_EncodeFinal ::
  "evp_encode_ctx \<Rightarrow> u8 list \<Rightarrow> (evp_encode_ctx \<times> u8 list \<times> nat) option" where
  "EVP_EncodeFinal ctx out =
    (if data_used ctx = 0 then Some (ctx, out, 0)
     else do {
       (out, encoded) \<leftarrow> encode_line out 0 (take (data_used ctx) (ctx_data ctx));
       Some (ctx\<lparr>data_used := 0\<rparr>, out, encoded + 1)
     })"

section \<open>Decoding\<close>

definition EVP_DecodedLength :: "nat \<Rightarrow> nat option" where
  "EVP_DecodedLength len = (if len mod 4 \<noteq> 0 then None else Some ((len div 4) * 3))"

definition EVP_DecodeInit :: "evp_encode_ctx \<Rightarrow> evp_encode_ctx" where
  "EVP_DecodeInit ctx =
    \<lparr>data_used = 0, ctx_data = replicate 48 0, eof_seen = False, error_encountered = False\<rparr>"

definition base64_ascii_to_bin :: "u8 \<Rightarrow> u8" where
  "base64_ascii_to_bin a =
    (let is_upper = constant_time_in_range_8 a 65 90;
         is_lower = constant_time_in_range_8 a 97 122;
         is_digit = constant_time_in_range_8 a 48 57;
         is_plus = constant_time_eq_8 (to_u64 a) 43;
         is_slash = constant_time_eq_8 (to_u64 a) 47;
         is_equals = constant_time_eq_8 (to_u64 a) 61;
         ret = 0;
         ret = ret OR (is_upper AND (a - 65));
         ret = ret OR (is_lower AND (a - 97 + 26));
         ret = ret OR (is_digit AND (a - 48 + 52));
         ret = ret OR (is_plus AND 62);
         ret = ret OR (is_slash AND 63);
         is_valid = is_upper OR is_lower OR is_digit OR is_plus OR is_slash OR is_equals
     in ret OR NOT is_valid)"

definition padding_pattern :: "u8 \<Rightarrow> u8 \<Rightarrow> u8 \<Rightarrow> u8 \<Rightarrow> nat" where
  "padding_pattern i0 i1 i2 i3 =
    (if i0 = 61 then 8 else 0) + (if i1 = 61 then 4 else 0)
    + (if i2 = 61 then 2 else 0) + (if i3 = 61 then 1 else 0)"

text \<open>\<open>base64_decode_quad\<close>: success, the output buffer, and the number of bytes
  written at \<open>p\<close>.\<close>

definition base64_decode_quad ::
  "u8 list \<Rightarrow> nat \<Rightarrow> u8 \<Rightarrow> u8 \<Rightarrow> u8 \<Rightarrow> u8 \<Rightarrow> (bool \<times> u8 list \<times> nat) option" where
  "base64_decode_quad out p i0 i1 i2 i3 =
    (let a = base64_ascii_to_bin i0; b = base64_ascii_to_bin i1;
         c = base64_ascii_to_bin i2; d = base64_ascii_to_bin i3 in
     if a = 0xff \<or> b = 0xff \<or> c = 0xff \<or> d = 0xff then Some (False, out, 0)
     else
       let v = push_bit 18 (to_u32 a) OR push_bit 12 (to_u32 b)
               OR push_bit 6 (to_u32 c) OR to_u32 d;
           pat = padding_pattern i0 i1 i2 i3 in
       if pat = 0 then do {
         out \<leftarrow> store_at out p (to_u8 (drop_bit 16 v));
         out \<leftarrow> store_at out (p + 1) (to_u8 (drop_bit 8 v));
         out \<leftarrow> store_at out (p + 2) (to_u8 v);
         Some (True, out, 3)
       }
       else if pat = 1 then do {
         out \<leftarrow> store_at out p (to_u8 (drop_bit 16 v));
         out \<leftarrow> store_at out (p + 1) (to_u8 (drop_bit 8 v));
         Some (True, out, 2)
       }
       else if pat = 3 then do {
         out \<leftarrow> store_at out p (to_u8 (drop_bit 16 v));
         Some (True, out, 1)
       }
       else Some (False, out, 0))"

definition is_b64_space :: "u8 \<Rightarrow> bool" where
  "is_b64_space c \<longleftrightarrow> c = 32 \<or> c = 9 \<or> c = 13 \<or> c = 10"

text \<open>The loop of \<open>EVP_DecodeUpdate\<close>; its first result is \<open>False\<close> when the
  call returns \<open>-1\<close> from within it.\<close>

fun decode_update_loop ::
  "evp_encode_ctx \<Rightarrow> u8 list \<Rightarrow> nat \<Rightarrow> nat \<Rightarrow> u8 list
     \<Rightarrow> (bool \<times> evp_encode_ctx \<times> u8 list \<times> nat) option" where
  "decode_update_loop ctx out p bytes_out [] = Some (True, ctx, out, bytes_out)"
| "decode_update_loop ctx out p bytes_out (c # inp) =
    (if is_b64_space c then decode_update_loop ctx out p bytes_out inp
     else if eof_seen ctx then Some (False, ctx\<lparr>error_encountered := True\<rparr>, out, bytes_out)
     else do {
       d \<leftarrow> store_at (ctx_data ctx) (data_used ctx) c;
       let ctx = ctx\<lparr>ctx_data := d, data_used := data_used ctx + 1\<rparr>;
       if data_used ctx = 4 then do {
         (ok, out, num) \<leftarrow> base64_decode_quad out p (d ! 0) (d ! 1) (d ! 2) (d ! 3);
         if \<not> ok then Some (False, ctx\<lparr>error_encountered := True\<rparr>, out, bytes_out)
         else
           let ctx = ctx\<lparr>data_used := 0\<rparr>;
               ctx = (if num < 3 then ctx\<lparr>eof_seen := True\<rparr> else ctx) in
           decode_update_loop ctx out (p + num) (bytes_out + num) inp
       }
       else decode_update_loop ctx out p bytes_out inp
     })"

definition EVP_DecodeUpdate ::
  "evp_encode_ctx \<Rightarrow> u8 list \<Rightarrow> u8 list \<Rightarrow> (int \<times> evp_encode_ctx \<times> u8 list \<times> nat) option" where
  "EVP_DecodeUpdate ctx out inp =
    (if error_encountered ctx then Some (-1, ctx, out, 0)
     else do {
       (ok, ctx, out, bytes_out) \<leftarrow> decode_update_loop ctx out 0 0 inp;
       if \<not> ok then Some (-1, ctx, out, 0)
       else if bytes_out > INT_MAX then Some (-1, ctx\<lparr>error_encountered := True\<rparr>, out, 0)
       else Some (if eof_seen ctx then 0 else 1, ctx, out, bytes_out)
     })"

definition EVP_DecodeFinal :: "evp_encode_ctx \<Rightarrow> int" where
  "EVP_DecodeFinal ctx = (if error_encountered ctx \<or> data_used ctx \<noteq> 0 then -1 else 1)"

text \<open>The loop of \<open>EVP_DecodeBase64\<close>; the input is a multiple of four long, and
  \<open>i != in_len - 4\<close> says that more of it follows.\<close>

fun decode_base64_loop ::
  "u8 list \<Rightarrow> nat \<Rightarrow> nat \<Rightarrow> u8 list \<Rightarrow> (bool \<times> u8 list \<times> nat) option" where
  "decode_base64_loop out p bytes_out (i0 # i1 # i2 # i3 # inp) = do {
     (ok, out, num) \<leftarrow> base64_decode_quad out p i0 i1 i2 i3;
     if \<not> ok then Some (False, out, bytes_out)
     else if num \<noteq> 3 \<and> inp \<noteq> [] then Some (False, out, bytes_out + num)
     else decode_base64_loop out (p + num) (bytes_out + num) inp
   }"
| "decode_base64_loop out p bytes_out _ = Some (True, out, bytes_out)"

definition EVP_DecodeBase64 ::
  "u8 list \<Rightarrow> nat \<Rightarrow> u8 list \<Rightarrow> (bool \<times> u8 list \<times> nat) option" where
  "EVP_DecodeBase64 out max_out inp =
    (if length inp mod 4 \<noteq> 0 then Some (False, out, 0)
     else case EVP_DecodedLength (length inp) of
       None \<Rightarrow> Some (False, out, 0)
     | Some max_len \<Rightarrow>
         if max_out < max_len then Some (False, out, 0)
         else do {
           (ok, out, bytes_out) \<leftarrow> decode_base64_loop out 0 0 inp;
           Some (if ok then (True, out, bytes_out) else (False, out, 0))
         })"

text \<open>\<open>EVP_DecodeBlock\<close>: trimming at both ends, decoding, and the zero bytes that
  stand for the padding.\<close>

definition trim_block :: "u8 list \<Rightarrow> u8 list" where
  "trim_block src =
    rev (dropWhile is_b64_space (rev (dropWhile (\<lambda>c. c = 32 \<or> c = 9) src)))"

function pad_to_3 :: "u8 list \<Rightarrow> nat \<Rightarrow> (u8 list \<times> nat) option" where
  "pad_to_3 dst n =
    (if n mod 3 \<noteq> 0 then do { dst \<leftarrow> store_at dst n 0; pad_to_3 dst (n + 1) }
     else Some (dst, n))"
  by pat_completeness auto
termination
  by (relation "measure (\<lambda>(_, n). (3 - n mod 3) mod 3)")
     (auto simp: mod_Suc)

declare pad_to_3.simps [simp del]

definition EVP_DecodeBlock :: "u8 list \<Rightarrow> u8 list \<Rightarrow> (int \<times> u8 list) option" where
  "EVP_DecodeBlock dst src =
    (let src = trim_block src in
     case EVP_DecodedLength (length src) of
       None \<Rightarrow> Some (-1, dst)
     | Some max_len \<Rightarrow>
         if max_len > INT_MAX then Some (-1, dst)
         else do {
           (ok, dst, dst_len) \<leftarrow> EVP_DecodeBase64 dst max_len src;
           if \<not> ok then Some (-1, dst)
           else do {
             (dst, dst_len) \<leftarrow> pad_to_3 dst dst_len;
             if dst_len > INT_MAX then None else Some (int dst_len, dst)
           }
         })"

end
