(* ===== verification/Base64Facts.thy ===== *)
theory Base64Facts
  imports Base64
begin

text \<open>
  Specification of base64 and the facts that tie the coder to it: the constant-time selectors
  compute plain comparisons, the two character conversions are the RFC 4648 alphabet, a
  decoded group is \<open>quad_bytes\<close>, an encoded byte string is \<open>b64\<close>, a
  decoded text \<open>b64_decode\<close>.
\<close>

section \<open>The selectors are comparisons\<close>

lemma u64_bit63: "bit (a :: u64) 63 \<longleftrightarrow> 2 ^ 63 \<le> unat a"
proof -
  have "bit a 63 \<longleftrightarrow> bit (unat a) 63"
    by (simp add: bit_unsigned_iff)
  also have "\<dots> \<longleftrightarrow> odd (unat a div 2 ^ 63)"
    by (simp add: bit_iff_odd)
  also have "\<dots> \<longleftrightarrow> 2 ^ 63 \<le> unat a"
  proof -
    have "unat a div 2 ^ 63 = (if 2 ^ 63 \<le> unat a then 1 else 0)"
      using unat_lt_u64 [of a] by (auto intro: div_nat_eqI)
    then show ?thesis by simp
  qed
  finally show ?thesis .
qed

lemma msb_w_iff: "constant_time_msb_w a = (if 2 ^ 63 \<le> unat a then -1 else 0)"
proof -
  have "unat (drop_bit 63 a) = unat a div 2 ^ 63"
    by (simp add: drop_bit_eq_div unat_div)
  also have "\<dots> = (if 2 ^ 63 \<le> unat a then 1 else 0)"
    using unat_lt_u64 [of a] by (auto intro: div_nat_eqI)
  finally have "drop_bit 63 a = (if 2 ^ 63 \<le> unat a then 1 else 0)"
    by (simp add: word_unat_eq_iff)
  then show ?thesis by (simp add: constant_time_msb_w_def)
qed

lemma is_zero_w_iff: "constant_time_is_zero_w a = (if a = 0 then -1 else 0)"
proof -
  have "2 ^ 63 \<le> unat a" if "2 ^ 63 \<le> unat (a - 1)" "a \<noteq> 0"
  proof -
    from \<open>a \<noteq> 0\<close> have "unat (a - 1) = unat a - 1"
      by (metis One_nat_def unat_minus_one)
    then show ?thesis using that by linarith
  qed
  moreover have "2 ^ 63 \<le> unat (NOT a AND (a - 1)) \<longleftrightarrow> \<not> bit a 63 \<and> bit (a - 1) 63"
    unfolding u64_bit63 [symmetric] by (simp add: bit_and_iff bit_not_iff)
  ultimately have "a \<noteq> 0 \<Longrightarrow> \<not> 2 ^ 63 \<le> unat (NOT a AND (a - 1))"
    by (auto simp: u64_bit63)
  moreover have "constant_time_is_zero_w 0 = - 1" by code_simp
  ultimately show ?thesis
    by (cases "a = 0") (simp_all add: constant_time_is_zero_w_def msb_w_iff)
qed

lemma xor_zero_iff: "(a :: 'a::len word) XOR b = 0 \<longleftrightarrow> a = b"
proof
  assume "a XOR b = 0"
  then have "(a XOR b) XOR b = b" by simp
  then show "a = b" by (simp only: xor.assoc) simp
qed simp

lemma minus_one_u8: "to_u8 (- 1 :: u64) = 0xff" "(- 1 :: u8) = 0xff"
  by code_simp+

lemma eq_8_iff: "constant_time_eq_8 a b = (if a = b then 0xff else 0)"
  by (simp add: constant_time_eq_8_def constant_time_eq_w_def is_zero_w_iff xor_zero_iff minus_one_u8)

lemma lt_8_iff: "constant_time_lt_args_8 a b = (if a < b then 0xff else 0)"
proof -
  have "2 ^ 63 \<le> unat (to_u64 a - to_u64 b) \<longleftrightarrow> a < b"
  proof (cases "a < b")
    case True
    then have lt: "unat a < unat b" by (simp add: word_less_nat_alt)
    have "unat (to_u64 a - to_u64 b) = unat a + 18446744073709551616 - unat b"
      using lt by (simp add: unat_sub_if_size word_size word_le_nat_alt)
    moreover have "unat b < 256" by simp
    ultimately have "9223372036854775808 \<le> unat (to_u64 a - to_u64 b)" by linarith
    then show ?thesis using True by simp
  next
    case False
    then have le: "unat b \<le> unat a" by (simp add: word_less_nat_alt)
    then have "unat (to_u64 a - to_u64 b) = unat a - unat b"
      by (simp add: unat_sub_if_size word_size word_le_nat_alt)
    moreover have "unat a < 256" by simp
    ultimately have "\<not> 9223372036854775808 \<le> unat (to_u64 a - to_u64 b)" by linarith
    then show ?thesis using False by simp
  qed
  then show ?thesis by (simp add: constant_time_lt_args_8_def msb_w_iff minus_one_u8)
qed

lemma select_8_iff [simp]:
  "constant_time_select_8 0xff a b = a" "constant_time_select_8 0 a b = b"
proof -
  have "constant_time_select_8 (-1) a b = a" by (simp add: constant_time_select_8_def)
  then show "constant_time_select_8 0xff a b = a" by (simp only: minus_one_u8)
qed (simp add: constant_time_select_8_def)

lemma in_range_8_iff:
  assumes "unat mn \<le> unat mx" "unat mx - unat mn < 255"
  shows "constant_time_in_range_8 a mn mx = (if unat mn \<le> unat a \<and> unat a \<le> unat mx then 0xff else 0)"
proof -
  have "unat (mx - mn) = unat mx - unat mn"
    using assms by (simp add: unat_sub_if_size word_size word_le_nat_alt)
  then have mx: "unat (mx - mn + 1) = unat mx - unat mn + 1"
    using assms by (simp add: unat_word_ariths)
  have "a - mn < mx - mn + 1 \<longleftrightarrow> unat mn \<le> unat a \<and> unat a \<le> unat mx"
    using assms unat_u8_less [of a] unat_u8_less [of mx]
    unfolding word_less_nat_alt mx by (auto simp: unat_sub_if_size word_size word_le_nat_alt simp del: unat_u8_less)
  then show ?thesis by (simp add: constant_time_in_range_8_def lt_8_iff)
qed

section \<open>The alphabet\<close>

definition b64_char :: "nat \<Rightarrow> u8" where
  "b64_char n = (if n < 26 then byte_of (65 + n) else if n < 52 then byte_of (97 + (n - 26))
     else if n < 62 then byte_of (48 + (n - 52)) else if n = 62 then 43 else 47)"

lemma conv_bin2ascii_char: "conv_bin2ascii a = b64_char (unat a mod 64)"
proof -
  define n where "n = unat a mod 64"
  have n: "n < 64" by (simp add: n_def)
  have a: "a AND 0x3f = byte_of n"
  proof -
    have "a AND 0x3f = take_bit 6 a" by (simp add: take_bit_eq_mask mask_eq_exp_minus_1)
    then have "unat (a AND 0x3f) = n"
      by (simp only: n_def unsigned_take_bit_eq) (simp add: take_bit_eq_mod)
    then show ?thesis by (rule byte_of_eqI)
  qed
  have eq62: "to_u64 (byte_of n) = 62 \<longleftrightarrow> n = 62"
    using n by (simp add: word_unat_eq_iff)
  have lt: "byte_of n < 62 \<longleftrightarrow> n < 62" "byte_of n < 52 \<longleftrightarrow> n < 52" "byte_of n < 26 \<longleftrightarrow> n < 26"
    using n by (simp_all add: word_less_nat_alt)
  show ?thesis
    unfolding conv_bin2ascii_def b64_char_def a Let_def eq_8_iff lt_8_iff eq62 lt n_def [symmetric]
    by (simp add: byte_of_def)
qed

definition b64_index :: "u8 \<Rightarrow> nat option" where
  "b64_index c = (let n = unat c in
     if 65 \<le> n \<and> n \<le> 90 then Some (n - 65)
     else if 97 \<le> n \<and> n \<le> 122 then Some (n - 97 + 26)
     else if 48 \<le> n \<and> n \<le> 57 then Some (n - 48 + 52)
     else if n = 43 then Some 62 else if n = 47 then Some 63 else None)"

lemma b64_index_less: "b64_index c = Some n \<Longrightarrow> n < 64"
  by (auto simp: b64_index_def Let_def split: if_splits)

lemma b64_index_char: "n < 64 \<Longrightarrow> b64_index (b64_char n) = Some n"
  by (auto simp: b64_index_def b64_char_def Let_def)

lemma b64_char_neq: "n < 64 \<Longrightarrow> b64_char n \<noteq> 61"  "n < 64 \<Longrightarrow> \<not> is_b64_space (b64_char n)"
  by (auto simp: b64_char_def is_b64_space_def word_unat_eq_iff)

lemma b64_char_index: "b64_index c = Some n \<Longrightarrow> b64_char n = c"
  by (auto simp: b64_index_def b64_char_def Let_def word_unat_eq_iff split: if_splits)

lemma b64_index_equals [simp]: "b64_index 61 = None"
  by (simp add: b64_index_def)

lemma base64_ascii_to_bin_index:
  "base64_ascii_to_bin c =
    (case b64_index c of Some n \<Rightarrow> byte_of n | None \<Rightarrow> if c = 61 then 0 else 0xff)"
proof -
  have r: "constant_time_in_range_8 c 65 90 = (if 65 \<le> unat c \<and> unat c \<le> 90 then 0xff else 0)"
    "constant_time_in_range_8 c 97 122 = (if 97 \<le> unat c \<and> unat c \<le> 122 then 0xff else 0)"
    "constant_time_in_range_8 c 48 57 = (if 48 \<le> unat c \<and> unat c \<le> 57 then 0xff else 0)"
    by (simp_all add: in_range_8_iff)
  have e: "to_u64 c = 43 \<longleftrightarrow> unat c = 43" "to_u64 c = 47 \<longleftrightarrow> unat c = 47" 
    "to_u64 c = 61 \<longleftrightarrow> unat c = 61" "c = 61 \<longleftrightarrow> unat c = 61"
    by (simp_all add: word_unat_eq_iff)
  have ff: "0xff AND x = x" for x :: u8
    by (simp flip: minus_one_u8(2))
  have nff: "- 256 = (0 :: u8)" by code_simp
  show ?thesis
    unfolding base64_ascii_to_bin_def r eq_8_iff e b64_index_def Let_def
    by (auto simp: ff nff minus_one_u8 byte_of_def word_unat_eq_iff unat_word_ariths unat_sub_if_size word_size)
qed

section \<open>Encoded blocks\<close>

fun b64 :: "u8 list \<Rightarrow> u8 list" where
  "b64 [] = []"
| "b64 [a] = [b64_char (unat a div 4), b64_char (unat a mod 4 * 16), 61, 61]"
| "b64 [a, b] = [b64_char (unat a div 4), b64_char (unat a mod 4 * 16 + unat b div 16),
     b64_char (unat b mod 16 * 4), 61]"
| "b64 (a # b # c # xs) = [b64_char (unat a div 4), b64_char (unat a mod 4 * 16 + unat b div 16),
     b64_char (unat b mod 16 * 4 + unat c div 64), b64_char (unat c mod 64)] @ b64 xs"

lemma length_b64: "length (b64 xs) = 4 * ((length xs + 2) div 3)"
proof (induction xs rule: b64.induct)
  case (4 a b c xs)
  have "(5 + length xs) div 3 = (2 + length xs) div 3 + 1" by presburger
  with 4 show ?case by simp
qed simp_all

lemma b64_append: "length xs mod 3 = 0 \<Longrightarrow> b64 (xs @ ys) = b64 xs @ b64 ys"
proof (induction xs rule: b64.induct)
  case (4 a b c xs)
  have "length xs mod 3 = 0" using 4(2) by (simp add: mod_Suc split: if_splits)
  with 4 show ?case by simp
qed simp_all

lemma store4_patch:
  "store4 dst p a b c d = (if p + 4 \<le> length dst then Some (patch dst p [a, b, c, d]) else None)"
proof (cases "p + 4 \<le> length dst")
  case True
  then show ?thesis
    by (simp add: store4_def store_at_patch patch_append)
next
  case False
  then show ?thesis
    by (auto simp: store4_def store_at_def split: Option.bind_splits)
qed

lemma word_join2:
  fixes r x :: "'a::len word"
  assumes "unat r < 2 ^ n" "unat r + unat x * 2 ^ n < 2 ^ LENGTH('a)"
  shows "unat (push_bit n x OR r) = unat x * 2 ^ n + unat r"
  using or_push_bit_unat [OF assms] by (simp add: or.commute)

lemma u32_of_three:
  "unat (push_bit 16 (to_u32 (a :: u8)) OR push_bit 8 (to_u32 (b :: u8)) OR to_u32 (c :: u8))
    = unat a * 65536 + unat b * 256 + unat c"
proof -
  have a: "unat a < 256" and b: "unat b < 256" and c: "unat c < 256" by simp_all
  have 1: "unat (push_bit 8 (to_u32 b) OR to_u32 c) = unat b * 256 + unat c"
    using word_join2 [of "to_u32 c" 8 "to_u32 b"] a b c by (simp del: unat_u8_less)
  have 2: "unat (push_bit 8 (to_u32 b) OR to_u32 c) < 2 ^ 16"
    unfolding 1 using b c by (simp del: unat_u8_less)
  have "unat (push_bit 16 (to_u32 a) OR (push_bit 8 (to_u32 b) OR to_u32 c))
      = unat a * 65536 + (unat b * 256 + unat c)"
    using word_join2 [OF 2, of "to_u32 a"] a b c unfolding 1 by (simp del: unat_u8_less)
  then show ?thesis by (simp add: or.assoc)
qed

lemma unat_drop_u8: "unat (to_u8 (drop_bit n (l :: u32))) = unat l div 2 ^ n mod 256"
proof -
  have "take_bit LENGTH(32) (unat l) = unat l"
    using unsigned_less [of l] by (simp add: take_bit_nat_eq_self_iff)
  then show ?thesis
    by (simp only: unsigned_ucast_eq unsigned_drop_bit_eq) (simp add: drop_bit_eq_div take_bit_eq_mod)
qed

lemma char_of_u32:
  "conv_bin2ascii (to_u8 (drop_bit n (l :: u32))) = b64_char (unat l div 2 ^ n mod 64)"
proof -
  have "x mod 256 mod 64 = x mod 64" for x :: nat
    by (rule mod_mod_cancel) simp
  then show ?thesis unfolding conv_bin2ascii_char unat_drop_u8 by simp
qed

lemma div_mod_64: "q < 64 \<Longrightarrow> (x * 64 + q) div 64 = x" "q < 64 \<Longrightarrow> (x * 64 + q) mod 64 = (q :: nat)"
  by simp_all

lemma digits64:
  assumes "q2 < 64" "q3 < 64" "q4 < (64 :: nat)" "l = ((q1 * 64 + q2) * 64 + q3) * 64 + q4"
  shows "l div 262144 = q1" "l div 4096 mod 64 = q2" "l div 64 mod 64 = q3" "l mod 64 = q4"
proof -
  have d: "l div 64 = (q1 * 64 + q2) * 64 + q3" and "l mod 64 = q4"
    using assms(3) unfolding assms(4) by (rule div_mod_64)+
  then show "l div 64 mod 64 = q3" "l mod 64 = q4"
    by (simp_all only: div_mod_64(2) [OF assms(2)])
  have e: "l div 4096 = q1 * 64 + q2"
    using div_mod_64(1) [OF assms(2)] d div_mult2_eq [of l 64 64] by simp
  then show "l div 4096 mod 64 = q2" by (simp only: div_mod_64(2) [OF assms(1)])
  show "l div 262144 = q1"
    using div_mod_64(1) [OF assms(1)] e div_mult2_eq [of l 4096 64] by simp
qed

lemma regroup:
  assumes "a = a1 * 4 + a0" "b = b1 * 16 + b0" "c = c1 * 64 + (c0 :: nat)"
  shows "a * 65536 + b * 256 + c = ((a1 * 64 + (a0 * 16 + b1)) * 64 + (b0 * 4 + c1)) * 64 + c0"
  unfolding assms by (simp add: algebra_simps)

lemma sextets:
  assumes "l = a * 65536 + b * 256 + c" "a < 256" "b < 256" "c < (256 :: nat)"
  shows "l div 262144 mod 64 = a div 4" "l div 4096 mod 64 = a mod 4 * 16 + b div 16"
    "l div 64 mod 64 = b mod 16 * 4 + c div 64" "l mod 64 = c mod 64"
proof -
  have join: "x < 4 \<Longrightarrow> y < 16 \<Longrightarrow> x * 16 + y < 64" "y < 16 \<Longrightarrow> x < 4 \<Longrightarrow> y * 4 + x < 64"
    for x y :: nat by simp_all
  have "b div 16 < 16" "c div 64 < 4"
    using assms(3,4) by (simp_all add: less_mult_imp_div_less)
  then have "a mod 4 * 16 + b div 16 < 64" "b mod 16 * 4 + c div 64 < 64" "c mod 64 < 64"
    by (auto intro: join simp del: mult_Suc_right)
  moreover have "l = ((a div 4 * 64 + (a mod 4 * 16 + b div 16)) * 64
      + (b mod 16 * 4 + c div 64)) * 64 + c mod 64"
    unfolding assms(1) by (rule regroup) simp_all
  note d = digits64 [OF calculation this]
  show "l div 4096 mod 64 = a mod 4 * 16 + b div 16"
    "l div 64 mod 64 = b mod 16 * 4 + c div 64" "l mod 64 = c mod 64"
    by (rule d)+
  show "l div 262144 mod 64 = a div 4" using d(1) assms(2) by simp
qed

lemma sextets_u8:
  assumes "unat (l :: u32) = unat (a :: u8) * 65536 + unat (b :: u8) * 256 + unat (c :: u8)"
  shows "conv_bin2ascii (to_u8 (drop_bit 18 l)) = b64_char (unat a div 4)"
    "conv_bin2ascii (to_u8 (drop_bit 12 l)) = b64_char (unat a mod 4 * 16 + unat b div 16)"
    "conv_bin2ascii (to_u8 (drop_bit 6 l)) = b64_char (unat b mod 16 * 4 + unat c div 64)"
    "conv_bin2ascii (to_u8 l) = b64_char (unat c mod 64)"
proof -
  note s = sextets [OF assms unat_u8_less unat_u8_less unat_u8_less]
  have p: "(2 :: nat) ^ 18 = 262144" "(2 :: nat) ^ 12 = 4096" "(2 :: nat) ^ 6 = 64" by simp_all
  show "conv_bin2ascii (to_u8 (drop_bit 18 l)) = b64_char (unat a div 4)"
    "conv_bin2ascii (to_u8 (drop_bit 12 l)) = b64_char (unat a mod 4 * 16 + unat b div 16)"
    "conv_bin2ascii (to_u8 (drop_bit 6 l)) = b64_char (unat b mod 16 * 4 + unat c div 64)"
    unfolding char_of_u32 p s by (rule refl)+
  have "conv_bin2ascii (to_u8 l) = b64_char (unat l mod 64)"
    using char_of_u32 [of 0 l] by (simp only: drop_bit_0 id_apply power_0 div_by_1)
  then show "conv_bin2ascii (to_u8 l) = b64_char (unat c mod 64)" unfolding s .
qed

lemma encode_block_loop_b64:
  "encode_block_loop dst p src ret =
    (if p + length (b64 src) \<le> length dst \<or> src = []
     then Some (patch dst p (b64 src), p + length (b64 src), ret + length (b64 src)) else None)"
proof (induction src arbitrary: dst p ret rule: b64.induct)
  case (2 a)
  have "unat (push_bit 16 (to_u32 a)) = unat a * 65536 + unat (0 :: u8) * 256 + unat (0 :: u8)"
    using u32_of_three [of a 0 0] by simp
  from sextets_u8 [OF this] show ?case
    by (simp add: store4_patch)
next
  case (3 a b)
  have "unat (push_bit 16 (to_u32 a) OR push_bit 8 (to_u32 b))
      = unat a * 65536 + unat b * 256 + unat (0 :: u8)"
    using u32_of_three [of a b 0] by simp
  from sextets_u8 [OF this] show ?case
    by (simp add: store4_patch)
next
  case (4 a b c xs)
  define l where "l = push_bit 16 (to_u32 a) OR push_bit 8 (to_u32 b) OR to_u32 c"
  note six = sextets_u8 [OF u32_of_three [of a b c, folded l_def]]
  define q where "q = [b64_char (unat a div 4), b64_char (unat a mod 4 * 16 + unat b div 16),
     b64_char (unat b mod 16 * 4 + unat c div 64), b64_char (unat c mod 64)]"
  have q: "b64 (a # b # c # xs) = q @ b64 xs" "length q = 4" by (simp_all add: q_def)
  have "encode_block_loop dst p (a # b # c # xs) ret =
      (if p + 4 \<le> length dst then encode_block_loop (patch dst p q) (p + 4) xs (ret + 4) else None)"
    by (simp only: encode_block_loop.simps Let_def l_def [symmetric] six store4_patch
        q_def [symmetric]) simp
  also have "\<dots> = (if p + length (q @ b64 xs) \<le> length dst
      then Some (patch dst p (q @ b64 xs), p + length (q @ b64 xs), ret + length (q @ b64 xs)) else None)"
    by (simp add: 4 q patch_append)
  finally show ?case unfolding q(1) by (simp only: list.distinct simp_thms)
qed simp

lemma EVP_EncodeBlock_b64:
  "EVP_EncodeBlock dst p src =
    (if p + length (b64 src) < length dst
     then Some (patch dst p (b64 src @ [0]), length (b64 src)) else None)"
  by (auto simp: EVP_EncodeBlock_def encode_block_loop_b64 store_at_patch patch_append)
     (simp_all add: store_at_def)

lemma encode_line_b64:
  "encode_line out p src =
    (if p + length (b64 src) + 1 < length out
     then Some (patch out p (b64 src @ [10, 0]), length (b64 src)) else None)"
proof (cases "p + length (b64 src) + 1 < length out")
  case True
  let ?q = "p + length (b64 src)" and ?x = "patch out p (b64 src)"
  have "patch out p (b64 src @ [0]) = patch ?x ?q [0]"
    using True by (simp add: patch_append)
  then have "patch (patch out p (b64 src @ [0])) ?q [10] = patch ?x ?q [10]"
    using True by (simp add: patch_over)
  with True show ?thesis
    by (simp add: encode_line_def EVP_EncodeBlock_b64 store_at_patch patch_append)
next
  case False
  then show ?thesis
    by (simp add: encode_line_def EVP_EncodeBlock_b64 store_at_def)
qed

section \<open>Streams of lines\<close>

text \<open>The whole lines of an input, and the bytes that wait for the next call.\<close>

fun b64_lines :: "nat \<Rightarrow> u8 list \<Rightarrow> u8 list" where
  "b64_lines 0 xs = []"
| "b64_lines (Suc k) xs = b64 (take 48 xs) @ [10] @ b64_lines k (drop 48 xs)"

abbreviation whole_lines :: "u8 list \<Rightarrow> u8 list" where
  "whole_lines xs \<equiv> b64_lines (length xs div 48) xs"

abbreviation line_rest :: "u8 list \<Rightarrow> u8 list" where
  "line_rest xs \<equiv> drop (48 * (length xs div 48)) xs"

lemma length_b64_lines: "48 * k \<le> length xs \<Longrightarrow> length (b64_lines k xs) = 65 * k"
  by (induction k arbitrary: xs) (simp_all add: length_b64)

lemma b64_lines_add: "b64_lines (j + k) xs = b64_lines j xs @ b64_lines k (drop (48 * j) xs)"
  by (induction j arbitrary: xs) (simp_all add: add.commute)

lemma b64_lines_append: "48 * k \<le> length xs \<Longrightarrow> b64_lines k (xs @ ys) = b64_lines k xs"
  by (induction k arbitrary: xs) simp_all

lemma whole_lines_append:
  "whole_lines (xs @ ys) = whole_lines xs @ whole_lines (line_rest xs @ ys)"
  "line_rest (xs @ ys) = line_rest (line_rest xs @ ys)"
proof -
  let ?j = "length xs div 48"
  have le: "48 * ?j \<le> length xs" by simp
  have len: "length (line_rest xs @ ys) + 48 * ?j = length (xs @ ys)" using le by simp
  then have d: "length (xs @ ys) div 48 = ?j + length (line_rest xs @ ys) div 48"
    by (metis add.commute div_mult_self2 zero_neq_numeral)
  have dr: "drop (48 * ?j) (xs @ ys) = line_rest xs @ ys" using le by simp
  show "whole_lines (xs @ ys) = whole_lines xs @ whole_lines (line_rest xs @ ys)"
    unfolding d b64_lines_add dr b64_lines_append [OF le] ..
  have "drop (48 * (?j + n)) (xs @ ys) = drop (48 * n) (line_rest xs @ ys)" for n
    by (simp only: distrib_left add.commute [of "48 * ?j"] drop_drop [symmetric] dr)
  then show "line_rest (xs @ ys) = line_rest (line_rest xs @ ys)"
    unfolding d .
qed

text \<open>What the output holds after some whole lines: the lines, and a NUL if there is one.\<close>

definition nul_terminated :: "u8 list \<Rightarrow> u8 list" where
  "nul_terminated xs = (if xs = [] then [] else xs @ [0])"

lemma patch_nul_line:
  assumes "p + length xs + length l + 1 < length m"
  shows "patch (patch m p (nul_terminated xs)) (p + length xs) (l @ [10, 0])
    = patch m p (nul_terminated (xs @ l @ [10]))"
proof (cases "xs = []")
  case False
  then have "patch m p (nul_terminated xs) = patch (patch m p xs) (p + length xs) [0]"
    using assms by (simp add: nul_terminated_def patch_append)
  then have "patch (patch m p (nul_terminated xs)) (p + length xs) (l @ [10, 0])
      = patch (patch m p xs) (p + length xs) (l @ [10, 0])"
    using assms by (simp add: patch_longer)
  then show ?thesis using assms by (simp add: nul_terminated_def patch_append)
qed (simp add: nul_terminated_def)

lemma encode_lines_b64:
  assumes "tot = length xs" "length (xs @ b64_lines (length inp div 48) inp) < length out"
    "length out < 2 ^ 64"
  shows "encode_lines (patch out 0 (nul_terminated xs)) (length xs) inp tot =
    Some (True, patch out 0 (nul_terminated (xs @ whole_lines inp)), line_rest inp,
          tot + length (whole_lines inp))"
  using assms
proof (induction "length inp div 48" arbitrary: xs inp tot)
  case 0
  then have "length inp < 48" by (simp add: div_eq_0_iff)
  with 0 show ?case by (subst encode_lines.simps) simp
next
  case (Suc k)
  then have len: "48 \<le> length inp" by (cases "length inp < 48") simp_all
  have k: "length inp div 48 = Suc k" "length (drop 48 inp) div 48 = k"
    using Suc(2) len by (simp_all add: div_if)
  let ?l = "b64 (take 48 inp)"
  have ll: "length ?l = 64" using len by (simp add: length_b64)
  have room: "length xs + 65 + length (b64_lines k (drop 48 inp)) < length out"
    using Suc.prems(2) by (simp add: k ll)
  have lt: "length xs + 1 < length out" using room by simp
  have line: "encode_line (patch out 0 (nul_terminated xs)) (length xs) (take 48 inp)
      = Some (patch out 0 (nul_terminated (xs @ ?l @ [10])), 64)"
    using room patch_nul_line [of 0 xs ?l out]
    by (simp add: encode_line_b64 ll nul_terminated_def)
  have "encode_lines (patch out 0 (nul_terminated xs)) (length xs) inp tot
      = encode_lines (patch out 0 (nul_terminated (xs @ ?l @ [10]))) (length (xs @ ?l @ [10]))
          (drop 48 inp) (tot + 65)"
    using len room Suc.prems by (subst encode_lines.simps) (simp add: line ll Let_def add.commute)
  also have "\<dots> = Some (True,
      patch out 0 (nul_terminated ((xs @ ?l @ [10]) @ whole_lines (drop 48 inp))),
      line_rest (drop 48 inp), tot + 65 + length (whole_lines (drop 48 inp)))"
    using Suc.prems room by (intro Suc.hyps(1)) (simp_all add: k(1) k(2) [simplified] ll)
  finally show ?case
    using len by (simp add: k(1) k(2) [simplified] ll add.commute)
qed


definition enc_ok :: "evp_encode_ctx \<Rightarrow> bool" where
  "enc_ok ctx \<longleftrightarrow> data_used ctx < 48 \<and> length (ctx_data ctx) = 48"

definition pending :: "evp_encode_ctx \<Rightarrow> u8 list" where
  "pending ctx = take (data_used ctx) (ctx_data ctx)"

lemma length_pending: "enc_ok ctx \<Longrightarrow> length (pending ctx) = data_used ctx"
  by (simp add: enc_ok_def pending_def)

definition update_result :: "evp_encode_ctx \<Rightarrow> u8 list \<Rightarrow> u8 list \<Rightarrow> (evp_encode_ctx \<times> u8 list \<times> nat) option \<Rightarrow> bool" where
  "update_result ctx out inp r \<longleftrightarrow>
    (let all = pending ctx @ inp; lns = whole_lines all in
     \<exists>ctx'. r = Some (ctx', patch out 0 (nul_terminated lns), if length lns > INT_MAX then 0 else length lns)
       \<and> enc_ok ctx' \<and> pending ctx' = line_rest all)"

lemma whole_lines_short: "length xs < 48 \<Longrightarrow> whole_lines xs = []" "length xs < 48 \<Longrightarrow> line_rest xs = xs"
  by simp_all

lemma whole_lines_first:
  assumes "48 \<le> length xs"
  shows "whole_lines xs = (b64 (take 48 xs) @ [10]) @ whole_lines (drop 48 xs)"
    "line_rest xs = line_rest (drop 48 xs)"
proof -
  have k: "length xs div 48 = Suc (length (drop 48 xs) div 48)"
    using assms by (simp add: div_if)
  show "whole_lines xs = (b64 (take 48 xs) @ [10]) @ whole_lines (drop 48 xs)"
    unfolding k b64_lines.simps by simp
  show "line_rest xs = line_rest (drop 48 xs)"
    unfolding k by (simp add: add.commute)
qed

lemma update_tail:
  assumes "enc_ok ctx" "length (xs @ whole_lines inp) < length out" "length out < 2 ^ 64"
    "xs = [] \<or> length xs = 65"
  shows "\<exists>ctx'. encode_update_tail ctx (patch out 0 (nul_terminated xs)) (length xs) inp (length xs)
     = Some (ctx', patch out 0 (nul_terminated (xs @ whole_lines inp)),
        if length (xs @ whole_lines inp) > INT_MAX then 0 else length (xs @ whole_lines inp))
     \<and> enc_ok ctx' \<and> pending ctx' = line_rest inp"
proof -
  have "length (line_rest inp) < 48" by (simp add: minus_mult_div_eq_mod)
  then show ?thesis
    using assms by (simp add: encode_update_tail_def encode_lines_b64 enc_ok_def pending_def)
       (simp add: patch_def)
qed

lemma EVP_EncodeUpdate_result:
  assumes ok: "enc_ok ctx" and room: "length (whole_lines (pending ctx @ inp)) < length out"
    and small: "length out < 2 ^ 64"
  shows "update_result ctx out inp (EVP_EncodeUpdate ctx out inp)"
proof -
  have used: "data_used ctx < 48" "length (ctx_data ctx) = 48" using ok by (simp_all add: enc_ok_def)
  have lp: "length (pending ctx) = data_used ctx" using ok by (rule length_pending)
  consider (empty) "inp = []" | (short) "inp \<noteq> []" "48 - data_used ctx > length inp"
    | (fresh) "inp \<noteq> []" "48 - data_used ctx \<le> length inp" "data_used ctx = 0"
    | (fill) "inp \<noteq> []" "48 - data_used ctx \<le> length inp" "data_used ctx \<noteq> 0" by linarith
  then show ?thesis
  proof cases
    case empty
    then show ?thesis using ok used lp
      by (simp add: EVP_EncodeUpdate_def update_result_def nul_terminated_def)
  next
    case short
    then show ?thesis using used lp
      by (simp add: EVP_EncodeUpdate_def update_result_def nul_terminated_def enc_ok_def)
        (simp add: pending_def patch_def)
  next
    case fresh
    then have "pending ctx = []" by (simp add: pending_def)
    moreover have "EVP_EncodeUpdate ctx out inp
        = encode_update_tail ctx (patch out 0 (nul_terminated [])) 0 inp 0"
      using fresh by (simp add: EVP_EncodeUpdate_def nul_terminated_def)
    moreover have "length ([] @ whole_lines inp) < length out"
      using room \<open>pending ctx = []\<close> by simp
    note update_tail [OF ok this small disjI1 [OF refl], unfolded list.size append_Nil]
    ultimately show ?thesis
      unfolding update_result_def Let_def by (simp only: append_Nil simp_thms)
  next
    case fill
    define todo where "todo = 48 - data_used ctx"
    define d where "d = patch (ctx_data ctx) (data_used ctx) (take todo inp)"
    have all: "take 48 (pending ctx @ inp) = d" "drop 48 (pending ctx @ inp) = drop todo inp"
      using fill used by (simp_all add: d_def todo_def patch_def pending_def)
    have d: "length d = 48" using fill used by (simp add: d_def todo_def)
    have len: "48 \<le> length (pending ctx @ inp)" using fill lp used by simp
    note wl = whole_lines_first [OF len, unfolded all]
    let ?x = "b64 d @ [10]"
    have lx: "length ?x = 65" using d by (simp add: length_b64)
    have lb: "length (b64 d) = 64" using d by (simp add: length_b64)
    let ?c = "ctx\<lparr>ctx_data := d, data_used := 0\<rparr>"
    have ok': "enc_ok ?c" using d by (simp add: enc_ok_def)
    have r: "length (?x @ whole_lines (drop todo inp)) < length out" using room unfolding wl .
    have line: "encode_line out 0 d = Some (patch out 0 (nul_terminated ?x), 64)"
      using r d by (simp add: encode_line_b64 length_b64 nul_terminated_def)
    have cp: "copy_to (ctx_data ctx) (data_used ctx) (take todo inp) = Some d"
      using fill used by (simp add: d_def todo_def)
    have "EVP_EncodeUpdate ctx out inp
        = encode_update_tail ?c (patch out 0 (nul_terminated ?x)) (length ?x) (drop todo inp) (length ?x)"
      using fill used cp
      by (simp add: EVP_EncodeUpdate_def todo_def [symmetric] line lb)
    then show ?thesis
      using update_tail [OF ok' r small] lx
      unfolding update_result_def Let_def wl by simp
  qed
qed

lemma EVP_EncodeFinal_result:
  assumes "enc_ok ctx" "length (b64 (pending ctx)) + 1 < length out"
  shows "EVP_EncodeFinal ctx out =
    (if pending ctx = [] then Some (ctx, out, 0)
     else Some (ctx\<lparr>data_used := 0\<rparr>, patch out 0 (b64 (pending ctx) @ [10, 0]),
                length (b64 (pending ctx)) + 1))"
  using assms length_pending [OF assms(1)]
  by (auto simp: EVP_EncodeFinal_def encode_line_b64 pending_def [symmetric])

section \<open>Decoding\<close>

definition quad_bytes :: "u8 \<Rightarrow> u8 \<Rightarrow> u8 \<Rightarrow> u8 \<Rightarrow> u8 list option" where
  "quad_bytes i0 i1 i2 i3 =
    (case (b64_index i0, b64_index i1) of
       (Some a, Some b) \<Rightarrow>
         (case (b64_index i2, b64_index i3) of
            (Some c, Some d) \<Rightarrow>
              Some [byte_of (a * 4 + b div 16), byte_of (b mod 16 * 16 + c div 4), byte_of (c mod 4 * 64 + d)]
          | (Some c, None) \<Rightarrow>
              if i3 = 61 then Some [byte_of (a * 4 + b div 16), byte_of (b mod 16 * 16 + c div 4)] else None
          | (None, None) \<Rightarrow> if i2 = 61 \<and> i3 = 61 then Some [byte_of (a * 4 + b div 16)] else None
          | _ \<Rightarrow> None)
     | _ \<Rightarrow> None)"

fun b64_decode :: "u8 list \<Rightarrow> u8 list option" where
  "b64_decode [] = Some []"
| "b64_decode (i0 # i1 # i2 # i3 # rest) =
    (case quad_bytes i0 i1 i2 i3 of
       None \<Rightarrow> None
     | Some bs \<Rightarrow> if length bs \<noteq> 3 \<and> rest \<noteq> [] then None else map_option ((@) bs) (b64_decode rest))"
| "b64_decode _ = None"

lemma quad_bytes_length: "quad_bytes i0 i1 i2 i3 = Some bs \<Longrightarrow> 1 \<le> length bs \<and> length bs \<le> 3"
  by (auto simp: quad_bytes_def split: option.splits if_splits)

lemma u32_of_four:
  fixes a b c d :: u8
  assumes "unat a < 64" "unat b < 64" "unat c < 64" "unat d < 64"
  shows "unat (push_bit 18 (to_u32 a) OR push_bit 12 (to_u32 b) OR push_bit 6 (to_u32 c) OR to_u32 d)
    = ((unat a * 64 + unat b) * 64 + unat c) * 64 + unat d"
proof -
  let ?d = "to_u32 d" let ?c = "push_bit 6 (to_u32 c) OR ?d"
  let ?b = "push_bit 12 (to_u32 b) OR ?c"
  have 1: "unat ?c = unat c * 64 + unat d"
    using word_join2 [of ?d 6 "to_u32 c"] assms by simp
  have 2: "unat ?b = unat b * 4096 + (unat c * 64 + unat d)"
    using word_join2 [of ?c 12 "to_u32 b"] assms unfolding 1 by simp
  have "unat (push_bit 18 (to_u32 a) OR ?b)
      = unat a * 262144 + (unat b * 4096 + (unat c * 64 + unat d))"
    using word_join2 [of ?b 18 "to_u32 a"] assms unfolding 2 by simp
  then show ?thesis by (simp add: or.assoc)
qed

lemma div_mod_256: "q < 256 \<Longrightarrow> (x * 256 + q) div 256 = x" "q < 256 \<Longrightarrow> (x * 256 + q) mod 256 = (q :: nat)"
  by simp_all

lemma regroup_bytes:
  assumes "b = b1 * 16 + b0" "c = c1 * 4 + (c0 :: nat)"
  shows "((a * 64 + b) * 64 + c) * 64 + d = ((a * 4 + b1) * 256 + (b0 * 16 + c1)) * 256 + (c0 * 64 + d)"
  unfolding assms by (simp add: algebra_simps)

lemma bytes_of_sextets:
  assumes "a < 64" "b < 64" "c < 64" "d < (64 :: nat)" "l = ((a * 64 + b) * 64 + c) * 64 + d"
  shows "l div 65536 mod 256 = a * 4 + b div 16" "l div 256 mod 256 = b mod 16 * 16 + c div 4"
    "l mod 256 = c mod 4 * 64 + d"
    "a * 4 + b div 16 < 256" "b mod 16 * 16 + c div 4 < 256" "c mod 4 * 64 + d < 256"
proof -
  have l: "l = ((a * 4 + b div 16) * 256 + (b mod 16 * 16 + c div 4)) * 256 + (c mod 4 * 64 + d)"
    unfolding assms(5) by (rule regroup_bytes) simp_all
  have join: "x < 64 \<Longrightarrow> y < 4 \<Longrightarrow> x * 4 + y < 256" "x < 16 \<Longrightarrow> y < 16 \<Longrightarrow> x * 16 + y < 256"
    "y < 4 \<Longrightarrow> x < 64 \<Longrightarrow> y * 64 + x < 256" for x y :: nat by simp_all
  have "b div 16 < 4" "c div 4 < 16" using assms(2,3) by (simp_all add: less_mult_imp_div_less)
  then show 1: "a * 4 + b div 16 < 256" and 2: "b mod 16 * 16 + c div 4 < 256"
    and 3: "c mod 4 * 64 + d < 256" using assms(1,4) by (auto intro: join)
  have d: "l div 256 = (a * 4 + b div 16) * 256 + (b mod 16 * 16 + c div 4)"
    unfolding l by (rule div_mod_256(1) [OF 3])
  then show "l div 256 mod 256 = b mod 16 * 16 + c div 4" by (simp only: div_mod_256(2) [OF 2])
  show "l mod 256 = c mod 4 * 64 + d" unfolding l by (rule div_mod_256(2) [OF 3])
  have "l div 65536 = a * 4 + b div 16"
    using div_mult2_eq [of l 256 256] unfolding d div_mod_256(1) [OF 2] by simp
  then show "l div 65536 mod 256 = a * 4 + b div 16" using 1 by simp
qed

lemma quad_word_bytes:
  fixes l :: u32
  assumes "a < 64" "b < 64" "c < 64" "d < (64 :: nat)" "unat l = ((a * 64 + b) * 64 + c) * 64 + d"
  shows "to_u8 (drop_bit 16 l) = byte_of (a * 4 + b div 16)"
    "to_u8 (drop_bit 8 l) = byte_of (b mod 16 * 16 + c div 4)"
    "to_u8 l = byte_of (c mod 4 * 64 + d)"
proof -
  have p: "(2 :: nat) ^ 16 = 65536" "(2 :: nat) ^ 8 = 256" by simp_all
  note s = bytes_of_sextets(1-3) [OF assms]
  show "to_u8 (drop_bit 16 l) = byte_of (a * 4 + b div 16)"
    "to_u8 (drop_bit 8 l) = byte_of (b mod 16 * 16 + c div 4)"
    by (rule byte_of_eqI, simp only: unat_drop_u8 p s)+
  have "unat (to_u8 l) = unat l mod 256"
    using unat_drop_u8 [of 0 l] by (simp only: drop_bit_0 id_apply power_0 div_by_1)
  then show "to_u8 l = byte_of (c mod 4 * 64 + d)"
    by (intro byte_of_eqI) (simp only: s)
qed

lemma ascii_value: 
  "b64_index c = Some n \<Longrightarrow> base64_ascii_to_bin c = byte_of n \<and> byte_of n \<noteq> 0xff \<and> unat (byte_of n) = n"
  using b64_index_less [of c n] by (simp add: base64_ascii_to_bin_index word_unat_eq_iff)

lemma ascii_none: "b64_index c = None \<Longrightarrow> base64_ascii_to_bin c = (if c = 61 then 0 else 0xff)"
  by (simp add: base64_ascii_to_bin_index)

lemma store_run:
  "p + 1 \<le> length out \<Longrightarrow> store_at out p x = Some (patch out p [x])"
  "store_at out p x = None \<longleftrightarrow> \<not> p < length out"
  by (simp_all add: store_at_patch) (simp add: store_at_def)

definition quad_out :: "u8 list \<Rightarrow> nat \<Rightarrow> u8 list \<Rightarrow> (bool \<times> u8 list \<times> nat) option" where
  "quad_out out p bs = (if p + length bs \<le> length out then Some (True, patch out p bs, length bs) else None)"

lemma quad_stores:
  "(do { out \<leftarrow> store_at out p x; Some (True, out, 1) }) = quad_out out p [x]"
  "(do { out \<leftarrow> store_at out p x; out \<leftarrow> store_at out (p + 1) y; Some (True, out, 2) })
    = quad_out out p [x, y]"
  "(do { out \<leftarrow> store_at out p x; out \<leftarrow> store_at out (p + 1) y; out \<leftarrow> store_at out (p + 2) z;
        Some (True, out, 3) }) = quad_out out p [x, y, z]"
proof -
  show "(do { out \<leftarrow> store_at out p x; Some (True, out, 1) }) = quad_out out p [x]"
    by (cases "p < length out") (simp_all add: quad_out_def store_at_patch, simp add: store_at_def)
  show "(do { out \<leftarrow> store_at out p x; out \<leftarrow> store_at out (p + 1) y; Some (True, out, 2) })
    = quad_out out p [x, y]"
    by (cases "p + 1 < length out")
      (simp_all add: quad_out_def store_at_patch patch_append, simp add: store_at_def)
  show "(do { out \<leftarrow> store_at out p x; out \<leftarrow> store_at out (p + 1) y; out \<leftarrow> store_at out (p + 2) z;
        Some (True, out, 3) }) = quad_out out p [x, y, z]"
    by (cases "p + 2 < length out")
      (simp_all add: quad_out_def store_at_patch patch_append, simp add: store_at_def)
qed

lemma quad_valid:
  assumes A: "base64_ascii_to_bin i0 = byte_of a" "base64_ascii_to_bin i1 = byte_of b"
    "base64_ascii_to_bin i2 = byte_of c" "base64_ascii_to_bin i3 = byte_of d"
    and lt: "a < 64" "b < 64" "c < 64" "d < 64"
  shows "base64_decode_quad out p i0 i1 i2 i3 =
    (let x = byte_of (a * 4 + b div 16); y = byte_of (b mod 16 * 16 + c div 4);
         z = byte_of (c mod 4 * 64 + d); pat = padding_pattern i0 i1 i2 i3 in
     if pat = 0 then quad_out out p [x, y, z] else if pat = 1 then quad_out out p [x, y]
     else if pat = 3 then quad_out out p [x] else Some (False, out, 0))"
proof -
  define l where "l = push_bit 18 (to_u32 (byte_of a)) OR push_bit 12 (to_u32 (byte_of b))
    OR push_bit 6 (to_u32 (byte_of c)) OR to_u32 (byte_of d)"
  have "unat l = ((a * 64 + b) * 64 + c) * 64 + d"
    using u32_of_four [of "byte_of a" "byte_of b" "byte_of c" "byte_of d"] lt by (simp add: l_def)
  note w = quad_word_bytes [OF lt this]
  have ff: "byte_of n = 0xff \<longleftrightarrow> False" if "n < 64" for n
    using that by (simp add: word_unat_eq_iff)
  show ?thesis
    unfolding base64_decode_quad_def Let_def A l_def [symmetric] w quad_stores
    by (simp only: ff [OF lt(1)] ff [OF lt(2)] ff [OF lt(3)] ff [OF lt(4)] simp_thms if_False)
qed

text \<open>Every character is a digit, the padding character or invalid.\<close>

lemma ascii_cases:
  obtains (digit) a where "b64_index c = Some a" "a < 64" "base64_ascii_to_bin c = byte_of a" "c \<noteq> 61"
  | (pad) "c = 61" "base64_ascii_to_bin c = byte_of 0" "b64_index c = None"
  | (bad) "b64_index c = None" "c \<noteq> 61" "base64_ascii_to_bin c = 0xff"
proof (cases "b64_index c")
  case None
  then show ?thesis using pad bad ascii_none [of c] by (cases "c = 61") (simp_all add: byte_of_def)
next
  case (Some a)
  moreover from Some have "c \<noteq> 61" by auto
  ultimately show ?thesis using digit b64_index_less [of c a] ascii_value [of c a] by blast
qed

lemma quad_bad:
  assumes "0xff \<in> {base64_ascii_to_bin i0, base64_ascii_to_bin i1, base64_ascii_to_bin i2, base64_ascii_to_bin i3}"
  shows "base64_decode_quad out p i0 i1 i2 i3 = Some (False, out, 0)"
proof -
  have "base64_ascii_to_bin i0 = 0xff \<or> base64_ascii_to_bin i1 = 0xff
    \<or> base64_ascii_to_bin i2 = 0xff \<or> base64_ascii_to_bin i3 = 0xff" using assms by auto
  then show ?thesis by (simp only: base64_decode_quad_def Let_def simp_thms if_True)
qed

lemma base64_decode_quad_bytes:
  "base64_decode_quad out p i0 i1 i2 i3 =
    (case quad_bytes i0 i1 i2 i3 of None \<Rightarrow> Some (False, out, 0) | Some bs \<Rightarrow> quad_out out p bs)"
proof (cases "0xff \<in> {base64_ascii_to_bin i0, base64_ascii_to_bin i1, base64_ascii_to_bin i2, base64_ascii_to_bin i3}")
  case True
  have "b64_index c = None \<and> c \<noteq> 61" if "base64_ascii_to_bin c = 0xff" for c
    by (cases c rule: ascii_cases) (use that in \<open>auto simp: word_unat_eq_iff\<close>)
  then have "quad_bytes i0 i1 i2 i3 = None"
    using True unfolding quad_bytes_def by (auto split: option.split)
  then show ?thesis using quad_bad [OF True] by simp
next
  case False
  show ?thesis
    apply (cases i0 rule: ascii_cases; cases i1 rule: ascii_cases; cases i2 rule: ascii_cases;
      cases i3 rule: ascii_cases)
    using False
    by (simp_all add: quad_valid quad_bytes_def Let_def padding_pattern_def)
qed

lemma quad_out_simps [simp]:
  "p + length bs \<le> length out \<Longrightarrow> quad_out out p bs = Some (True, patch out p bs, length bs)"
  by (simp add: quad_out_def)

lemma quad_roundtrip:
  "quad_bytes (b64_char (unat a div 4)) (b64_char (unat a mod 4 * 16 + unat b div 16))
     (b64_char (unat b mod 16 * 4 + unat c div 64)) (b64_char (unat c mod 64)) = Some [a, b, c]"
  "quad_bytes (b64_char (unat a div 4)) (b64_char (unat a mod 4 * 16 + unat b div 16))
     (b64_char (unat b mod 16 * 4)) 61 = Some [a, b]"
  "quad_bytes (b64_char (unat a div 4)) (b64_char (unat a mod 4 * 16)) 61 61 = Some [a]"
proof -
  have lt: "unat a < 256" "unat b < 256" "unat c < 256" by simp_all
  have d: "x div 4 < 64" "x div 16 < 16" "x div 64 < 4" if "x < 256" for x :: nat
    using that by (simp_all add: less_mult_imp_div_less)
  have m: "x mod 4 < 4" "x mod 16 < 16" for x :: nat by simp_all
  have join: "x < 4 \<Longrightarrow> y < 16 \<Longrightarrow> x * 16 + y < 64" "y < 16 \<Longrightarrow> x < 4 \<Longrightarrow> y * 4 + x < 64"
    "x < 4 \<Longrightarrow> x * 16 < 64" "y < 16 \<Longrightarrow> y * 4 < 64" for x y :: nat by simp_all
  have idx: "b64_index (b64_char (unat a div 4)) = Some (unat a div 4)"
    "b64_index (b64_char (unat a mod 4 * 16 + unat b div 16)) = Some (unat a mod 4 * 16 + unat b div 16)"
    "b64_index (b64_char (unat b mod 16 * 4 + unat c div 64)) = Some (unat b mod 16 * 4 + unat c div 64)"
    "b64_index (b64_char (unat c mod 64)) = Some (unat c mod 64)"
    "b64_index (b64_char (unat a mod 4 * 16)) = Some (unat a mod 4 * 16)"
    "b64_index (b64_char (unat b mod 16 * 4)) = Some (unat b mod 16 * 4)"
    using d [OF lt(1)] d [OF lt(2)] d [OF lt(3)] by (auto intro!: b64_index_char join m)
  have j16: "(x * 16 + y) div 16 = x" "(x * 16 + y) mod 16 = y" if "y < 16" for x y :: nat
    using that by simp_all
  have j4: "(x * 4 + y) div 4 = x" "(x * 4 + y) mod 4 = y" if "y < 4" for x y :: nat
    using that by simp_all
  note lo = j16 [OF d(2) [OF lt(2)]] j4 [OF d(3) [OF lt(3)]]
  have zero: "(x * 16) div 16 = x" "x * 16 mod 16 = 0" "(x * 4) div 4 = x" "x * 4 mod 4 = 0" for x :: nat
    by simp_all
  show "quad_bytes (b64_char (unat a div 4)) (b64_char (unat a mod 4 * 16 + unat b div 16))
     (b64_char (unat b mod 16 * 4 + unat c div 64)) (b64_char (unat c mod 64)) = Some [a, b, c]"
    by (simp only: quad_bytes_def idx prod.case option.case lo div_mult_mod_eq byte_of_unat)
  show "quad_bytes (b64_char (unat a div 4)) (b64_char (unat a mod 4 * 16 + unat b div 16))
     (b64_char (unat b mod 16 * 4)) 61 = Some [a, b]"
    by (simp only: quad_bytes_def idx prod.case option.case lo zero div_mult_mod_eq byte_of_unat
        b64_index_equals if_True simp_thms)
  show "quad_bytes (b64_char (unat a div 4)) (b64_char (unat a mod 4 * 16)) 61 61 = Some [a]"
    by (simp only: quad_bytes_def idx prod.case option.case zero div_mult_mod_eq byte_of_unat
        b64_index_equals if_True simp_thms)
qed

lemma b64_decode_b64: "b64_decode (b64 xs) = Some xs"
  by (induction xs rule: b64.induct) (simp_all add: quad_roundtrip)

lemma b64_decode_length:
  "b64_decode inp = Some bs \<Longrightarrow> length bs \<le> length inp div 4 * 3 \<and> length inp mod 4 = 0"
proof (induction inp arbitrary: bs rule: b64_decode.induct)
  case (2 i0 i1 i2 i3 rest)
  then obtain qs ds where q: "quad_bytes i0 i1 i2 i3 = Some qs" "bs = qs @ ds" "b64_decode rest = Some ds"
    by (auto split: option.splits if_splits)
  with 2(1) [OF q(1) _ q(3)] 2(2) quad_bytes_length [OF q(1)] show ?case
    by (auto split: if_splits)
qed simp_all

lemma decode_base64_loop_spec:
  assumes "p + length inp div 4 * 3 \<le> length out" "length inp mod 4 = 0"
  shows "\<exists>out' n'. decode_base64_loop out p n inp =
    Some (case b64_decode inp of None \<Rightarrow> (False, out', n') | Some bs \<Rightarrow> (True, patch out p bs, n + length bs))
    \<and> length out' = length out"
  using assms
proof (induction inp arbitrary: out p n rule: b64_decode.induct)
  case (2 i0 i1 i2 i3 rest)
  show ?case
  proof (cases "quad_bytes i0 i1 i2 i3")
    case None
    then show ?thesis by (simp add: base64_decode_quad_bytes)
  next
    case (Some qs)
    note q = quad_bytes_length [OF Some]
    have len: "length (i0 # i1 # i2 # i3 # rest) div 4 * 3 = 3 + length rest div 4 * 3"
      by (simp add: div_add_self1)
    show ?thesis
    proof (cases "length qs \<noteq> 3 \<and> rest \<noteq> []")
      case True
      with Some q 2(2) len show ?thesis by (auto simp: base64_decode_quad_bytes)
    next
      case False
      have fits: "p + length qs \<le> length out" using 2(2) q len by linarith
      have "p + length qs + length rest div 4 * 3 \<le> length (patch out p qs)" "length rest mod 4 = 0"
        using False 2(2,3) q len fits by auto
      from 2(1) [OF Some False this, of "n + length qs"] show ?thesis
        using False Some fits 2(2) len b64_decode_length [of rest]
        by (auto simp: base64_decode_quad_bytes patch_append split: option.splits)
    qed
  qed
qed auto

lemma EVP_DecodeBase64_spec:
  assumes "max_out \<le> length out"
  shows "\<exists>out'. EVP_DecodeBase64 out max_out inp =
    Some (case (if max_out < length inp div 4 * 3 then None else b64_decode inp) of
            None \<Rightarrow> (False, out', 0)
          | Some bs \<Rightarrow> (True, patch out 0 bs, length bs))
    \<and> length out' = length out"
proof (cases "length inp mod 4 = 0 \<and> \<not> max_out < length inp div 4 * 3")
  case True
  with assms have "0 + length inp div 4 * 3 \<le> length out" "length inp mod 4 = 0" by auto
  from decode_base64_loop_spec [OF this, of 0] True show ?thesis
    by (auto simp: EVP_DecodeBase64_def EVP_DecodedLength_def split: option.splits)
next
  case False
  then show ?thesis using b64_decode_length [of inp] by (cases "b64_decode inp")
    (auto simp: EVP_DecodeBase64_def EVP_DecodedLength_def split: option.splits)
qed

lemma b64_decode_length_lower:
  "b64_decode inp = Some bs \<Longrightarrow> length inp div 4 * 3 < length bs + 3"
proof (induction inp arbitrary: bs rule: b64_decode.induct)
  case (2 i0 i1 i2 i3 rest)
  then obtain qs ds where q: "quad_bytes i0 i1 i2 i3 = Some qs" "bs = qs @ ds" "b64_decode rest = Some ds"
    and three: "length qs = 3 \<or> rest = []"
    by (auto split: option.splits if_splits)
  have "length (i0 # i1 # i2 # i3 # rest) div 4 * 3 = 3 + length rest div 4 * 3"
    by (simp add: div_add_self1)
  moreover have "length rest div 4 * 3 < length ds + 3" using three q 2(1) [OF q(1) _ q(3)] by auto
  ultimately show ?case using three q quad_bytes_length [OF q(1)] by auto
qed simp_all

lemma pad_to_3_zeros:
  "n \<le> m \<Longrightarrow> m < n + 3 \<Longrightarrow> m mod 3 = 0 \<Longrightarrow> m \<le> length dst \<Longrightarrow>
    pad_to_3 dst n = Some (patch dst n (replicate (m - n) 0), m)"
proof (induction "m - n" arbitrary: n dst)
  case 0
  then show ?case by (subst pad_to_3.simps) simp
next
  case (Suc k)
  then have lt: "n < m" by simp
  then have "n mod 3 \<noteq> 0" using Suc.prems by presburger
  moreover have "pad_to_3 (patch dst n [0]) (Suc n)
      = Some (patch (patch dst n [0]) (Suc n) (replicate (m - Suc n) 0), m)"
    using Suc lt by (intro Suc.hyps(1)) simp_all
  moreover have "m - n = Suc (m - Suc n)" using lt by simp
  ultimately show ?case using lt Suc.prems
    by (subst pad_to_3.simps) (simp add: store_at_patch patch_append)
qed

definition decode_block_result :: "u8 list \<Rightarrow> u8 list option" where
  "decode_block_result src =
    (let s = trim_block src; n = length s div 4 * 3 in
     if n > INT_MAX then None
     else map_option (\<lambda>bs. bs @ replicate (n - length bs) 0) (b64_decode s))"

lemma EVP_DecodeBlock_spec:
  assumes room: "length (trim_block src) div 4 * 3 \<le> length dst"
  shows "\<exists>out'. EVP_DecodeBlock dst src =
    Some (case decode_block_result src of None \<Rightarrow> (-1, out')
          | Some bs \<Rightarrow> (int (length bs), patch dst 0 bs))
    \<and> length out' = length dst"
proof -
  define s where "s = trim_block src"
  define n where "n = length s div 4 * 3"
  note len = b64_decode_length [of s] b64_decode_length_lower [of s]
  obtain out' where out': "length out' = length dst"
    and d: "EVP_DecodeBase64 dst n s = Some (case b64_decode s of None \<Rightarrow> (False, out', 0)
      | Some bs \<Rightarrow> (True, patch dst 0 bs, length bs))"
    using EVP_DecodeBase64_spec [of n dst s] room by (auto simp: n_def s_def)
  show ?thesis
  proof (cases "b64_decode s")
    case None
    then show ?thesis using d out'
      by (auto simp: EVP_DecodeBlock_def EVP_DecodedLength_def decode_block_result_def Let_def
          s_def [symmetric] n_def)
  next
    case (Some bs)
    then have l: "length s mod 4 = 0" "length bs \<le> n" "n < length bs + 3" using len by (auto simp: n_def)
    have "pad_to_3 (patch dst 0 bs) (length bs)
        = Some (patch (patch dst 0 bs) (length bs) (replicate (n - length bs) 0), n)"
      using l room by (intro pad_to_3_zeros) (simp_all add: n_def s_def)
    also have "patch (patch dst 0 bs) (length bs) (replicate (n - length bs) 0)
        = patch dst 0 (bs @ replicate (n - length bs) 0)"
      using l room by (intro patch_append) (simp_all add: n_def s_def)
    finally show ?thesis using Some d l out'
      by (auto simp: EVP_DecodeBlock_def EVP_DecodedLength_def decode_block_result_def Let_def
          s_def [symmetric] n_def)
  qed
qed

section \<open>Streaming decoder\<close>

lemma decode_update_loop_filter:
  "decode_update_loop ctx out p n inp = decode_update_loop ctx out p n (filter (\<lambda>c. \<not> is_b64_space c) inp)"
proof (induction inp arbitrary: ctx out p n)
  case (Cons c inp)
  then show ?case by (simp add: Let_def cong: if_cong prod.case_cong flip: Cons.IH)
qed simp

definition fresh :: "evp_encode_ctx \<Rightarrow> bool" where
  "fresh ctx \<longleftrightarrow> data_used ctx = 0 \<and> length (ctx_data ctx) = 48 \<and> \<not> eof_seen ctx \<and> \<not> error_encountered ctx"

lemma decode_update_loop_quad:
  assumes "fresh ctx" "\<forall>c \<in> {c0, c1, c2, c3}. \<not> is_b64_space c"
  shows "\<exists>d. length d = 48 \<and> decode_update_loop ctx out p n (c0 # c1 # c2 # c3 # inp) =
    (case quad_bytes c0 c1 c2 c3 of
       None \<Rightarrow> Some (False, ctx\<lparr>ctx_data := d, data_used := 4, error_encountered := True\<rparr>, out, n)
     | Some bs \<Rightarrow> if p + length bs \<le> length out then
           decode_update_loop (ctx\<lparr>ctx_data := d, data_used := 0, eof_seen := length bs < 3\<rparr>)
             (patch out p bs) (p + length bs) (n + length bs) inp
         else None)"
  using assms
  by (intro exI [of _ "(ctx_data ctx)[0 := c0, 1 := c1, 2 := c2, 3 := c3]"], cases ctx)
     (auto simp: fresh_def store_at_def Let_def base64_decode_quad_bytes quad_out_def
        numeral_2_eq_2 numeral_3_eq_3 split: option.split)

definition stream_end :: "u8 list \<Rightarrow> u8 list \<Rightarrow> (bool \<times> evp_encode_ctx \<times> u8 list \<times> nat) option \<Rightarrow> nat \<Rightarrow> nat \<Rightarrow> bool" where
  "stream_end out cs r p n \<longleftrightarrow>
    (case r of None \<Rightarrow> False | Some (ok, ctx', out', n') \<Rightarrow> length out' = length out \<and>
      (case b64_decode cs of
         Some bs \<Rightarrow> ok \<and> data_used ctx' = 0 \<and> \<not> error_encountered ctx' \<and> out' = patch out p bs
           \<and> n' = n + length bs \<and> eof_seen ctx' = (length bs mod 3 \<noteq> 0)
       | None \<Rightarrow> if ok then data_used ctx' \<noteq> 0 else error_encountered ctx'))"

lemma decode_update_loop_few:
  assumes "fresh ctx" "\<forall>c \<in> set cs. \<not> is_b64_space c" "length cs < 4"
  shows "\<exists>d. decode_update_loop ctx out p n cs = Some (True, ctx\<lparr>ctx_data := d, data_used := length cs\<rparr>, out, n)"
  using assms
  by (cases cs rule: b64_decode.cases; cases ctx) (auto simp: fresh_def store_at_def Let_def)

lemma stream_end_few:
  assumes "fresh ctx" "\<forall>c \<in> set cs. \<not> is_b64_space c" "length cs < 4" "b64_decode cs = None" "cs \<noteq> []"
  shows "stream_end out cs (decode_update_loop ctx out p n cs) p n"
  using decode_update_loop_few [OF assms(1-3), of out p n] assms(4,5) by (auto simp: stream_end_def)

lemma decode_update_loop_spec:
  assumes "fresh ctx" "\<forall>c \<in> set cs. \<not> is_b64_space c" "p + length cs div 4 * 3 \<le> length out"
  shows "stream_end out cs (decode_update_loop ctx out p n cs) p n"
  using assms
proof (induction cs arbitrary: ctx out p n rule: b64_decode.induct)
  case (2 c0 c1 c2 c3 rest)
  have sp: "\<forall>c \<in> {c0, c1, c2, c3}. \<not> is_b64_space c" using 2(3) by simp
  have len: "length (c0 # c1 # c2 # c3 # rest) div 4 * 3 = 3 + length rest div 4 * 3"
    by (simp add: div_add_self1)
  obtain d where d: "length d = 48" and run: "decode_update_loop ctx out p n (c0 # c1 # c2 # c3 # rest) =
    (case quad_bytes c0 c1 c2 c3 of
       None \<Rightarrow> Some (False, ctx\<lparr>ctx_data := d, data_used := 4, error_encountered := True\<rparr>, out, n)
     | Some bs \<Rightarrow> if p + length bs \<le> length out then
           decode_update_loop (ctx\<lparr>ctx_data := d, data_used := 0, eof_seen := length bs < 3\<rparr>)
             (patch out p bs) (p + length bs) (n + length bs) rest
         else None)"
    using decode_update_loop_quad [OF 2(2) sp] by blast
  show ?case
  proof (cases "quad_bytes c0 c1 c2 c3")
    case None
    then show ?thesis unfolding run by (auto simp: stream_end_def)
  next
    case (Some qs)
    note q = quad_bytes_length [OF Some]
    have fits: "p + length qs \<le> length out" using 2(4) q len by linarith
    let ?c = "ctx\<lparr>ctx_data := d, data_used := 0, eof_seen := length qs < 3\<rparr>"
    show ?thesis
    proof (cases "length qs = 3")
      case True
      have "\<not> (length qs \<noteq> 3 \<and> rest \<noteq> [])" "fresh ?c" "\<forall>c \<in> set rest. \<not> is_b64_space c"
        "p + length qs + length rest div 4 * 3 \<le> length (patch out p qs)"
        using True 2(2,3,4) len fits d by (simp_all add: fresh_def)
      from 2(1) [OF Some this, of "n + length qs"] show ?thesis
        using True Some fits 2(4) len b64_decode_length [of rest]
        unfolding run by (auto simp: stream_end_def patch_append split: option.splits)
    next
      case False
      show ?thesis
      proof (cases rest)
        case Nil
        then show ?thesis using False Some fits q 2(2) unfolding run by (auto simp: stream_end_def fresh_def)
      next
        case (Cons c rest')
        then show ?thesis using False Some fits q 2(2,3) unfolding run by (auto simp: stream_end_def fresh_def)
      qed
    qed
  qed
qed (simp add: stream_end_def fresh_def, (rule stream_end_few; simp)+)

lemma EVP_DecodeUpdate_spec:
  assumes "fresh ctx" "cs = filter (\<lambda>c. \<not> is_b64_space c) inp" "length cs div 4 * 3 \<le> length out"
    "length cs div 4 * 3 \<le> INT_MAX"
  shows "\<exists>rv ctx' out' n. EVP_DecodeUpdate ctx out inp = Some (rv, ctx', out', n) \<and> length out' = length out \<and>
    (case b64_decode cs of
       Some bs \<Rightarrow> EVP_DecodeFinal ctx' = 1 \<and> out' = patch out 0 bs \<and> n = length bs
         \<and> rv = (if length bs mod 3 = 0 then 1 else 0)
     | None \<Rightarrow> EVP_DecodeFinal ctx' = -1)"
proof -
  have "stream_end out cs (decode_update_loop ctx out 0 0 inp) 0 0"
    using decode_update_loop_spec [OF assms(1), of cs 0 out 0] assms(2,3)
      decode_update_loop_filter [of ctx out 0 0 inp] by simp
  then obtain ok ctx' out' n' where r: "decode_update_loop ctx out 0 0 inp = Some (ok, ctx', out', n')"
    "length out' = length out" and c: "case b64_decode cs of
         Some bs \<Rightarrow> ok \<and> data_used ctx' = 0 \<and> \<not> error_encountered ctx' \<and> out' = patch out 0 bs
           \<and> n' = 0 + length bs \<and> eof_seen ctx' = (length bs mod 3 \<noteq> 0)
       | None \<Rightarrow> if ok then data_used ctx' \<noteq> 0 else error_encountered ctx'"
    unfolding stream_end_def by (auto split: option.splits)
  have upd: "EVP_DecodeUpdate ctx out inp =
      (if \<not> ok then Some (-1, ctx', out', 0)
       else if n' > INT_MAX then Some (-1, ctx'\<lparr>error_encountered := True\<rparr>, out', 0)
       else Some (if eof_seen ctx' then 0 else 1, ctx', out', n'))"
    using assms(1) by (simp add: EVP_DecodeUpdate_def fresh_def r)
  show ?thesis
  proof (cases "b64_decode cs")
    case None
    consider "\<not> ok" | "ok" "n' > INT_MAX" | "ok" "\<not> n' > INT_MAX" by blast
    then show ?thesis using c None r(2) by cases (auto simp: upd EVP_DecodeFinal_def)
  next
    case (Some bs)
    then have "\<not> n' > INT_MAX" using c b64_decode_length [of cs] assms(4) by simp
    then show ?thesis using c Some r(2) by (auto simp: upd EVP_DecodeFinal_def)
  qed
qed

section \<open>The length of an encoding\<close>

lemma EVP_EncodedLength_spec:
  assumes "n < 2 ^ 64"
  shows "EVP_EncodedLength (word_of_nat n) =
    (let k = 4 * ((n + 2) div 3) + 1 in if k < 2 ^ 64 then Some (word_of_nat k) else None)"
proof (cases "n + 2 < 2 ^ 64")
  case False
  let ?w = "word_of_nat n :: u64"
  have w: "unat ?w = n" using assms by simp
  have "unat (?w + 2) = (n + 2) mod 2 ^ 64" by (simp add: unat_word_ariths w)
  also have "\<dots> = n + 2 - 2 ^ 64" using False assms by (simp add: mod_if)
  finally have "?w + 2 < ?w" using False assms by (simp add: word_less_nat_alt w)
  moreover have "\<not> 4 * ((n + 2) div 3) + 1 < 2 ^ 64" using False by simp
  ultimately show ?thesis by (simp add: EVP_EncodedLength_def)
next
  case True
  let ?w = "word_of_nat n :: u64" and ?q = "(n + 2) div 3"
  have w2: "unat (?w + 2) = n + 2" using True assms by (simp add: unat_word_ariths)
  have nw: "\<not> ?w + 2 < ?w" using assms by (simp add: word_less_nat_alt w2)
  have q: "unat ((?w + 2) div 3) = ?q" by (simp add: unat_div w2)
  have "?q < 2 ^ 63" using True by simp
  define x where "x = (?w + 2) div 3"
  have px: "unat (push_bit 2 x) = 4 * ?q mod 2 ^ 64"
    by (simp only: unsigned_push_bit_eq x_def q) (simp add: push_bit_eq_mult take_bit_eq_mod mult.commute)
  have dx: "unat (drop_bit 2 (push_bit 2 x)) = 4 * ?q mod 2 ^ 64 div 4"
    using px by (simp add: drop_bit_eq_div unat_div)
  have xq: "unat x = ?q" using q by (simp add: x_def)
  show ?thesis
  proof (cases "4 * ?q < 2 ^ 64")
    case small: True
    then have "?q < 2 ^ 62" by simp
    then have one: "4 * ?q + 1 < 2 ^ 64" by simp
    have "drop_bit 2 (push_bit 2 x) = x"
      by (rule word_unat_eq_iff [THEN iffD2]) (use small in \<open>simp add: dx xq\<close>)
    moreover have u: "unat (push_bit 2 x + 1) = 4 * ?q + 1"
      using one px small by (simp add: unat_word_ariths)
    moreover have "\<not> push_bit 2 x + 1 < push_bit 2 x"
      using px small u by (simp add: word_less_nat_alt)
    moreover have "push_bit 2 x + 1 = word_of_nat (4 * ?q + 1)"
      by (subst u [symmetric]) simp
    moreover note one
    ultimately show ?thesis
      using nw by (simp add: EVP_EncodedLength_def x_def)
  next
    case False
    have "drop_bit 2 (push_bit 2 x) \<noteq> x"
    proof
      assume "drop_bit 2 (push_bit 2 x) = x"
      then have "4 * ?q mod 2 ^ 64 div 4 = ?q" using dx xq by simp
      moreover have "4 * ?q mod 2 ^ 64 div 4 < (2 :: nat) ^ 62" by (simp add: less_mult_imp_div_less)
      ultimately have "?q < 2 ^ 62" by linarith
      then show False using False by simp
    qed
    then show ?thesis using nw False by (simp add: EVP_EncodedLength_def x_def)
  qed
qed

end
