(* ===== verification/Base64Props.thy ===== *)
theory Base64Props
  imports Base64Facts
begin

text \<open>
  The properties of the base64 coder: what the block functions write, the round trip, the
  streaming interfaces against the block specification, and the lengths they announce.
\<close>

text \<open>A context as the allocator may leave it, for the witnesses.\<close>

definition sample_ctx :: evp_encode_ctx where
  "sample_ctx = \<lparr>data_used = 9, ctx_data = [], eof_seen = True, error_encountered = True\<rparr>"

text \<open>
  C28. \<open>EVP_EncodeBlock\<close> writes exactly the RFC 4648 encoding of its input and a NUL
  byte, and returns the length of the encoding; it leaves its destination exactly when the
  destination is shorter than that.
\<close>
theorem encode_block_exact:
  "EVP_EncodeBlock dst p src =
    (if p + length (b64 src) < length dst
     then Some (patch dst p (b64 src @ [0]), length (b64 src)) else None)"
  by (rule EVP_EncodeBlock_b64)

text \<open>
  \<open>EVP_EncodedLength\<close> announces the exact size of the destination
  \<open>EVP_EncodeBlock\<close> needs, its NUL included, and fails exactly when that size does not
  fit a \<open>size_t\<close>.
\<close>
theorem encoded_length_exact:
  assumes "length src < 2 ^ 64"
  shows "EVP_EncodedLength (word_of_nat (length src)) =
    (if length (b64 src) + 1 < 2 ^ 64 then Some (word_of_nat (length (b64 src) + 1)) else None)"
  using EVP_EncodedLength_spec [OF assms] by (simp only: length_b64 Let_def)

theorem encoded_length_exact_witness:
  "EVP_EncodedLength (word_of_nat (length [1, 2, 3, 4 :: u8])) = Some 9"
  using encoded_length_exact [of "[1, 2, 3, 4]"] by simp

text \<open>
  C12. What \<open>EVP_EncodeBlock\<close> wrote is decoded by \<open>EVP_DecodeBase64\<close> to the
  bytes that were encoded, into any destination of the announced size.
\<close>
theorem base64_roundtrip:
  assumes "EVP_EncodeBlock buf 0 src = Some (buf', n)"
    and "length (b64 src) div 4 * 3 \<le> max_out" "max_out \<le> length out"
  shows "EVP_DecodeBase64 out max_out (take n buf') = Some (True, patch out 0 src, length src)"
proof -
  have "n = length (b64 src)" "buf' = patch buf 0 (b64 src @ [0])" "length (b64 src) < length buf"
    using assms(1) by (auto simp: EVP_EncodeBlock_b64 split: if_splits)
  then have "take n buf' = b64 src" by (simp add: patch_def)
  then show ?thesis
    using EVP_DecodeBase64_spec [OF assms(3), of "b64 src"] assms(2) by (auto simp: b64_decode_b64)
qed

theorem base64_roundtrip_witness:
  "EVP_DecodeBase64 [9, 9, 9, 9, 9, 9] 6 (take 8 (b64 [0, 255, 7, 8] @ [0]))
    = Some (True, [0, 255, 7, 8, 9, 9], 4)"
proof -
  have "EVP_EncodeBlock (replicate 9 1) 0 [0, 255, 7, 8] = Some (b64 [0, 255, 7, 8] @ [0], 8)"
    by (simp add: EVP_EncodeBlock_b64 patch_def)
  from base64_roundtrip [OF this, of 6 "[9, 9, 9, 9, 9, 9]"] show ?thesis
    by (simp add: patch_def)
qed

text \<open>
  C14. \<open>EVP_DecodeBase64\<close> accepts exactly the texts of the specification (groups of four
  characters, padding in the last group only), if the announced decoded length fits
  \<open>max_out\<close>; on every other input it fails with no bytes reported, and on no input does
  it store outside the \<open>max_out\<close> bytes it was given.
\<close>
theorem decode_base64_exact:
  assumes "max_out \<le> length out"
  shows "\<exists>out'. EVP_DecodeBase64 out max_out inp =
    Some (case (if max_out < length inp div 4 * 3 then None else b64_decode inp) of
            None \<Rightarrow> (False, out', 0)
          | Some bs \<Rightarrow> (True, patch out 0 bs, length bs))
    \<and> length out' = length out"
  by (rule EVP_DecodeBase64_spec [OF assms])

theorem decode_base64_exact_witness:
  "fst (the (EVP_DecodeBase64 [0, 0, 0, 0, 0, 0] 6 [65, 65, 61, 61, 65, 65, 65, 65])) = False"
  using decode_base64_exact [of 6 "[0, 0, 0, 0, 0, 0]" "[65, 65, 61, 61, 65, 65, 65, 65]"]
  by (auto simp: quad_bytes_def b64_index_def)

text \<open>
  C15. Streaming encoder: two calls of \<open>EVP_EncodeUpdate\<close>, the second writing after
  what the first reported, leave the same lines and the same pending bytes as one call on the
  concatenated input, however the input is cut.
\<close>
theorem encode_update_chunks:
  assumes "enc_ok ctx" "length (whole_lines (pending ctx @ xs @ ys)) < length out"
    "length out < 2 ^ 31"
  shows "\<exists>c1 c2 c o1 o2 n1 n2 lns.
    EVP_EncodeUpdate ctx out xs = Some (c1, o1, n1)
    \<and> EVP_EncodeUpdate c1 (drop n1 o1) ys = Some (c2, o2, n2)
    \<and> EVP_EncodeUpdate ctx out (xs @ ys) = Some (c, patch out 0 (nul_terminated lns), n1 + n2)
    \<and> take n1 o1 @ take n2 o2 = lns \<and> length lns = n1 + n2
    \<and> pending c2 = pending c \<and> enc_ok c2"
proof -
  let ?l1 = "whole_lines (pending ctx @ xs)" and ?r1 = "line_rest (pending ctx @ xs)"
  note wl = whole_lines_append(1) [of "pending ctx @ xs" ys, unfolded append_assoc]
  note lr = whole_lines_append(2) [of "pending ctx @ xs" ys, unfolded append_assoc]
  have small: "length out < 2 ^ 64" using assms(3) by simp
  have room: "length ?l1 + length (whole_lines (?r1 @ ys)) < length out"
    using assms(2) unfolding wl by (simp only: length_append)
  have "\<not> INT_MAX < n" if "n < length out" for n using that assms(3) by (simp add: INT_MAX_def)
  then have max: "\<not> INT_MAX < length ?l1" "\<not> INT_MAX < length (whole_lines (?r1 @ ys))"
    "\<not> INT_MAX < length (whole_lines (pending ctx @ xs @ ys))"
    using room assms(2) by (meson add_lessD1 le_add2 le_less_trans)+
  have room1: "length ?l1 < length out" using room by linarith
  obtain c1 where 1: "EVP_EncodeUpdate ctx out xs
      = Some (c1, patch out 0 (nul_terminated ?l1), length ?l1)" "enc_ok c1" "pending c1 = ?r1"
    using EVP_EncodeUpdate_result [OF assms(1) room1 small] max(1)
    by (auto simp only: update_result_def Let_def if_False)
  let ?o = "drop (length ?l1) (patch out 0 (nul_terminated ?l1))"
  have lo: "length ?o = length out - length ?l1"
    using room1 by (simp add: nul_terminated_def)
  have room2: "length (whole_lines (pending c1 @ ys)) < length ?o"
    unfolding lo 1(3) using room by linarith
  have small2: "length ?o < 2 ^ 64" unfolding lo using small by linarith
  obtain c2 where 2: "EVP_EncodeUpdate c1 ?o ys
      = Some (c2, patch ?o 0 (nul_terminated (whole_lines (?r1 @ ys))), length (whole_lines (?r1 @ ys)))"
    "enc_ok c2" "pending c2 = line_rest (?r1 @ ys)"
    using EVP_EncodeUpdate_result [OF 1(2) room2 small2] max(2)
    by (auto simp only: update_result_def Let_def if_False 1(3))
  obtain c where 3: "EVP_EncodeUpdate ctx out (xs @ ys)
      = Some (c, patch out 0 (nul_terminated (?l1 @ whole_lines (?r1 @ ys))),
              length (?l1 @ whole_lines (?r1 @ ys)))" "pending c = line_rest (?r1 @ ys)"
    using EVP_EncodeUpdate_result [OF assms(1,2) small] max(3)
    by (auto simp only: update_result_def Let_def if_False wl lr)
  have t: "take (length w) (patch o' 0 (nul_terminated w)) = w" for w o' :: "u8 list"
    by (simp add: nul_terminated_def patch_def)
  show ?thesis
    using 1(1) 2 3 t by (intro exI conjI) (assumption | simp only: length_append)+
qed

theorem encode_update_chunks_witness:
  "\<exists>c1 c2 c o1 o2 n1 n2 lns. let ctx = EVP_EncodeInit sample_ctx; out = replicate 100 7 in
    EVP_EncodeUpdate ctx out (replicate 30 1) = Some (c1, o1, n1)
    \<and> EVP_EncodeUpdate c1 (drop n1 o1) (replicate 30 2) = Some (c2, o2, n2)
    \<and> EVP_EncodeUpdate ctx out (replicate 30 1 @ replicate 30 2)
        = Some (c, patch out 0 (nul_terminated lns), n1 + n2)
    \<and> take n1 o1 @ take n2 o2 = lns \<and> length lns = n1 + n2 \<and> pending c2 = pending c \<and> enc_ok c2"
proof -
  have ok: "enc_ok (EVP_EncodeInit sample_ctx)" and p: "pending (EVP_EncodeInit sample_ctx) = []"
    by (simp_all add: enc_ok_def pending_def EVP_EncodeInit_def)
  have "length (whole_lines ([] @ replicate 30 1 @ replicate 30 2)) < length (replicate 100 (7 :: u8))"
    by (simp add: length_b64_lines length_b64)
  from encode_update_chunks [OF ok this [folded p]] show ?thesis by (simp add: Let_def)
qed

text \<open>
  C7. Streaming decoder: a call of \<open>EVP_DecodeUpdate\<close> on a fresh context followed by
  \<open>EVP_DecodeFinal\<close> accepts exactly the inputs whose characters other than blanks,
  tabs and line ends form a text of the specification; it then has written exactly its bytes and
  reports by 0 that the padded end was seen. It never stores outside a destination of three
  bytes for every four characters.
\<close>
theorem decode_stream_exact:
  assumes "cs = filter (\<lambda>c. \<not> is_b64_space c) inp" "length cs div 4 * 3 \<le> length out"
    "length cs div 4 * 3 \<le> INT_MAX"
  shows "\<exists>rv ctx' out' n. EVP_DecodeUpdate (EVP_DecodeInit ctx) out inp = Some (rv, ctx', out', n)
    \<and> length out' = length out \<and>
    (case b64_decode cs of
       Some bs \<Rightarrow> EVP_DecodeFinal ctx' = 1 \<and> out' = patch out 0 bs \<and> n = length bs
         \<and> rv = (if length bs mod 3 = 0 then 1 else 0)
     | None \<Rightarrow> EVP_DecodeFinal ctx' = -1)"
  using assms by (intro EVP_DecodeUpdate_spec) (simp_all add: fresh_def EVP_DecodeInit_def)

theorem decode_stream_exact_witness:
  "\<exists>ctx'. EVP_DecodeUpdate (EVP_DecodeInit sample_ctx) [0, 0, 0] [81, 10, 85, 32, 74, 61]
     = Some (0, ctx', [65, 66, 0], 2) \<and> EVP_DecodeFinal ctx' = 1"
proof -
  have sp: "filter (\<lambda>c. \<not> is_b64_space c) [81, 10, 85, 32, 74, 61] = [81, 85, 74, 61]"
    by (simp add: is_b64_space_def)
  have q: "b64_decode [81, 85, 74, 61] = Some [65, 66]"
    by (simp add: quad_bytes_def b64_index_def byte_of_def)
  show ?thesis
    using decode_stream_exact [OF sp [symmetric], of "[0, 0, 0]" sample_ctx] unfolding q
    by (auto simp: patch_def INT_MAX_def)
qed

text \<open>
  C27. \<open>EVP_DecodeBlock\<close> trims blanks, decodes, and returns the number of decoded bytes
  with the padding counted as zero bytes, which it stores; it returns -1 exactly when the
  trimmed input is not a text of the specification or too long for an \<open>int\<close>, and it
  never stores outside a destination of three bytes for every four characters.
\<close>
theorem decode_block_exact:
  assumes "length (trim_block src) div 4 * 3 \<le> length dst"
  shows "\<exists>out'. EVP_DecodeBlock dst src =
    Some (case decode_block_result src of None \<Rightarrow> (-1, out')
          | Some bs \<Rightarrow> (int (length bs), patch dst 0 bs))
    \<and> length out' = length dst"
  by (rule EVP_DecodeBlock_spec [OF assms])

theorem decode_block_exact_witness:
  "EVP_DecodeBlock [7, 7, 7, 7] [32, 81, 85, 73, 61, 10] = Some (3, [65, 66, 0, 7])"
proof -
  have t: "trim_block [32, 81, 85, 73, 61, 10] = [81, 85, 73, 61]"
    by (simp add: trim_block_def is_b64_space_def)
  have "decode_block_result [32, 81, 85, 73, 61, 10] = Some [65, 66, 0]"
    by (simp add: decode_block_result_def t quad_bytes_def b64_index_def byte_of_def INT_MAX_def)
  then show ?thesis
    using decode_block_exact [of "[32, 81, 85, 73, 61, 10]" "[7, 7, 7, 7]"]
    by (auto simp: t patch_def)
qed


end
