(* ===== verification/PosixTime.thy ===== *)
theory PosixTime
  imports Prelude "HOL-Library.Signed_Division"
begin

text \<open>
  Calendar arithmetic of \<open>crypto/asn1/posix_time.c\<close>: the conversions between
  \<open>struct tm\<close> in UTC and the seconds since 1970, for the years 0000 to 9999. The
  \<open>int64_t\<close> quantities are integers: every value stays below 2^39 in magnitude, except
  in \<open>OPENSSL_gmtime_adj\<close>, whose overflow tests are part of the model. C division and
  remainder truncate towards zero: \<open>sdiv\<close> and \<open>smod\<close>.
\<close>

record tm =
  tm_sec :: int
  tm_min :: int
  tm_hour :: int
  tm_mday :: int
  tm_mon :: int
  tm_year :: int

abbreviation (input) SECS_PER_HOUR :: int where "SECS_PER_HOUR \<equiv> 3600"
abbreviation (input) SECS_PER_DAY :: int where "SECS_PER_DAY \<equiv> 86400"
abbreviation (input) MIN_POSIX_TIME :: int where "MIN_POSIX_TIME \<equiv> -62167219200"
abbreviation (input) MAX_POSIX_TIME :: int where "MAX_POSIX_TIME \<equiv> 253402300799"
abbreviation (input) INT64_MAX :: int where "INT64_MAX \<equiv> 9223372036854775807"
abbreviation (input) INT64_MIN :: int where "INT64_MIN \<equiv> -9223372036854775808"

definition leap_year :: "int \<Rightarrow> bool" where
  "leap_year year \<longleftrightarrow> (year smod 4 = 0 \<and> year smod 100 \<noteq> 0) \<or> year smod 400 = 0"

definition is_valid_date :: "int \<Rightarrow> int \<Rightarrow> int \<Rightarrow> bool" where
  "is_valid_date year month day =
    (if day < 1 \<or> month < 1 \<or> year < 0 \<or> year > 9999 then False
     else if month \<in> {1, 3, 5, 7, 8, 10, 12} then day > 0 \<and> day \<le> 31
     else if month \<in> {4, 6, 9, 11} then day > 0 \<and> day \<le> 30
     else if month = 2 then
       (if leap_year year then day > 0 \<and> day \<le> 29 else day > 0 \<and> day \<le> 28)
     else False)"

definition is_valid_time :: "int \<Rightarrow> int \<Rightarrow> int \<Rightarrow> bool" where
  "is_valid_time hours minutes seconds =
    (if hours < 0 \<or> minutes < 0 \<or> seconds < 0 \<or> hours > 23 \<or> minutes > 59 \<or> seconds > 59
     then False else True)"

definition is_valid_posix_time :: "int \<Rightarrow> bool" where
  "is_valid_posix_time t \<longleftrightarrow> MIN_POSIX_TIME \<le> t \<and> t \<le> MAX_POSIX_TIME"

definition posix_time_from_utc :: "int \<Rightarrow> int \<Rightarrow> int \<Rightarrow> int \<Rightarrow> int \<Rightarrow> int \<Rightarrow> int option" where
  "posix_time_from_utc year month day hours minutes seconds =
    (if \<not> is_valid_date year month day \<or> \<not> is_valid_time hours minutes seconds then None
     else
       let year = (if month \<le> 2 then year - 1 else year);
           era = (if year \<ge> 0 then year else year - 399) sdiv 400;
           year_of_era = year - era * 400;
           day_of_year = (153 * (if month > 2 then month - 3 else month + 9) + 2) sdiv 5 + day - 1;
           day_of_era = year_of_era * 365 + year_of_era sdiv 4 - year_of_era sdiv 100 + day_of_year;
           posix_days = era * 146097 + day_of_era - 719468
       in Some (posix_days * SECS_PER_DAY + hours * SECS_PER_HOUR + minutes * 60 + seconds))"

text \<open>The six results are year, month, day, hours, minutes and seconds.\<close>

definition utc_from_posix_time :: "int \<Rightarrow> (int \<times> int \<times> int \<times> int \<times> int \<times> int) option" where
  "utc_from_posix_time t =
    (if \<not> is_valid_posix_time t then None
     else
       let days = t sdiv SECS_PER_DAY;
           leftover_seconds = t smod SECS_PER_DAY;
           (days, leftover_seconds) =
             (if leftover_seconds < 0 then (days - 1, leftover_seconds + SECS_PER_DAY)
              else (days, leftover_seconds));
           days = days + 719468;
           era = (if days > 0 then days else days - 146096) sdiv 146097;
           day_of_era = days - era * 146097;
           year_of_era = (day_of_era - day_of_era sdiv 1460 + day_of_era sdiv 36524
                          - day_of_era sdiv 146096) sdiv 365;
           out_year = year_of_era + era * 400;
           day_of_year = day_of_era - (365 * year_of_era + year_of_era sdiv 4 - year_of_era sdiv 100);
           month_of_year = (5 * day_of_year + 2) sdiv 153;
           out_month = (if month_of_year < 10 then month_of_year + 3 else month_of_year - 9);
           out_year = (if out_month \<le> 2 then out_year + 1 else out_year);
           out_day = day_of_year - (153 * month_of_year + 2) sdiv 5 + 1;
           out_hours = leftover_seconds sdiv SECS_PER_HOUR;
           leftover_seconds = leftover_seconds smod SECS_PER_HOUR
       in Some (out_year, out_month, out_day, out_hours, leftover_seconds sdiv 60, leftover_seconds smod 60))"

definition OPENSSL_tm_to_posix :: "tm \<Rightarrow> int option" where
  "OPENSSL_tm_to_posix t =
    posix_time_from_utc (tm_year t + 1900) (tm_mon t + 1) (tm_mday t) (tm_hour t) (tm_min t) (tm_sec t)"

definition OPENSSL_posix_to_tm :: "int \<Rightarrow> tm option" where
  "OPENSSL_posix_to_tm t =
    (case utc_from_posix_time t of
       None \<Rightarrow> None
     | Some (year, month, day, hours, minutes, seconds) \<Rightarrow>
         Some \<lparr>tm_sec = seconds, tm_min = minutes, tm_hour = hours, tm_mday = day,
               tm_mon = month - 1, tm_year = year - 1900\<rparr>)"

text \<open>\<open>time_t\<close> has 64 bits on the targets, so the 32-bit test of the next function is
  never taken.\<close>

definition OPENSSL_timegm :: "tm \<Rightarrow> int option" where
  "OPENSSL_timegm t = OPENSSL_tm_to_posix t"

definition OPENSSL_gmtime :: "int \<Rightarrow> tm option" where
  "OPENSSL_gmtime t = OPENSSL_posix_to_tm t"

definition OPENSSL_gmtime_adj :: "tm \<Rightarrow> int \<Rightarrow> int \<Rightarrow> tm option" where
  "OPENSSL_gmtime_adj t offset_day offset_sec =
    (case OPENSSL_tm_to_posix t of
       None \<Rightarrow> None
     | Some posix_time \<Rightarrow>
         let posix_time = posix_time + offset_day * SECS_PER_DAY in
         if posix_time > 0 \<and> offset_sec > INT64_MAX - posix_time then None
         else if posix_time < 0 \<and> offset_sec < INT64_MIN - posix_time then None
         else OPENSSL_posix_to_tm (posix_time + offset_sec))"

text \<open>The two results are days and seconds.\<close>

definition OPENSSL_gmtime_diff :: "tm \<Rightarrow> tm \<Rightarrow> (int \<times> int) option" where
  "OPENSSL_gmtime_diff frm to =
    (case OPENSSL_tm_to_posix to of
       None \<Rightarrow> None
     | Some time_to \<Rightarrow>
         (case OPENSSL_tm_to_posix frm of
            None \<Rightarrow> None
          | Some time_from \<Rightarrow>
              let timediff = time_to - time_from;
                  daydiff = timediff sdiv SECS_PER_DAY;
                  timediff = timediff smod SECS_PER_DAY
              in Some (daydiff, timediff)))"

end
