(* ===== verification/PosixTimeFacts.thy ===== *)
theory PosixTimeFacts
  imports PosixTime
begin

text \<open>
  The calendar behind the conversions of \<open>PosixTime\<close>: days are counted in eras of 400
  years that begin on the first of March, so a leap day ends its year; \<open>days_of\<close> numbers
  the dates, \<open>date_of\<close> names the days, and the code computes both.
\<close>

section \<open>Truncating division\<close>

lemma sdiv_pos: "0 \<le> k \<Longrightarrow> 0 < l \<Longrightarrow> k sdiv l = k div (l :: int)"
  by (cases "k = 0") (simp_all add: signed_divide_int_def)

lemma smod_pos: "0 \<le> k \<Longrightarrow> 0 < l \<Longrightarrow> k smod l = k mod (l :: int)"
  by (cases "k = 0") (simp_all add: signed_modulo_int_def)

lemma sdiv_neg: "k < 0 \<Longrightarrow> 0 < l \<Longrightarrow> k sdiv l = - (- k div (l :: int))"
  by (simp add: signed_divide_int_def)

text \<open>\<open>(k >= 0 ? k : k - (l - 1)) / l\<close> is the floor.\<close>

lemma sdiv_floor:
  assumes "0 < (l :: int)"
  shows "(if 0 \<le> k then k else k - (l - 1)) sdiv l = k div l"
proof (cases "0 \<le> k")
  case False
  define q r where "q = k div l" and "r = k mod l"
  have r: "0 \<le> r" "r < l" and k: "k = q * l + r" using assms by (simp_all add: q_def r_def)
  have e: "- (k - (l - 1)) = l * (- q) + (l - 1 - r)" by (simp add: k algebra_simps)
  have "0 \<le> l - 1 - r" "l - 1 - r < l" using r by simp_all
  then have "- (k - (l - 1)) div l = - q" by (rule int_div_pos_eq [OF e])
  moreover have "k - (l - 1) < 0" using False assms by simp
  ultimately have "(k - (l - 1)) sdiv l = q" using assms by (simp only: sdiv_neg minus_minus)
  then show ?thesis using False by (simp add: q_def)
qed (simp add: sdiv_pos assms)

lemma floor_by_correction:
  assumes "0 < (l :: int)"
  shows "(if k smod l < 0 then (k sdiv l - 1, k smod l + l) else (k sdiv l, k smod l)) = (k div l, k mod l)"
proof (cases "0 \<le> k")
  case True
  moreover have "\<not> k mod l < 0" using assms by (simp add: not_less)
  ultimately show ?thesis using assms by (simp add: sdiv_pos smod_pos)
next
  case False
  have m: "k smod l = k - (k sdiv l) * l" by (simp add: minus_sdiv_mult_eq_smod)
  have s: "k sdiv l = - (- k div l)" using False assms by (simp add: sdiv_neg)
  show ?thesis
  proof (cases "k mod l = 0")
    case True
    then have "k sdiv l = k div l" using s assms by (simp add: zdiv_zminus1_eq_if)
    then show ?thesis using True m by (simp add: minus_div_mult_eq_mod)
  next
    case nz: False
    then have d: "k sdiv l = k div l + 1" using s assms by (simp add: zdiv_zminus1_eq_if)
    have "k smod l = k mod l - l"
      unfolding m d using div_mult_mod_eq [of k l] by (simp add: algebra_simps)
    moreover have "k mod l < l" using assms by simp
    ultimately show ?thesis using d by simp
  qed
qed

section \<open>Days\<close>

text \<open>The first day of a year of the 400-year era, counted from the first of March of the
  year 0 of the era; the years that end with a 29th of February; the estimate of the year from
  the day.\<close>

definition first_day :: "int \<Rightarrow> int" where
  "first_day yoe = yoe * 365 + yoe div 4 - yoe div 100"

definition long_year :: "int \<Rightarrow> bool" where
  "long_year yoe \<longleftrightarrow> (yoe + 1) mod 4 = 0 \<and> ((yoe + 1) mod 100 \<noteq> 0 \<or> (yoe + 1) mod 400 = 0)"

definition year_of_day :: "int \<Rightarrow> int" where
  "year_of_day doe = (doe - doe div 1460 + doe div 36524 - doe div 146096) div 365"

definition day_in_year :: "int \<Rightarrow> int \<Rightarrow> bool" where
  "day_in_year yoe doy \<longleftrightarrow> 0 \<le> doy \<and> doy \<le> (if long_year yoe then 365 else 364)"

lemma succ_mod_zero:
  assumes "0 \<le> c" "c < (k :: int)"
  shows "(c + 1) mod k = 0 \<longleftrightarrow> c = k - 1"
proof (cases "c = k - 1")
  case False
  then have "(c + 1) mod k = c + 1" using assms by (intro mod_pos_pos_trivial) simp_all
  then show ?thesis using False assms by simp
qed simp

lemma div_mult_bounds:
  assumes "0 < (k :: int)"
  shows "k * (q div k) \<le> q" "q < k * (q div k) + k"
  using mult_div_mod_eq [of k q] pos_mod_sign [OF assms, of q] pos_mod_bound [OF assms, of q]
  by linarith+

lemma year_digits:
  assumes "0 \<le> (yoe :: int)" "yoe < 400"
  obtains a b c where "yoe = 100 * a + 4 * b + c" "0 \<le> a" "a \<le> 3" "0 \<le> b" "b \<le> 24" "0 \<le> c" "c \<le> 3"
    "first_day yoe = 36524 * a + 1461 * b + 365 * c"
    "long_year yoe \<longleftrightarrow> c = 3 \<and> (b \<noteq> 24 \<or> a = 3)"
proof -
  define a where "a = yoe div 100" define y where "y = yoe mod 100"
  define b where "b = y div 4" define c where "c = y mod 4"
  have a: "0 \<le> a" "a \<le> 3" and y: "0 \<le> y" "y \<le> 99" "yoe = 100 * a + y"
    using assms by (simp_all add: a_def y_def)
  have b: "0 \<le> b" "b \<le> 24" and c: "0 \<le> c" "c \<le> 3" "y = 4 * b + c"
    using y by (simp_all add: b_def c_def)
  have e: "yoe = 100 * a + 4 * b + c" using y c by simp
  have d4: "yoe div 4 = 25 * a + b" by (rule int_div_pos_eq [of _ _ _ c]) (use e c in auto)
  have d100: "yoe div 100 = a" by (rule int_div_pos_eq [of _ _ _ y]) (use y in auto)
  have f: "first_day yoe = 36524 * a + 1461 * b + 365 * c"
    unfolding first_day_def d4 d100 by (simp add: e)
  have m4: "(yoe + 1) mod 4 = 0 \<longleftrightarrow> c = 3"
  proof -
    have "yoe + 1 = (c + 1) + 4 * (25 * a + b)" by (simp add: e)
    then have "(yoe + 1) mod 4 = (c + 1) mod 4" by (simp only: mod_mult_self2)
    then show ?thesis using c succ_mod_zero [of c 4] by simp
  qed
  have m100: "(yoe + 1) mod 100 = 0 \<longleftrightarrow> y = 99"
  proof -
    have "yoe + 1 = (y + 1) + 100 * a" by (simp add: y)
    then have "(yoe + 1) mod 100 = (y + 1) mod 100" by (simp only: mod_mult_self2)
    then show ?thesis using y succ_mod_zero [of y 100] by simp
  qed
  have m400: "(yoe + 1) mod 400 = 0 \<longleftrightarrow> a = 3" if "y = 99"
  proof -
    have "yoe + 1 = 100 * (a + 1)" using that by (simp add: y)
    then have "(yoe + 1) mod 400 = 100 * ((a + 1) mod 4)"
      using mult_mod_right [of 100 "a + 1" 4] by (simp add: add.commute)
    then show ?thesis using a succ_mod_zero [of a 4] by simp
  qed
  have l: "long_year yoe \<longleftrightarrow> c = 3 \<and> (b \<noteq> 24 \<or> a = 3)"
    unfolding long_year_def m4 m100 using m400 c y b by auto
  show ?thesis by (rule that [OF e a b c(1,2) f l])
qed

lemma year_of_day_in_year:
  assumes "0 \<le> yoe" "yoe < 400" "day_in_year yoe doy"
  shows "year_of_day (first_day yoe + doy) = yoe" 
    "0 \<le> first_day yoe + doy" "first_day yoe + doy < 146097"
proof -
  obtain a b c where y: "yoe = 100 * a + 4 * b + c" "0 \<le> a" "a \<le> 3" "0 \<le> b" "b \<le> 24" "0 \<le> c" "c \<le> 3"
    and f: "first_day yoe = 36524 * a + 1461 * b + 365 * c"
    and l: "long_year yoe \<longleftrightarrow> c = 3 \<and> (b \<noteq> 24 \<or> a = 3)"
    using year_digits [OF assms(1,2)] by blast
  have r: "0 \<le> doy" "doy \<le> 365" "doy = 365 \<longrightarrow> c = 3 \<and> (b \<noteq> 24 \<or> a = 3)"
    using assms(3) l by (auto simp: day_in_year_def split: if_splits)
  define doe where "doe = 36524 * a + 1461 * b + 365 * c + doy"
  have doe: "doe \<le> 146096" "0 \<le> doe" using y r by (auto simp: doe_def)
  then show "0 \<le> first_day yoe + doy" "first_day yoe + doy < 146097" by (simp_all add: f doe_def)
  have "year_of_day doe = yoe"
  proof (cases "doe = 146096")
    case True
    then have "a = 3" "b = 24" "c = 3" using y r by (auto simp: doe_def)
    then show ?thesis using True by (simp add: year_of_day_def y)
  next
    case False
    define s where "s = 24 * a + b + 365 * c + doy"
    have small: "1461 * b + 365 * c + doy \<le> 36523"
      using False y r by (cases "b = 24"; cases "c = 3"; cases "doy = 365") (auto simp: doe_def)
    have B: "doe div 36524 = a"
      by (rule int_div_pos_eq [of _ _ _ "1461 * b + 365 * c + doy"]) (use small y r in \<open>auto simp: doe_def\<close>)
    have C: "doe div 146096 = 0" using False doe by simp
    have s: "0 \<le> s" "s < 2920" using y r by (auto simp: s_def)
    have d: "doe = 1460 * (25 * a + b) + s" by (simp add: doe_def s_def)
    have A: "doe div 1460 = 25 * a + b + (if s < 1460 then 0 else 1)"
      by (rule int_div_pos_eq [of _ _ _ "if s < 1460 then s else s - 1460"]) (use s d in auto)
    define k where "k = doy - (if s < 1460 then 0 else 1)"
    have k: "0 \<le> k" "k < 365" using y r by (auto simp: k_def s_def)
    have "doe - doe div 1460 + doe div 36524 - doe div 146096 = 365 * yoe + k"
      unfolding A B C by (simp add: k_def y doe_def)
    then show ?thesis unfolding year_of_day_def using k by simp
  qed
  then show "year_of_day (first_day yoe + doy) = yoe" by (simp add: f doe_def)
qed


section \<open>Months\<close>

definition month_days :: "bool \<Rightarrow> int \<Rightarrow> int" where
  "month_days leap m = (if m \<in> {1, 3, 5, 7, 8, 10, 12} then 31 else if m \<in> {4, 6, 9, 11} then 30
     else if leap then 29 else 28)"

definition month_from_march :: "int \<Rightarrow> int" where
  "month_from_march m = (if m > 2 then m - 3 else m + 9)"

definition day_of_year :: "int \<Rightarrow> int \<Rightarrow> int" where
  "day_of_year m d = (153 * month_from_march m + 2) div 5 + d - 1"

lemma month_cases:
  assumes "1 \<le> m" "m \<le> (12 :: int)"
  obtains "m = 1" | "m = 2" | "m = 3" | "m = 4" | "m = 5" | "m = 6" | "m = 7" | "m = 8" | "m = 9"
    | "m = 10" | "m = 11" | "m = 12"
proof -
  have "m = 1 \<or> m = 2 \<or> m = 3 \<or> m = 4 \<or> m = 5 \<or> m = 6 \<or> m = 7 \<or> m = 8 \<or> m = 9
    \<or> m = 10 \<or> m = 11 \<or> m = 12" using assms by presburger
  then show ?thesis using that by blast
qed

lemma day_of_year_month:
  assumes "1 \<le> m" "m \<le> 12" "1 \<le> d" "d \<le> month_days leap m"
  shows "(5 * day_of_year m d + 2) div 153 = month_from_march m" "0 \<le> day_of_year m d"
    "day_of_year m d \<le> (if m = 2 \<and> leap then 365 else 364)"
proof -
  have "0 \<le> 5 * day_of_year m d + 2 - 153 * month_from_march m
      \<and> 5 * day_of_year m d + 2 - 153 * month_from_march m < 153 \<and> 0 \<le> day_of_year m d
      \<and> day_of_year m d \<le> (if m = 2 \<and> leap then 365 else 364)"
    using assms(1,2)
    by (cases rule: month_cases)
      (use assms(3,4) in \<open>simp_all add: day_of_year_def month_from_march_def month_days_def split: if_splits\<close>)
  then show "0 \<le> day_of_year m d" "day_of_year m d \<le> (if m = 2 \<and> leap then 365 else 364)"
    "(5 * day_of_year m d + 2) div 153 = month_from_march m"
    by (auto intro: int_div_pos_eq [of _ _ _ "5 * day_of_year m d + 2 - 153 * month_from_march m"])
qed

lemma month_of_day:
  assumes "0 \<le> doy" "doy \<le> 365" "mp = (5 * doy + 2) div 153" "m = (if mp < 10 then mp + 3 else mp - 9)"
    "d = doy - (153 * mp + 2) div 5 + 1"
  shows "1 \<le> m" "m \<le> 12" "month_from_march m = mp" "1 \<le> d"
    "d \<le> month_days (doy = 365) m" "day_of_year m d = doy"
proof -
  have mp: "0 \<le> mp" "mp \<le> 11" "153 * mp \<le> 5 * doy + 2" "5 * doy + 2 < 153 * mp + 153"
  proof -
    have b: "153 * mp \<le> 5 * doy + 2" "5 * doy + 2 < 153 * mp + 153"
      unfolding assms(3) by (rule div_mult_bounds; simp)+
    then show "153 * mp \<le> 5 * doy + 2" "5 * doy + 2 < 153 * mp + 153" .
    from b assms(1,2) show "0 \<le> mp" "mp \<le> 11" by linarith+
  qed
  show m: "1 \<le> m" "m \<le> 12" "month_from_march m = mp"
    using mp by (simp_all add: assms(4) month_from_march_def)
  then show "day_of_year m d = doy" by (simp add: day_of_year_def assms(5))
  show "1 \<le> d" "d \<le> month_days (doy = 365) m"
    using m(1,2)
    by (cases rule: month_cases; use mp assms(2) m(3) in
      \<open>simp add: month_from_march_def month_days_def assms(5) split: if_splits\<close>)+
qed

section \<open>The conversions\<close>

text \<open>Days since the epoch of a date, and the date of a day.\<close>

definition days_of :: "int \<Rightarrow> int \<Rightarrow> int \<Rightarrow> int" where
  "days_of y m d =
    (let y' = (if m \<le> 2 then y - 1 else y)
     in (y' div 400) * 146097 + (first_day (y' mod 400) + day_of_year m d) - 719468)"

definition date_of :: "int \<Rightarrow> int \<times> int \<times> int" where
  "date_of n =
    (let era = (n + 719468) div 146097; doe = (n + 719468) mod 146097; yoe = year_of_day doe;
         doy = doe - first_day yoe; mp = (5 * doy + 2) div 153;
         m = (if mp < 10 then mp + 3 else mp - 9)
     in (if m \<le> 2 then yoe + era * 400 + 1 else yoe + era * 400, m, doy - (153 * mp + 2) div 5 + 1))"

definition valid_date :: "int \<Rightarrow> int \<Rightarrow> int \<Rightarrow> bool" where
  "valid_date y m d \<longleftrightarrow> 1 \<le> m \<and> m \<le> 12 \<and> 1 \<le> d
     \<and> d \<le> month_days (y mod 4 = 0 \<and> (y mod 100 \<noteq> 0 \<or> y mod 400 = 0)) m"

lemma is_valid_date_iff: "is_valid_date y m d \<longleftrightarrow> 0 \<le> y \<and> y \<le> 9999 \<and> valid_date y m d"
proof (cases "0 \<le> y \<and> 1 \<le> m \<and> m \<le> 12")
  case True
  then have m: "1 \<le> m" "m \<le> 12" by simp_all
  have l: "leap_year y \<longleftrightarrow> y mod 4 = 0 \<and> (y mod 100 \<noteq> 0 \<or> y mod 400 = 0)"
  proof -
    have "y mod 400 = 0 \<Longrightarrow> y mod 4 = 0" using mod_mod_cancel [of 4 400 y] by simp
    then show ?thesis using True by (auto simp: leap_year_def smod_pos)
  qed
  from m show ?thesis
    by (cases rule: month_cases) (use True l in \<open>auto simp: is_valid_date_def valid_date_def month_days_def\<close>)
qed (auto simp: is_valid_date_def valid_date_def)

lemma mod_400_plus: "c dvd 400 \<Longrightarrow> (x mod 400 + 1) mod c = (x + 1) mod (c :: int)"
  by (metis mod_add_left_eq mod_mod_cancel)

lemma shifted_year:
  assumes "valid_date y m d"
  defines "y' \<equiv> (if m \<le> 2 then y - 1 else y)"
  shows "day_in_year (y' mod 400) (day_of_year m d)"
proof -
  have ly: "long_year (y' mod 400)
      \<longleftrightarrow> (y' + 1) mod 4 = 0 \<and> ((y' + 1) mod 100 \<noteq> 0 \<or> (y' + 1) mod 400 = 0)"
  proof -
    have "(y' mod 400 + 1) mod 4 = (y' + 1) mod 4" "(y' mod 400 + 1) mod 100 = (y' + 1) mod 100"
      "(y' mod 400 + 1) mod 400 = (y' + 1) mod 400" by (rule mod_400_plus, simp)+
    then show ?thesis by (simp only: long_year_def)
  qed
  let ?l = "y mod 4 = 0 \<and> (y mod 100 \<noteq> 0 \<or> y mod 400 = 0)"
  have v: "1 \<le> m" "m \<le> 12" "1 \<le> d" "d \<le> month_days ?l m" using assms by (simp_all add: valid_date_def)
  have "m = 2 \<and> ?l \<Longrightarrow> long_year (y' mod 400)" unfolding ly by (simp add: y'_def)
  then show ?thesis
    using day_of_year_month(2,3) [OF v] by (auto simp: day_in_year_def split: if_splits)
qed

lemma date_of_days_of:
  assumes "valid_date y m d"
  shows "date_of (days_of y m d) = (y, m, d)"
proof -
  define y' where "y' = (if m \<le> 2 then y - 1 else y)"
  define yoe where "yoe = y' mod 400" define era where "era = y' div 400"
  define doy where "doy = day_of_year m d"
  have v: "1 \<le> m" "m \<le> 12" "1 \<le> d" 
    "d \<le> month_days (y mod 4 = 0 \<and> (y mod 100 \<noteq> 0 \<or> y mod 400 = 0)) m"
    using assms by (simp_all add: valid_date_def)
  have yoe: "0 \<le> yoe" "yoe < 400" by (simp_all add: yoe_def)
  have "day_in_year yoe doy" using shifted_year [OF assms] by (simp add: y'_def yoe_def doy_def)
  note e = year_of_day_in_year [OF yoe this]
  have n: "days_of y m d + 719468 = 146097 * era + (first_day yoe + doy)"
    by (simp add: days_of_def Let_def era_def yoe_def doy_def y'_def)
  have n_div: "(days_of y m d + 719468) div 146097 = era"
    by (rule int_div_pos_eq [OF n e(2,3)])
  have n_mod: "(days_of y m d + 719468) mod 146097 = first_day yoe + doy"
    by (rule int_mod_pos_eq [OF n e(2,3)])
  have mp: "(5 * doy + 2) div 153 = month_from_march m"
    unfolding doy_def by (rule day_of_year_month(1) [OF v])
  have mm: "(if month_from_march m < 10 then month_from_march m + 3 else month_from_march m - 9) = m"
    using v by (auto simp: month_from_march_def)
  have yy: "yoe + era * 400 = y'" by (simp add: yoe_def era_def)
  have dd: "doy - (153 * month_from_march m + 2) div 5 + 1 = d" by (simp add: doy_def day_of_year_def)
  show ?thesis
    by (simp only: date_of_def Let_def n_div n_mod e(1) add_diff_cancel_left' mp mm yy dd)
      (simp add: y'_def)
qed

text \<open>Every day of the era lies in a year.\<close>

lemma div_step:
  assumes "0 < (k :: int)"
  shows "(n + 1) div k = n div k + (if (n + 1) mod k = 0 then 1 else 0)"
proof (cases "n mod k + 1 = k")
  case True
  then have "n + 1 = n div k * k + k" using div_mult_mod_eq [of n k] by linarith
  then have e: "n + 1 = k * (n div k + 1) + 0" by (simp add: algebra_simps)
  then have "(n + 1) div k = n div k + 1" using assms by (intro int_div_pos_eq [OF e]) simp_all
  moreover have "(n + 1) mod k = 0" using assms by (intro int_mod_pos_eq [OF e]) simp_all
  ultimately show ?thesis by simp
next
  case False
  have e: "n + 1 = k * (n div k) + (n mod k + 1)" by simp
  have b: "0 < n mod k + 1" "n mod k + 1 < k"
    using assms False pos_mod_bound [OF assms, of n] pos_mod_sign [OF assms, of n] by linarith+
  then have "(n + 1) div k = n div k" "(n + 1) mod k = n mod k + 1"
    by (auto intro!: int_div_pos_eq [OF e] int_mod_pos_eq [OF e])
  then show ?thesis using b by simp
qed

lemma first_day_next:
  assumes "0 \<le> yoe" "yoe < 399"
  shows "first_day (yoe + 1) = first_day yoe + (if long_year yoe then 366 else 365)"
proof -
  have "(yoe + 1) mod 400 \<noteq> 0" using assms by simp
  moreover have "(yoe + 1) mod 4 = 0" if "(yoe + 1) mod 100 = 0"
    using mod_mod_cancel [of 4 100 "yoe + 1"] that by simp
  ultimately show ?thesis
    by (auto simp: first_day_def long_year_def div_step [of 4] div_step [of 100])
qed

lemma day_of_era_year:
  assumes "0 \<le> doe" "doe < 146097"
  obtains yoe doy where "0 \<le> yoe" "yoe < 400" "day_in_year yoe doy" "doe = first_day yoe + doy"
proof -
  have ex: "\<exists>yoe\<ge>0. yoe < k \<and> first_day yoe \<le> doe \<and> doe < first_day (yoe + 1)"
    if "0 \<le> k" "k \<le> 399" "doe < first_day k" for k
    using that
  proof (induction k rule: int_ge_induct)
    case base
    then show ?case using assms by (simp add: first_day_def)
  next
    case (step i)
    show ?case
    proof (cases "doe < first_day i")
      case True
      then obtain y where "0 \<le> y" "y < i" "first_day y \<le> doe" "doe < first_day (y + 1)" using step by auto
      then show ?thesis by (intro exI [of _ y]) simp
    next
      case False
      then show ?thesis using step by (intro exI [of _ i]) simp
    qed
  qed
  show ?thesis
  proof (cases "doe < first_day 399")
    case True
    then obtain y where y: "0 \<le> y" "y < 399" "first_day y \<le> doe" "doe < first_day (y + 1)" using ex [of 399] by auto
    then have "day_in_year y (doe - first_day y)"
      using first_day_next [of y] by (auto simp: day_in_year_def split: if_splits)
    then show ?thesis using y by (intro that [of y "doe - first_day y"]) simp_all
  next
    case False
    have "first_day 399 = 145731" "long_year 399" by (simp_all add: first_day_def long_year_def)
    then have "day_in_year 399 (doe - first_day 399)" using False assms by (simp add: day_in_year_def)
    then show ?thesis by (intro that [of 399 "doe - first_day 399"]) simp_all
  qed
qed

lemma days_of_date_of:
  assumes "date_of n = (y, m, d)"
  shows "days_of y m d = n" "valid_date y m d"
proof -
  define era where "era = (n + 719468) div 146097"
  define doe where "doe = (n + 719468) mod 146097"
  have doe: "0 \<le> doe" "doe < 146097" by (simp_all add: doe_def)
  obtain yoe doy where yd: "0 \<le> yoe" "yoe < 400" "day_in_year yoe doy" and e: "doe = first_day yoe + doy"
    using day_of_era_year [OF doe] by blast
  have y: "year_of_day doe = yoe" unfolding e by (rule year_of_day_in_year(1) [OF yd])
  have doy: "0 \<le> doy" "doy \<le> 365" using yd by (auto simp: day_in_year_def split: if_splits)
  define mp where "mp = (5 * doy + 2) div 153"
  have r: "doe - first_day yoe = doy" by (simp add: e)
  have m: "m = (if mp < 10 then mp + 3 else mp - 9)" and d: "d = doy - (153 * mp + 2) div 5 + 1"
    and yy: "y = (if m \<le> 2 then yoe + era * 400 + 1 else yoe + era * 400)"
    using assms [unfolded date_of_def Let_def, folded era_def doe_def, unfolded y r, folded mp_def]
    by auto
  note md = month_of_day [OF doy mp_def m d]
  define y' where "y' = (if m \<le> 2 then y - 1 else y)"
  have y': "y' = yoe + era * 400" by (simp add: y'_def yy)
  have "y' mod 400 = yoe" "y' div 400 = era" using yd unfolding y' by simp_all
  then show "days_of y m d = n"
    using md(6) e div_mult_mod_eq [of "n + 719468" 146097]
    by (simp add: days_of_def y'_def [symmetric] era_def doe_def)
  have ly: "long_year yoe \<longleftrightarrow> (y' + 1) mod 4 = 0 \<and> ((y' + 1) mod 100 \<noteq> 0 \<or> (y' + 1) mod 400 = 0)"
  proof -
    have r: "(yoe + era * 400 + 1) mod c = (yoe + 1) mod c" if "c dvd 400" for c
    proof -
      have "(yoe + era * 400 + 1) mod c = (yoe + 1 + era * 400) mod c" by (simp add: algebra_simps)
      moreover have "era * 400 mod c = 0" using that by simp
      ultimately show ?thesis by (metis add.right_neutral mod_add_right_eq)
    qed
    have "(yoe + era * 400 + 1) mod 4 = (yoe + 1) mod 4" "(yoe + era * 400 + 1) mod 100 = (yoe + 1) mod 100"
      "(yoe + era * 400 + 1) mod 400 = (yoe + 1) mod 400" by (rule r, simp)+
    then show ?thesis by (simp only: long_year_def y')
  qed
  have "d \<le> month_days (y mod 4 = 0 \<and> (y mod 100 \<noteq> 0 \<or> y mod 400 = 0)) m"
  proof (cases "m = 2")
    case True
    then have "y = y' + 1" by (simp add: y'_def)
    moreover have "doy = 365 \<Longrightarrow> long_year yoe" using yd by (auto simp: day_in_year_def split: if_splits)
    ultimately show ?thesis using md(5) ly True by (auto simp: month_days_def split: if_splits)
  next
    case False
    from md(1,2) show ?thesis
      by (cases rule: month_cases) (use md(5) False in \<open>simp_all add: month_days_def\<close>)
  qed
  then show "valid_date y m d" using md by (simp add: valid_date_def)
qed

text \<open>The conversions of the code in terms of days.\<close>

lemma posix_time_from_utc_eq:
  "posix_time_from_utc y m d h mi s =
    (if 0 \<le> y \<and> y \<le> 9999 \<and> valid_date y m d \<and> is_valid_time h mi s
     then Some (days_of y m d * 86400 + h * 3600 + mi * 60 + s) else None)"
proof (cases "0 \<le> y \<and> y \<le> 9999 \<and> valid_date y m d \<and> is_valid_time h mi s")
  case True
  define y' where "y' = (if m \<le> 2 then y - 1 else y)"
  have m: "1 \<le> m" "m \<le> 12" using True by (simp_all add: valid_date_def)
  have era: "(if y' \<ge> 0 then y' else y' - 399) sdiv 400 = y' div 400"
    using sdiv_floor [of 400 y'] by (cases "y' \<ge> 0") simp_all
  have yoe: "y' - y' div 400 * 400 = y' mod 400" by (simp add: minus_div_mult_eq_mod)
  have "0 \<le> 153 * month_from_march m + 2" using m by (simp add: month_from_march_def)
  then have doy: "(153 * (if m > 2 then m - 3 else m + 9) + 2) sdiv 5 + d - 1 = day_of_year m d"
    by (simp add: day_of_year_def month_from_march_def sdiv_pos)
  have "0 \<le> y' mod 400" by simp
  then have fd: "y' mod 400 * 365 + (y' mod 400) sdiv 4 - (y' mod 400) sdiv 100 = first_day (y' mod 400)"
    by (simp add: first_day_def sdiv_pos)
  show ?thesis
    using True
    by (simp only: posix_time_from_utc_def is_valid_date_iff Let_def y'_def [symmetric] era yoe doy fd
        days_of_def simp_thms if_True if_False not_True_eq_False)
qed (auto simp: posix_time_from_utc_def is_valid_date_iff)

lemma utc_from_posix_time_eq:
  "utc_from_posix_time t =
    (if is_valid_posix_time t then
       let (y, m, d) = date_of (t div 86400); r = t mod 86400
       in Some (y, m, d, r div 3600, r mod 3600 div 60, r mod 3600 mod 60)
     else None)"
proof (cases "is_valid_posix_time t")
  case True
  let ?d = "t div 86400 + 719468" and ?r = "t mod 86400"
  note fl = floor_by_correction [of 86400 t]
  have era: "(if 0 < k then k else k - 146096) sdiv 146097 = k div 146097" for k :: int
    using sdiv_floor [of 146097 k] by (cases "k = 0") (auto simp: sdiv_neg split: if_splits)
  define doe where "doe = ?d mod 146097"
  have doe: "?d - ?d div 146097 * 146097 = doe" "0 \<le> doe" "doe < 146097"
    by (simp_all add: doe_def minus_div_mult_eq_mod)
  obtain yoe doy where yd: "0 \<le> yoe" "yoe < 400" "day_in_year yoe doy" and e: "doe = first_day yoe + doy"
    using day_of_era_year [OF doe(2,3)] by blast
  have yoe: "(doe - doe sdiv 1460 + doe sdiv 36524 - doe sdiv 146096) sdiv 365 = year_of_day doe"
    and y0: "year_of_day doe = yoe"
  proof -
    show y: "year_of_day doe = yoe" unfolding e by (rule year_of_day_in_year(1) [OF yd])
    have "0 \<le> doe - doe div 1460" using zdiv_mono2 [of doe 1 1460] doe by simp
    moreover have "0 \<le> doe div 36524 - doe div 146096" using zdiv_mono2 [of doe 36524 146096] doe by simp
    ultimately have "0 \<le> (doe - doe div 1460) + (doe div 36524 - doe div 146096)"
      by (rule add_nonneg_nonneg)
    then have pos: "0 \<le> doe - doe div 1460 + doe div 36524 - doe div 146096" by (simp only: add_diff_eq)
    have "doe sdiv 1460 = doe div 1460" "doe sdiv 36524 = doe div 36524" "doe sdiv 146096 = doe div 146096"
      by (rule sdiv_pos [OF doe(2)], simp)+
    then show "(doe - doe sdiv 1460 + doe sdiv 36524 - doe sdiv 146096) sdiv 365 = year_of_day doe"
      by (simp only: year_of_day_def sdiv_pos [OF pos])
  qed
  have doy: "doe - (365 * yoe + yoe sdiv 4 - yoe sdiv 100) = doy" "0 \<le> doy"
    "doe - first_day yoe = doy"
    using yd by (auto simp: e first_day_def sdiv_pos day_in_year_def)
  have mp: "(5 * doy + 2) sdiv 153 = (5 * doy + 2) div 153" "0 \<le> (5 * doy + 2) div 153"
    using doy by (simp_all add: sdiv_pos)
  have dd: "(153 * ((5 * doy + 2) div 153) + 2) sdiv 5 = (153 * ((5 * doy + 2) div 153) + 2) div 5"
    using mp by (simp add: sdiv_pos)
  have r: "0 \<le> ?r" "0 \<le> ?r mod 3600" by simp_all
  show ?thesis
    using True fl
    by (simp only: utc_from_posix_time_def Let_def prod.case era doe yoe y0 doy mp dd date_of_def
        doe_def [symmetric] simp_thms if_True if_False not_True_eq_False)
      (simp add: sdiv_pos smod_pos r)
qed (simp add: utc_from_posix_time_def)

section \<open>The range of the code\<close>

lemma first_day_mono:
  assumes "0 \<le> a" "a \<le> b" "b \<le> 399"
  shows "first_day a \<le> first_day b"
  using assms(2,3)
proof (induction b rule: int_ge_induct)
  case (step i)
  then show ?case using first_day_next [of i] assms(1) by simp
qed simp

lemma days_of_range:
  assumes "valid_date y m d" "0 \<le> y" "y \<le> 9999"
  shows "-719528 \<le> days_of y m d" "days_of y m d \<le> 2932896"
proof -
  define y' where "y' = (if m \<le> 2 then y - 1 else y)"
  define yoe where "yoe = y' mod 400" define era where "era = y' div 400"
  define doy where "doy = day_of_year m d"
  have v: "1 \<le> m" "m \<le> 12" "1 \<le> d"
    "d \<le> month_days (y mod 4 = 0 \<and> (y mod 100 \<noteq> 0 \<or> y mod 400 = 0)) m"
    using assms by (simp_all add: valid_date_def)
  have yoe: "0 \<le> yoe" "yoe < 400" by (simp_all add: yoe_def)
  have yy: "y' = 400 * era + yoe" by (simp add: yoe_def era_def)
  have diy: "day_in_year yoe doy" using shifted_year [OF assms(1)] by (simp add: y'_def yoe_def doy_def)
  note e = year_of_day_in_year [OF yoe this]
  have n: "days_of y m d = era * 146097 + (first_day yoe + doy) - 719468"
    by (simp add: days_of_def Let_def era_def yoe_def doy_def y'_def)
  have y': "-1 \<le> y'" "y' \<le> 9999" using assms by (simp_all add: y'_def)
  have f399: "first_day 399 = 145731" by (simp add: first_day_def)
  show "-719528 \<le> days_of y m d"
  proof (cases "y' = -1")
    case True
    then have "yoe = 399" "era = -1" "m \<le> 2" using assms(2) by (simp_all add: yoe_def era_def y'_def split: if_splits)
    moreover from this have "306 \<le> doy" using v
      by (simp add: doy_def day_of_year_def month_from_march_def)
    ultimately show ?thesis by (simp add: n f399)
  next
    case False
    then have "0 \<le> era" using y' by (simp add: era_def)
    then show ?thesis using e by (simp add: n)
  qed
  have "era \<le> 24" using y' yoe yy by linarith
  show "days_of y m d \<le> 2932896"
  proof (cases "era = 24")
    case False
    then show ?thesis using e \<open>era \<le> 24\<close> by (simp add: n)
  next
    case era: True
    show ?thesis
    proof (cases "yoe = 399")
      case True
      then have "2 < m" using era yy assms(3) y' by (auto simp: y'_def split: if_splits)
      from v(1,2) have "doy \<le> 305"
        by (cases rule: month_cases) (use \<open>2 < m\<close> v(4) in \<open>simp_all add: doy_def day_of_year_def month_from_march_def month_days_def\<close>)
      then show ?thesis by (simp add: n era True f399)
    next
      case False
      then have lt: "yoe < 399" using yoe by simp
      have "first_day yoe + doy < first_day (yoe + 1)"
        using first_day_next [OF yoe(1) lt] diy by (auto simp: day_in_year_def split: if_splits)
      moreover have "first_day (yoe + 1) \<le> first_day 399" by (rule first_day_mono) (use yoe lt in auto)
      ultimately show ?thesis by (simp add: n era f399)
    qed
  qed
qed

lemma seconds_split:
  assumes "is_valid_time h mi s"
  shows "0 \<le> h * 3600 + mi * 60 + s" "h * 3600 + mi * 60 + s < 86400"
    "(n * 86400 + h * 3600 + mi * 60 + s) div 86400 = n"
    "(n * 86400 + h * 3600 + mi * 60 + s) mod 86400 = h * 3600 + mi * 60 + s"
    "(h * 3600 + mi * 60 + s) div 3600 = h" "(h * 3600 + mi * 60 + s) mod 3600 = mi * 60 + s"
    "(mi * 60 + s) div 60 = mi" "(mi * 60 + s) mod 60 = s"
proof -
  have b: "0 \<le> h" "h \<le> 23" "0 \<le> mi" "mi \<le> 59" "0 \<le> s" "s \<le> 59"
    using assms by (auto simp: is_valid_time_def split: if_splits)
  then show r: "0 \<le> h * 3600 + mi * 60 + s" "h * 3600 + mi * 60 + s < 86400" by linarith+
  have e1: "n * 86400 + h * 3600 + mi * 60 + s = 86400 * n + (h * 3600 + mi * 60 + s)" by simp
  show "(n * 86400 + h * 3600 + mi * 60 + s) div 86400 = n" 
    "(n * 86400 + h * 3600 + mi * 60 + s) mod 86400 = h * 3600 + mi * 60 + s"
    by (rule int_div_pos_eq [OF e1 r], rule int_mod_pos_eq [OF e1 r])
  have m: "0 \<le> mi * 60 + s" "mi * 60 + s < 3600" using b by linarith+
  have e2: "h * 3600 + mi * 60 + s = 3600 * h + (mi * 60 + s)" by simp
  show "(h * 3600 + mi * 60 + s) div 3600 = h" "(h * 3600 + mi * 60 + s) mod 3600 = mi * 60 + s"
    by (rule int_div_pos_eq [OF e2 m], rule int_mod_pos_eq [OF e2 m])
  have e3: "mi * 60 + s = 60 * mi + s" by simp
  have s: "0 \<le> s" "s < 60" using b by simp_all
  show "(mi * 60 + s) div 60 = mi" "(mi * 60 + s) mod 60 = s"
    by (rule int_div_pos_eq [OF e3 s], rule int_mod_pos_eq [OF e3 s])
qed

lemma utc_of_posix:
  assumes "posix_time_from_utc y m d h mi s = Some t"
  shows "utc_from_posix_time t = Some (y, m, d, h, mi, s)" "is_valid_posix_time t"
proof -
  have v: "valid_date y m d" "0 \<le> y" "y \<le> 9999" "is_valid_time h mi s"
    and t: "t = days_of y m d * 86400 + h * 3600 + mi * 60 + s"
    using assms by (auto simp: posix_time_from_utc_eq split: if_splits)
  note r = days_of_range [OF v(1-3)] and sp = seconds_split [OF v(4)]
  show ok: "is_valid_posix_time t" using r sp(1,2) by (simp add: is_valid_posix_time_def t)
  show "utc_from_posix_time t = Some (y, m, d, h, mi, s)"
    using ok unfolding utc_from_posix_time_eq t sp(3,4) Let_def
    by (simp only: if_True date_of_days_of [OF v(1)] prod.case sp)
qed

lemma date_of_range:
  assumes "date_of n = (y, m, d)" "-719528 \<le> n" "n \<le> 2932896"
  shows "0 \<le> y" "y \<le> 9999"
proof -
  define era where "era = (n + 719468) div 146097"
  define doe where "doe = (n + 719468) mod 146097"
  have doe: "0 \<le> doe" "doe < 146097" by (simp_all add: doe_def)
  have n: "n + 719468 = era * 146097 + doe" by (simp add: era_def doe_def)
  obtain yoe doy where yd: "0 \<le> yoe" "yoe < 400" "day_in_year yoe doy" and e: "doe = first_day yoe + doy"
    using day_of_era_year [OF doe] by blast
  have y: "year_of_day doe = yoe" unfolding e by (rule year_of_day_in_year(1) [OF yd])
  define mp where "mp = (5 * doy + 2) div 153"
  have r: "doe - first_day yoe = doy" by (simp add: e)
  have m: "m = (if mp < 10 then mp + 3 else mp - 9)"
    and yy: "y = (if m \<le> 2 then yoe + era * 400 + 1 else yoe + era * 400)"
    using assms(1) [unfolded date_of_def Let_def, folded era_def doe_def, unfolded y r, folded mp_def]
    by auto
  have f399: "first_day 399 = 145731" by (simp add: first_day_def)
  have before: "doe < 145731" if "yoe \<noteq> 399"
  proof -
    have lt: "yoe < 399" using that yd by simp
    have "doe < first_day (yoe + 1)"
      using first_day_next [OF yd(1) lt] yd e by (auto simp: day_in_year_def split: if_splits)
    moreover have "first_day (yoe + 1) \<le> first_day 399" by (rule first_day_mono) (use yd lt in auto)
    ultimately show ?thesis by (simp add: f399)
  qed
  have era: "-1 \<le> era" "era \<le> 24" using assms(2,3) doe n by linarith+
  show "0 \<le> y"
  proof (cases "era = -1")
    case True
    then have "146037 \<le> doe" using n assms(2) by simp
    then have 399: "yoe = 399" using before by force
    then have "306 \<le> doy" using \<open>146037 \<le> doe\<close> e f399 by simp
    then have "10 \<le> mp" by (simp add: mp_def)
    moreover have "doy \<le> 365" using yd by (auto simp: day_in_year_def split: if_splits)
    then have "mp \<le> 11" by (simp add: mp_def)
    ultimately show ?thesis using m yy True 399 by simp
  next
    case False
    then show ?thesis using era yy yd by simp
  qed
  show "y \<le> 9999"
  proof (cases "yoe = 399 \<and> era = 24")
    case True
    then have "doy \<le> 305" using n assms(3) e f399 by simp
    then have "mp < 10" by (simp add: mp_def)
    moreover have "0 \<le> doy" using yd by (simp add: day_in_year_def)
    then have "0 \<le> mp" unfolding mp_def by linarith
    ultimately show ?thesis using m yy True by simp
  next
    case False
    then have "yoe + era * 400 \<le> 9998" using era yd by (cases "era = 24") auto
    then show ?thesis using yy by (simp split: if_splits)
  qed
qed

lemma div_bounds: "0 \<le> (r :: int) \<Longrightarrow> r < 86400 \<Longrightarrow> 0 \<le> r div 3600 \<and> r div 3600 \<le> 23"
  "0 \<le> r \<Longrightarrow> r < 3600 \<Longrightarrow> 0 \<le> r div 60 \<and> r div 60 \<le> 59"
  by linarith+

lemma time_of_seconds:
  assumes "0 \<le> r" "r < 86400"
  shows "is_valid_time (r div 3600) (r mod 3600 div 60) (r mod 3600 mod 60)"
proof -
  define q where "q = r mod 3600"
  have "0 \<le> q" "q < 3600" by (simp_all add: q_def)
  then have "0 \<le> q div 60 \<and> q div 60 \<le> 59" by (rule div_bounds(2))
  moreover have "\<not> q mod 60 < 0" "\<not> 59 < q mod 60" by (simp_all add: not_less)
  ultimately show ?thesis using div_bounds(1) [OF assms]
    unfolding is_valid_time_def q_def [symmetric] by simp
qed

lemma posix_of_utc:
  assumes "is_valid_posix_time t"
  obtains y m d h mi s where "utc_from_posix_time t = Some (y, m, d, h, mi, s)"
    "posix_time_from_utc y m d h mi s = Some t"
proof -
  obtain y m d where d: "date_of (t div 86400) = (y, m, d)" by (metis prod_cases3)
  let ?r = "t mod 86400"
  let ?h = "?r div 3600" and ?mi = "?r mod 3600 div 60" and ?s = "?r mod 3600 mod 60"
  have u: "utc_from_posix_time t = Some (y, m, d, ?h, ?mi, ?s)"
    using assms by (simp add: utc_from_posix_time_eq d Let_def)
  note dd = days_of_date_of [OF d]
  have "-719528 \<le> t div 86400" "t div 86400 \<le> 2932896" using assms unfolding is_valid_posix_time_def by linarith+
  note y = date_of_range [OF d this]
  have tm: "is_valid_time ?h ?mi ?s"
    by (rule time_of_seconds) simp_all
  have "t div 86400 * 86400 + ?h * 3600 + ?mi * 60 + ?s = t"
    by (simp only: add.assoc div_mult_mod_eq)
  then have "posix_time_from_utc y m d ?h ?mi ?s = Some t"
    using y dd tm by (simp add: posix_time_from_utc_eq)
  then show ?thesis using u that by blast
qed

section \<open>The calendar\<close>

definition leap :: "int \<Rightarrow> bool" where
  "leap y \<longleftrightarrow> y mod 4 = 0 \<and> (y mod 100 \<noteq> 0 \<or> y mod 400 = 0)"

definition next_date :: "int \<times> int \<times> int \<Rightarrow> int \<times> int \<times> int" where
  "next_date = (\<lambda>(y, m, d).
     if d < month_days (leap y) m then (y, m, d + 1)
     else if m < 12 then (y, m + 1, 1) else (y + 1, 1, 1))"

lemma day_of_year_next:
  assumes "1 \<le> m" "m < 12" "m \<noteq> 2"
  shows "day_of_year (m + 1) 1 = day_of_year m (month_days l m) + 1"
proof -
  have "m \<le> 12" using assms by simp
  with assms(1) show ?thesis
    by (cases rule: month_cases) (use assms in \<open>simp_all add: day_of_year_def month_from_march_def month_days_def\<close>)
qed

lemma days_of_next:
  assumes "valid_date y m d" "next_date (y, m, d) = (y', m', d')"
  shows "days_of y' m' d' = days_of y m d + 1" "valid_date y' m' d'"
proof -
  have v: "1 \<le> m" "m \<le> 12" "1 \<le> d" "d \<le> month_days (leap y) m"
    using assms(1) by (simp_all add: valid_date_def leap_def)
  have one: "1 \<le> month_days b k" for b k by (simp add: month_days_def)
  consider (day) "d < month_days (leap y) m" | (month) "d = month_days (leap y) m" "m < 12" "m \<noteq> 2"
    | (feb) "d = month_days (leap y) m" "m = 2" | (year) "d = 31" "m = 12"
  proof -
    have "month_days b 12 = 31" for b by (simp add: month_days_def)
    then show ?thesis
      using that v by (cases "d = month_days (leap y) m"; cases "m = 12"; cases "m = 2") force+
  qed
  then have "days_of y' m' d' = days_of y m d + 1 \<and> valid_date y' m' d'"
  proof cases
    case day
    then show ?thesis using assms v
      by (auto simp: next_date_def days_of_def day_of_year_def valid_date_def leap_def Let_def)
  next
    case month
    then have "y' = y" "m' = m + 1" "d' = 1" using assms(2) by (auto simp: next_date_def)
    moreover have "m \<noteq> 2" "(m + 1 \<le> 2) = (m \<le> 2)" using month v by auto
    moreover have "day_of_year (m + 1) 1 = 1 + day_of_year m (month_days (leap y) m)"
      using day_of_year_next [OF v(1) month(2,3), of "leap y"] by simp
    ultimately show ?thesis using month v one
      by (auto simp: days_of_def Let_def valid_date_def)
  next
    case feb
    then have n: "y' = y" "m' = 3" "d' = 1" using assms(2) by (auto simp: next_date_def)
    define yoe where "yoe = (y - 1) mod 400" define era where "era = (y - 1) div 400"
    have ly: "long_year yoe \<longleftrightarrow> leap y"
    proof -
      have "(yoe + 1) mod c = y mod c" if "c dvd 400" for c
        using mod_400_plus [OF that, of "y - 1"] by (simp only: yoe_def diff_add_cancel)
      then have "(yoe + 1) mod 4 = y mod 4" "(yoe + 1) mod 100 = y mod 100" "(yoe + 1) mod 400 = y mod 400"
        by simp_all
      then show ?thesis by (simp only: long_year_def leap_def)
    qed
    have doy: "day_of_year 2 d = (if leap y then 365 else 364)"
      by (simp add: feb day_of_year_def month_from_march_def month_days_def)
    have y: "y = 400 * era + (yoe + 1)" by (simp add: yoe_def era_def)
    have d3: "day_of_year 3 1 = 0" by (simp add: day_of_year_def month_from_march_def)
    have "days_of y 3 1 = days_of y 2 d + 1"
    proof (cases "yoe = 399")
      case True
      then have "y = 400 * (era + 1) + 0" using y by simp
      then have "y div 400 = era + 1" "y mod 400 = 0" by simp_all
      moreover have "leap y" using ly True by (simp add: long_year_def)
      ultimately show ?thesis
        using True doy d3 by (simp add: days_of_def yoe_def [symmetric] era_def [symmetric] first_day_def)
    next
      case False
      moreover have "0 \<le> yoe" "yoe < 400" by (simp_all add: yoe_def)
      ultimately have b: "0 \<le> yoe" "yoe < 399" "0 \<le> yoe + 1" "yoe + 1 < 400" by simp_all
      have "y div 400 = era" "y mod 400 = yoe + 1"
        by (rule int_div_pos_eq [OF y b(3,4)], rule int_mod_pos_eq [OF y b(3,4)])
      then show ?thesis
        using first_day_next [OF b(1,2)] ly doy d3
        by (simp add: days_of_def yoe_def [symmetric] era_def [symmetric])
    qed
    then show ?thesis using n one feb by (simp add: valid_date_def)
  next
    case year
    then have "y' = y + 1" "m' = 1" "d' = 1" using assms(2) by (auto simp: next_date_def month_days_def)
    then show ?thesis using year
      by (simp add: days_of_def day_of_year_def month_from_march_def valid_date_def month_days_def)
  qed
  then show "days_of y' m' d' = days_of y m d + 1" "valid_date y' m' d'" by simp_all
qed

end
