(* ===== verification/PosixTimeProps.thy ===== *)
theory PosixTimeProps
  imports PosixTimeFacts
begin

text \<open>
  The properties of the calendar conversions: they are inverse to each other on exactly the
  years 0000 to 9999, a day is 86400 seconds after the day before it in the Gregorian calendar,
  and the adjustment and difference functions are addition and subtraction of seconds.
\<close>

lemma tm_inverse:
  assumes "OPENSSL_tm_to_posix t = Some p"
  shows "OPENSSL_posix_to_tm p = Some t" "is_valid_posix_time p"
  using utc_of_posix [OF assms [unfolded OPENSSL_tm_to_posix_def]]
  by (cases t; simp add: OPENSSL_posix_to_tm_def)+

lemma posix_inverse:
  assumes "is_valid_posix_time p"
  obtains t where "OPENSSL_posix_to_tm p = Some t" "OPENSSL_tm_to_posix t = Some p"
proof -
  obtain y m d h mi s where "utc_from_posix_time p = Some (y, m, d, h, mi, s)"
    "posix_time_from_utc y m d h mi s = Some p" using posix_of_utc [OF assms] by blast
  then show ?thesis by (intro that) (auto simp: OPENSSL_posix_to_tm_def OPENSSL_tm_to_posix_def)
qed

lemma posix_out_of_range: "\<not> is_valid_posix_time p \<Longrightarrow> OPENSSL_posix_to_tm p = None"
  by (simp add: OPENSSL_posix_to_tm_def utc_from_posix_time_def)

lemma posix_to_tm_iff: "OPENSSL_posix_to_tm p = Some t \<longleftrightarrow> OPENSSL_tm_to_posix t = Some p"
proof
  assume "OPENSSL_posix_to_tm p = Some t"
  moreover from this have "is_valid_posix_time p" using posix_out_of_range by fastforce
  ultimately show "OPENSSL_tm_to_posix t = Some p" using posix_inverse [of p] by auto
qed (rule tm_inverse(1))

definition noon :: tm where
  "noon = \<lparr>tm_sec = 0, tm_min = 0, tm_hour = 12, tm_mday = 29, tm_mon = 1, tm_year = 124\<rparr>"

lemma noon_posix: "OPENSSL_tm_to_posix noon = Some 1709208000"
  by (simp add: noon_def OPENSSL_tm_to_posix_def posix_time_from_utc_def is_valid_date_def
      is_valid_time_def leap_year_def)

text \<open>
  C10. \<open>OPENSSL_tm_to_posix\<close> and \<open>OPENSSL_posix_to_tm\<close> are inverse to each
  other, and the second is defined on exactly the times from 0000-01-01 00:00:00 to 9999-12-31
  23:59:59.
\<close>
theorem posix_time_bijection:
  "(OPENSSL_posix_to_tm p = Some t \<longleftrightarrow> OPENSSL_tm_to_posix t = Some p)
   \<and> (OPENSSL_posix_to_tm p \<noteq> None \<longleftrightarrow> -62167219200 \<le> p \<and> p \<le> 253402300799)"
proof -
  have "OPENSSL_posix_to_tm p \<noteq> None \<longleftrightarrow> is_valid_posix_time p"
    using posix_inverse [of p] posix_out_of_range [of p] by (metis option.distinct(1))
  then show ?thesis by (simp only: posix_to_tm_iff is_valid_posix_time_def simp_thms)
qed

text \<open>
  C18. \<open>posix_time_from_utc\<close> counts Gregorian days: 1970-01-01 is day zero, and a valid
  date is 86400 seconds before the date that follows it in the calendar, at the same time of day.
\<close>
theorem posix_time_calendar:
  assumes "posix_time_from_utc y m d h mi s = Some t" "next_date (y, m, d) = (y', m', d')" "y' \<le> 9999"
  shows "posix_time_from_utc y' m' d' h mi s = Some (t + 86400)
    \<and> posix_time_from_utc 1970 1 1 0 0 0 = Some 0"
proof -
  have v: "valid_date y m d" "0 \<le> y" "y \<le> 9999" "is_valid_time h mi s"
    and t: "t = days_of y m d * 86400 + h * 3600 + mi * 60 + s"
    using assms(1) by (auto simp: posix_time_from_utc_eq split: if_splits)
  note n = days_of_next [OF v(1) assms(2)]
  have "0 \<le> y'" using assms(2) v by (auto simp: next_date_def split: if_splits)
  then have "posix_time_from_utc y' m' d' h mi s = Some (t + 86400)"
    using v n assms(3) by (simp add: posix_time_from_utc_eq t)
  moreover have "posix_time_from_utc 1970 1 1 0 0 0 = Some 0"
    by (simp add: posix_time_from_utc_def is_valid_date_def is_valid_time_def leap_year_def)
  ultimately show ?thesis ..
qed

theorem posix_time_calendar_witness:
  "posix_time_from_utc 1970 1 1 0 0 0 = Some 0 \<and> posix_time_from_utc 2024 3 1 12 0 0 = Some 1709294400"
proof -
  have "posix_time_from_utc 2024 2 29 12 0 0 = Some 1709208000"
    using noon_posix by (simp add: OPENSSL_tm_to_posix_def noon_def)
  moreover have "next_date (2024, 2, 29) = (2024, 3, 1)"
    by (simp add: next_date_def month_days_def leap_def)
  ultimately show ?thesis using posix_time_calendar [of 2024 2 29 12 0 0 1709208000 2024 3 1] by simp
qed



text \<open>
  \<open>OPENSSL_gmtime_diff\<close> splits the difference of two times into days and seconds
  of the same sign with less than a day of seconds, and \<open>OPENSSL_gmtime_adj\<close> by that
  difference leads from the first time to the second.
\<close>
theorem gmtime_diff_adj:
  assumes "OPENSSL_gmtime_diff from_t to_t = Some (days, secs)"
  shows "OPENSSL_gmtime_adj from_t days secs = Some to_t \<and> \<bar>secs\<bar> < 86400
    \<and> (days = 0 \<or> secs = 0 \<or> (0 < days \<longleftrightarrow> 0 < secs))"
proof -
  obtain a b where ab: "OPENSSL_tm_to_posix to_t = Some b" "OPENSSL_tm_to_posix from_t = Some a"
    and ds: "days = (b - a) sdiv 86400" "secs = (b - a) smod 86400"
    using assms by (auto simp: OPENSSL_gmtime_diff_def Let_def split: option.splits)
  have sum: "days * 86400 + secs = b - a" unfolding ds by (rule sdiv_mult_smod_eq)
  have sign: "\<bar>secs\<bar> < 86400" "b - a \<ge> 0 \<Longrightarrow> days \<ge> 0 \<and> secs \<ge> 0" "b - a \<le> 0 \<Longrightarrow> days \<le> 0 \<and> secs \<le> 0"
    unfolding ds signed_divide_int_def signed_modulo_int_def
    by (auto simp: abs_mult sgn_if zdiv_zminus1_eq_if)
  have r: "\<bar>a\<bar> < 253402300800" "\<bar>b\<bar> < 253402300800"
    using tm_inverse(2) [OF ab(1)] tm_inverse(2) [OF ab(2)] by (auto simp: is_valid_posix_time_def)
  have "OPENSSL_gmtime_adj from_t days secs = OPENSSL_posix_to_tm (a + days * 86400 + secs)"
    using ab(2)
    by (auto simp: OPENSSL_gmtime_adj_def Let_def) (use sum r sign in linarith)+
  also have "\<dots> = Some to_t" using sum tm_inverse(1) [OF ab(1)] by (simp add: add.assoc)
  finally show ?thesis using sign by linarith
qed

theorem gmtime_diff_adj_witness:
  "OPENSSL_gmtime_adj noon 0 0 = Some noon"
proof -
  have "OPENSSL_gmtime_diff noon noon = Some (0, 0)"
    by (simp add: OPENSSL_gmtime_diff_def noon_posix)
  from gmtime_diff_adj [OF this] show ?thesis by simp
qed

end
