(* ===== verification/Cbs.thy ===== *)
theory Cbs
  imports CMem PosixTime
begin

text \<open>
  The byte-string reader of \<open>crypto/bytestring/cbs.c\<close>. A \<open>CBS\<close> is the list
  of bytes it still covers. A function that takes \<open>CBS *cbs\<close> returns its result
  (\<open>None\<close> for the C result 0) and the \<open>CBS\<close> as it is afterwards, also on
  failure: several of them have consumed input by then. Output parameters are the value in
  \<open>Some\<close>; what C leaves in them on failure is not modelled.
\<close>

type_synonym cbs = "u8 list"

section \<open>Bytes and integers\<close>

definition cbs_get :: "nat \<Rightarrow> cbs \<Rightarrow> cbs option \<times> cbs" where
  "cbs_get n cbs = (if length cbs < n then (None, cbs) else (Some (take n cbs), drop n cbs))"

definition CBS_skip :: "nat \<Rightarrow> cbs \<Rightarrow> unit option \<times> cbs" where
  "CBS_skip n cbs = get_then (cbs_get n cbs) (\<lambda>_ cbs. (Some (), cbs))"

text \<open>Copies into fresh memory: \<open>heap_ok\<close> says whether the allocation of a size
  succeeds. The result is success and the new buffer, if any.\<close>

definition CBS_stow :: "(nat \<Rightarrow> bool) \<Rightarrow> cbs \<Rightarrow> bool \<times> u8 list option" where
  "CBS_stow heap_ok cbs =
    (if cbs = [] then (True, None)
     else if heap_ok (length cbs) then (True, Some cbs) else (False, None))"

text \<open>\<open>OPENSSL_strndup\<close> copies up to the first NUL and terminates the copy.\<close>

definition CBS_strdup :: "(nat \<Rightarrow> bool) \<Rightarrow> cbs \<Rightarrow> u8 list option" where
  "CBS_strdup heap_ok cbs =
    (let s = takeWhile (\<lambda>c. c \<noteq> 0) cbs @ [0] in if heap_ok (length s) then Some s else None)"

definition CBS_contains_zero_byte :: "cbs \<Rightarrow> bool" where
  "CBS_contains_zero_byte cbs \<longleftrightarrow> 0 \<in> set cbs"

definition CBS_mem_equal :: "cbs \<Rightarrow> u8 list \<Rightarrow> bool" where
  "CBS_mem_equal cbs bytes = (if length bytes \<noteq> length cbs then False else cbs = bytes)"

definition be_value :: "u8 list \<Rightarrow> u64" where
  "be_value bs = foldl (\<lambda>r b. push_bit 8 r OR to_u64 b) 0 bs"

definition cbs_get_u :: "nat \<Rightarrow> cbs \<Rightarrow> u64 option \<times> cbs" where
  "cbs_get_u n cbs = get_then (cbs_get n cbs) (\<lambda>d cbs. (Some (be_value d), cbs))"

definition CBS_get_u8 :: "cbs \<Rightarrow> u8 option \<times> cbs" where
  "CBS_get_u8 cbs = get_then (cbs_get 1 cbs) (\<lambda>v cbs. (Some (hd v), cbs))"

definition CRYPTO_bswap2 :: "u16 \<Rightarrow> u16" where
  "CRYPTO_bswap2 x = drop_bit 8 x OR push_bit 8 x"

definition CRYPTO_bswap4 :: "u32 \<Rightarrow> u32" where
  "CRYPTO_bswap4 x0 =
    (let x = drop_bit 16 x0 OR push_bit 16 x0
     in drop_bit 8 (x AND 0xff00ff00) OR push_bit 8 (x AND 0x00ff00ff))"

definition CRYPTO_bswap8 :: "u64 \<Rightarrow> u64" where
  "CRYPTO_bswap8 x =
    to_u64 (CRYPTO_bswap4 (to_u32 (drop_bit 32 x))) OR push_bit 32 (to_u64 (CRYPTO_bswap4 (to_u32 x)))"

definition CBS_get_u16 :: "cbs \<Rightarrow> u16 option \<times> cbs" where
  "CBS_get_u16 cbs = get_then (cbs_get_u 2 cbs) (\<lambda>v cbs. (Some (to_u16 v), cbs))"

definition CBS_get_u16le :: "cbs \<Rightarrow> u16 option \<times> cbs" where
  "CBS_get_u16le cbs = get_then (CBS_get_u16 cbs) (\<lambda>v cbs. (Some (CRYPTO_bswap2 v), cbs))"

definition CBS_get_u24 :: "cbs \<Rightarrow> u32 option \<times> cbs" where
  "CBS_get_u24 cbs = get_then (cbs_get_u 3 cbs) (\<lambda>v cbs. (Some (to_u32 v), cbs))"

definition CBS_get_u32 :: "cbs \<Rightarrow> u32 option \<times> cbs" where
  "CBS_get_u32 cbs = get_then (cbs_get_u 4 cbs) (\<lambda>v cbs. (Some (to_u32 v), cbs))"

definition CBS_get_u32le :: "cbs \<Rightarrow> u32 option \<times> cbs" where
  "CBS_get_u32le cbs = get_then (CBS_get_u32 cbs) (\<lambda>v cbs. (Some (CRYPTO_bswap4 v), cbs))"

definition CBS_get_u64 :: "cbs \<Rightarrow> u64 option \<times> cbs" where
  "CBS_get_u64 cbs = cbs_get_u 8 cbs"

definition CBS_get_u64le :: "cbs \<Rightarrow> u64 option \<times> cbs" where
  "CBS_get_u64le cbs = get_then (cbs_get_u 8 cbs) (\<lambda>v cbs. (Some (CRYPTO_bswap8 v), cbs))"

definition CBS_get_last_u8 :: "cbs \<Rightarrow> u8 option \<times> cbs" where
  "CBS_get_last_u8 cbs = (if cbs = [] then (None, cbs) else (Some (last cbs), butlast cbs))"

definition CBS_get_bytes :: "nat \<Rightarrow> cbs \<Rightarrow> cbs option \<times> cbs" where
  "CBS_get_bytes n cbs = get_then (cbs_get n cbs) (\<lambda>v cbs. (Some v, cbs))"

text \<open>\<open>CBS_copy_bytes\<close> stores into \<open>out\<close> at offset 0; no result when that
  leaves the buffer.\<close>

definition CBS_copy_bytes :: "u8 list \<Rightarrow> nat \<Rightarrow> cbs \<Rightarrow> (u8 list option \<times> cbs) option" where
  "CBS_copy_bytes out n cbs =
    (case cbs_get n cbs of
       (None, cbs) \<Rightarrow> Some (None, cbs)
     | (Some v, cbs) \<Rightarrow> do { out \<leftarrow> copy_to out 0 v; Some (Some out, cbs) })"

definition cbs_get_length_prefixed :: "nat \<Rightarrow> cbs \<Rightarrow> cbs option \<times> cbs" where
  "cbs_get_length_prefixed len_len cbs =
    get_then (cbs_get_u len_len cbs) (\<lambda>len cbs. CBS_get_bytes (unat len) cbs)"

definition CBS_get_u8_length_prefixed :: "cbs \<Rightarrow> cbs option \<times> cbs" where
  "CBS_get_u8_length_prefixed cbs = cbs_get_length_prefixed 1 cbs"

definition CBS_get_u16_length_prefixed :: "cbs \<Rightarrow> cbs option \<times> cbs" where
  "CBS_get_u16_length_prefixed cbs = cbs_get_length_prefixed 2 cbs"

definition CBS_get_u24_length_prefixed :: "cbs \<Rightarrow> cbs option \<times> cbs" where
  "CBS_get_u24_length_prefixed cbs = cbs_get_length_prefixed 3 cbs"

definition CBS_get_until_first :: "u8 \<Rightarrow> cbs \<Rightarrow> cbs option \<times> cbs" where
  "CBS_get_until_first c cbs =
    (if c \<notin> set cbs then (None, cbs)
     else CBS_get_bytes (length (takeWhile (\<lambda>x. x \<noteq> c) cbs)) cbs)"

definition OPENSSL_isdigit :: "u8 \<Rightarrow> bool" where
  "OPENSSL_isdigit c \<longleftrightarrow> c \<ge> 48 \<and> c \<le> 57"

abbreviation (input) UINT64_MAX :: u64 where "UINT64_MAX \<equiv> - 1"

fun u64_decimal_loop :: "u64 \<Rightarrow> bool \<Rightarrow> cbs \<Rightarrow> u64 option \<times> cbs" where
  "u64_decimal_loop v seen_digit [] = (if seen_digit then Some v else None, [])"
| "u64_decimal_loop v seen_digit (c # cbs) =
    (if \<not> OPENSSL_isdigit c then (if seen_digit then Some v else None, c # cbs)
     else
       let d = to_u64 c - 48 in
       if (v = 0 \<and> seen_digit) \<or> v > UINT64_MAX div 10 \<or> v * 10 > UINT64_MAX - d then (None, cbs)
       else u64_decimal_loop (v * 10 + d) True cbs)"

definition CBS_get_u64_decimal :: "cbs \<Rightarrow> u64 option \<times> cbs" where
  "CBS_get_u64_decimal cbs = u64_decimal_loop 0 False cbs"

section \<open>DER elements\<close>

abbreviation (input) CBS_ASN1_CONSTRUCTED :: u32 where "CBS_ASN1_CONSTRUCTED \<equiv> 0x20000000"
abbreviation (input) CBS_ASN1_TAG_NUMBER_MASK :: u32 where "CBS_ASN1_TAG_NUMBER_MASK \<equiv> 0x1fffffff"
abbreviation (input) CBS_ASN1_BOOLEAN :: u32 where "CBS_ASN1_BOOLEAN \<equiv> 1"
abbreviation (input) CBS_ASN1_INTEGER :: u32 where "CBS_ASN1_INTEGER \<equiv> 2"
abbreviation (input) CBS_ASN1_OCTETSTRING :: u32 where "CBS_ASN1_OCTETSTRING \<equiv> 4"

fun parse_base128_loop :: "u64 \<Rightarrow> cbs \<Rightarrow> u64 option \<times> cbs" where
  "parse_base128_loop v [] = (None, [])"
| "parse_base128_loop v (b # cbs) =
    (if drop_bit (64 - 7) v \<noteq> 0 then (None, cbs)
     else if v = 0 \<and> b = 0x80 then (None, cbs)
     else
       let v = push_bit 7 v OR to_u64 (b AND 0x7f) in
       if b AND 0x80 \<noteq> 0 then parse_base128_loop v cbs else (Some v, cbs))"

definition parse_base128_integer :: "cbs \<Rightarrow> u64 option \<times> cbs" where
  "parse_base128_integer cbs = parse_base128_loop 0 cbs"

definition parse_asn1_tag :: "cbs \<Rightarrow> u32 option \<times> cbs" where
  "parse_asn1_tag cbs =
    get_then (CBS_get_u8 cbs) (\<lambda>tag_byte cbs.
      let tag = push_bit 24 (to_u32 tag_byte AND 0xe0);
          tag_number = to_u32 tag_byte AND 0x1f in
      get_then
        (if tag_number = 0x1f then
           get_then (parse_base128_integer cbs) (\<lambda>v cbs.
             if v > to_u64 CBS_ASN1_TAG_NUMBER_MASK \<or> v < 0x1f then (None, cbs)
             else (Some (to_u32 v), cbs))
         else (Some tag_number, cbs))
        (\<lambda>tag_number cbs.
           let tag = tag OR tag_number in
           if tag AND NOT CBS_ASN1_CONSTRUCTED = 0 then (None, cbs) else (Some tag, cbs)))"

record asn1_element =
  el_bytes :: cbs
  el_tag :: u32
  el_header_len :: nat
  el_ber_found :: bool
  el_indefinite :: bool

text \<open>The header is parsed on a copy, so \<open>cbs\<close> only moves when the whole element is
  there. The length test \<open>len + header_len + num_bytes < len\<close> is on \<open>size_t\<close>.\<close>

definition cbs_get_any_asn1_element :: "bool \<Rightarrow> cbs \<Rightarrow> asn1_element option \<times> cbs" where
  "cbs_get_any_asn1_element ber_ok cbs =
    (case parse_asn1_tag cbs of
       (None, _) \<Rightarrow> (None, cbs)
     | (Some tag, header) \<Rightarrow>
     (case CBS_get_u8 header of
       (None, _) \<Rightarrow> (None, cbs)
     | (Some length_byte, header) \<Rightarrow>
       let header_len = length cbs - length header;
           finish = (\<lambda>len hlen ber indef.
             get_then (CBS_get_bytes len cbs) (\<lambda>v cbs.
               (Some \<lparr>el_bytes = v, el_tag = tag, el_header_len = hlen,
                      el_ber_found = ber, el_indefinite = indef\<rparr>, cbs))) in
       if length_byte AND 0x80 = 0 then finish (unat length_byte + header_len) header_len False False
       else
         let num_bytes = unat (length_byte AND 0x7f) in
         if ber_ok \<and> tag AND CBS_ASN1_CONSTRUCTED \<noteq> 0 \<and> num_bytes = 0
         then finish header_len header_len True True
         else if num_bytes = 0 \<or> num_bytes > 4 then (None, cbs)
         else
           (case cbs_get_u num_bytes header of
              (None, _) \<Rightarrow> (None, cbs)
            | (Some len64, _) \<Rightarrow>
              let long_form = len64 < 128;
                  padded = drop_bit ((num_bytes - 1) * 8) len64 = 0 in
              if (long_form \<or> padded) \<and> \<not> ber_ok then (None, cbs)
              else
                let len = unat len64;
                    whole = (len + header_len + num_bytes) mod 2 ^ 64 in
                if whole < len then (None, cbs)
                else finish whole (header_len + num_bytes) (long_form \<or> padded) False)))"

definition CBS_get_any_asn1_element :: "cbs \<Rightarrow> asn1_element option \<times> cbs" where
  "CBS_get_any_asn1_element cbs = cbs_get_any_asn1_element False cbs"

definition CBS_get_any_ber_asn1_element :: "cbs \<Rightarrow> asn1_element option \<times> cbs" where
  "CBS_get_any_ber_asn1_element cbs = cbs_get_any_asn1_element True cbs"

text \<open>The contents and the tag of the next element.\<close>

definition CBS_get_any_asn1 :: "cbs \<Rightarrow> (cbs \<times> u32) option \<times> cbs" where
  "CBS_get_any_asn1 cbs =
    get_then (CBS_get_any_asn1_element cbs) (\<lambda>e cbs.
      case CBS_skip (el_header_len e) (el_bytes e) of
        (None, _) \<Rightarrow> (None, cbs)
      | (Some _, contents) \<Rightarrow> (Some (contents, el_tag e), cbs))"

definition cbs_get_asn1 :: "u32 \<Rightarrow> bool \<Rightarrow> cbs \<Rightarrow> cbs option \<times> cbs" where
  "cbs_get_asn1 tag_value skip_header cbs =
    get_then (CBS_get_any_asn1_element cbs) (\<lambda>e cbs.
      if el_tag e \<noteq> tag_value then (None, cbs)
      else if skip_header then
        (case CBS_skip (el_header_len e) (el_bytes e) of
           (None, _) \<Rightarrow> (None, cbs)
         | (Some _, contents) \<Rightarrow> (Some contents, cbs))
      else (Some (el_bytes e), cbs))"

definition CBS_get_asn1 :: "u32 \<Rightarrow> cbs \<Rightarrow> cbs option \<times> cbs" where
  "CBS_get_asn1 tag_value cbs = cbs_get_asn1 tag_value True cbs"

definition CBS_get_asn1_element :: "u32 \<Rightarrow> cbs \<Rightarrow> cbs option \<times> cbs" where
  "CBS_get_asn1_element tag_value cbs = cbs_get_asn1 tag_value False cbs"

definition CBS_peek_asn1_tag :: "u32 \<Rightarrow> cbs \<Rightarrow> bool" where
  "CBS_peek_asn1_tag tag_value cbs \<longleftrightarrow> fst (parse_asn1_tag cbs) = Some tag_value"

section \<open>Values\<close>

text \<open>Whether the contents are a minimal INTEGER, and its sign.\<close>

definition CBS_is_valid_asn1_integer :: "cbs \<Rightarrow> bool option" where
  "CBS_is_valid_asn1_integer cbs =
    (case CBS_get_u8 cbs of
       (None, _) \<Rightarrow> None
     | (Some first_byte, copy) \<Rightarrow>
       let is_negative = (first_byte AND 0x80 \<noteq> 0) in
       (case CBS_get_u8 copy of
          (None, _) \<Rightarrow> Some is_negative
        | (Some second_byte, _) \<Rightarrow>
          if (first_byte = 0 \<and> second_byte AND 0x80 = 0) \<or> (first_byte = 0xff \<and> second_byte AND 0x80 \<noteq> 0)
          then None else Some is_negative))"

definition CBS_is_unsigned_asn1_integer :: "cbs \<Rightarrow> bool" where
  "CBS_is_unsigned_asn1_integer cbs \<longleftrightarrow> CBS_is_valid_asn1_integer cbs = Some False"

fun asn1_uint64_loop :: "u64 \<Rightarrow> u8 list \<Rightarrow> u64 option" where
  "asn1_uint64_loop out [] = Some out"
| "asn1_uint64_loop out (b # bs) =
    (if drop_bit 56 out \<noteq> 0 then None else asn1_uint64_loop (push_bit 8 out OR to_u64 b) bs)"

definition CBS_get_asn1_uint64 :: "cbs \<Rightarrow> u64 option \<times> cbs" where
  "CBS_get_asn1_uint64 cbs =
    get_then (CBS_get_asn1 CBS_ASN1_INTEGER cbs) (\<lambda>bytes cbs.
      if \<not> CBS_is_unsigned_asn1_integer bytes then (None, cbs)
      else (asn1_uint64_loop 0 bytes, cbs))"

text \<open>An \<open>int64_t\<close> is the word of its two's complement.\<close>

definition CBS_get_asn1_int64 :: "cbs \<Rightarrow> u64 option \<times> cbs" where
  "CBS_get_asn1_int64 cbs =
    get_then (CBS_get_asn1 CBS_ASN1_INTEGER cbs) (\<lambda>bytes cbs.
      case CBS_is_valid_asn1_integer bytes of
        None \<Rightarrow> (None, cbs)
      | Some is_negative \<Rightarrow>
        if length bytes > 8 then (None, cbs)
        else
          let sign_extend = replicate (8 - length bytes) (if is_negative then 0xff else 0) @ bytes
          in (Some (be_value sign_extend), cbs))"

definition CBS_get_asn1_bool :: "cbs \<Rightarrow> bool option \<times> cbs" where
  "CBS_get_asn1_bool cbs =
    get_then (CBS_get_asn1 CBS_ASN1_BOOLEAN cbs) (\<lambda>bytes cbs.
      if length bytes \<noteq> 1 then (None, cbs)
      else if hd bytes \<noteq> 0 \<and> hd bytes \<noteq> 0xff then (None, cbs)
      else (Some (hd bytes \<noteq> 0), cbs))"

text \<open>Optional elements: \<open>Some None\<close> is an absent one.\<close>

definition CBS_get_optional_asn1 :: "u32 \<Rightarrow> cbs \<Rightarrow> cbs option option \<times> cbs" where
  "CBS_get_optional_asn1 tag cbs =
    (if CBS_peek_asn1_tag tag cbs
     then get_then (CBS_get_asn1 tag cbs) (\<lambda>v cbs. (Some (Some v), cbs))
     else (Some None, cbs))"

definition CBS_get_optional_asn1_octet_string :: "u32 \<Rightarrow> cbs \<Rightarrow> (cbs \<times> bool) option \<times> cbs" where
  "CBS_get_optional_asn1_octet_string tag cbs =
    get_then (CBS_get_optional_asn1 tag cbs) (\<lambda>child cbs.
      case child of
        None \<Rightarrow> (Some ([], False), cbs)
      | Some c \<Rightarrow>
        (case CBS_get_asn1 CBS_ASN1_OCTETSTRING c of
           (Some out, []) \<Rightarrow> (Some (out, True), cbs)
         | _ \<Rightarrow> (None, cbs)))"

definition CBS_get_optional_asn1_uint64 :: "u32 \<Rightarrow> u64 \<Rightarrow> cbs \<Rightarrow> u64 option \<times> cbs" where
  "CBS_get_optional_asn1_uint64 tag default_value cbs =
    get_then (CBS_get_optional_asn1 tag cbs) (\<lambda>child cbs.
      case child of
        None \<Rightarrow> (Some default_value, cbs)
      | Some c \<Rightarrow>
        (case CBS_get_asn1_uint64 c of
           (Some out, []) \<Rightarrow> (Some out, cbs)
         | _ \<Rightarrow> (None, cbs)))"

definition CBS_get_optional_asn1_bool :: "u32 \<Rightarrow> bool \<Rightarrow> cbs \<Rightarrow> bool option \<times> cbs" where
  "CBS_get_optional_asn1_bool tag default_value cbs =
    get_then (CBS_get_optional_asn1 tag cbs) (\<lambda>child cbs.
      case child of
        None \<Rightarrow> (Some default_value, cbs)
      | Some c \<Rightarrow>
        (case CBS_get_asn1 CBS_ASN1_BOOLEAN c of
           (Some [boolean], []) \<Rightarrow>
             (if boolean = 0 then Some False else if boolean = 0xff then Some True else None, cbs)
         | _ \<Rightarrow> (None, cbs)))"

definition CBS_is_valid_asn1_bitstring :: "cbs \<Rightarrow> bool" where
  "CBS_is_valid_asn1_bitstring cbs =
    (case CBS_get_u8 cbs of
       (None, _) \<Rightarrow> False
     | (Some num_unused_bits, inp) \<Rightarrow>
       if num_unused_bits > 7 then False
       else if num_unused_bits = 0 then True
       else
         (case CBS_get_last_u8 inp of
            (None, _) \<Rightarrow> False
          | (Some l, _) \<Rightarrow> l AND (push_bit (unat num_unused_bits) 1 - 1) = 0))"

definition CBS_asn1_bitstring_has_bit :: "cbs \<Rightarrow> u32 \<Rightarrow> bool" where
  "CBS_asn1_bitstring_has_bit cbs bit_no =
    (if \<not> CBS_is_valid_asn1_bitstring cbs then False
     else
       let byte_num = unat (drop_bit 3 bit_no + 1);
           bit_num = 7 - unat (bit_no AND 7)
       in byte_num < length cbs \<and> cbs ! byte_num AND push_bit bit_num 1 \<noteq> 0)"

fun valid_oid_loop :: "u8 \<Rightarrow> cbs \<Rightarrow> bool" where
  "valid_oid_loop prev [] = (prev AND 0x80 = 0)"
| "valid_oid_loop prev (v # cbs) =
    (if prev AND 0x80 = 0 \<and> v = 0x80 then False else valid_oid_loop v cbs)"

definition CBS_is_valid_asn1_oid :: "cbs \<Rightarrow> bool" where
  "CBS_is_valid_asn1_oid cbs = (if cbs = [] then False else valid_oid_loop 0 cbs)"

section \<open>Times\<close>

definition cbs_get_two_digits :: "cbs \<Rightarrow> int option \<times> cbs" where
  "cbs_get_two_digits cbs =
    get_then (CBS_get_u8 cbs) (\<lambda>first_digit cbs.
      if \<not> OPENSSL_isdigit first_digit then (None, cbs)
      else get_then (CBS_get_u8 cbs) (\<lambda>second_digit cbs.
        if \<not> OPENSSL_isdigit second_digit then (None, cbs)
        else (Some ((uint first_digit - 48) * 10 + (uint second_digit - 48)), cbs)))"

definition is_valid_day :: "int \<Rightarrow> int \<Rightarrow> int \<Rightarrow> bool" where
  "is_valid_day year month day =
    (if day < 1 then False
     else if month \<in> {1, 3, 5, 7, 8, 10, 12} then day \<le> 31
     else if month \<in> {4, 6, 9, 11} then day \<le> 30
     else if month = 2 then
       (if (year smod 4 = 0 \<and> year smod 100 \<noteq> 0) \<or> year smod 400 = 0 then day \<le> 29 else day \<le> 28)
     else False)"

definition parse_time_year :: "bool \<Rightarrow> cbs \<Rightarrow> int option \<times> cbs" where
  "parse_time_year is_gentime copy =
    (if is_gentime then
       get_then (cbs_get_two_digits copy) (\<lambda>hi copy.
         get_then (cbs_get_two_digits copy) (\<lambda>lo copy. (Some (hi * 100 + lo), copy)))
     else
       get_then (cbs_get_two_digits copy) (\<lambda>tmp copy.
         let year = 1900 + tmp;
             year = (if year < 1950 then year + 100 else year)
         in if year \<ge> 2050 then (None, copy) else (Some year, copy)))"

text \<open>The offset of the time zone in seconds; \<open>Z + -\<close> are 90, 43, 45.\<close>

definition parse_time_zone :: "bool \<Rightarrow> cbs \<Rightarrow> int option \<times> cbs" where
  "parse_time_zone allow_timezone_offset copy =
    get_then (CBS_get_u8 copy) (\<lambda>tz copy.
      if tz = 90 then (Some 0, copy)
      else if tz = 43 \<or> tz = 45 then
        let offset_sign = (if tz = 43 then 1 else -1) in
        if \<not> allow_timezone_offset then (None, copy)
        else
          get_then (cbs_get_two_digits copy) (\<lambda>offset_hours copy.
            if offset_hours > 23 then (None, copy)
            else get_then (cbs_get_two_digits copy) (\<lambda>offset_minutes copy.
              if offset_minutes > 59 then (None, copy)
              else (Some (offset_sign * (offset_hours * 3600 + offset_minutes * 60)), copy)))
      else (None, copy))"

text \<open>The result is the filled \<open>struct tm\<close>; a caller that passes NULL skips the
  adjustment by the offset, which is the argument \<open>want_tm\<close>.\<close>

definition CBS_parse_rfc5280_time_internal :: "bool \<Rightarrow> bool \<Rightarrow> bool \<Rightarrow> cbs \<Rightarrow> tm option" where
  "CBS_parse_rfc5280_time_internal is_gentime allow_timezone_offset want_tm cbs =
    fst (get_then (parse_time_year is_gentime cbs) (\<lambda>year copy.
      get_then (cbs_get_two_digits copy) (\<lambda>month copy.
      if month < 1 \<or> month > 12 then (None, copy) else
      get_then (cbs_get_two_digits copy) (\<lambda>day copy.
      if \<not> is_valid_day year month day then (None, copy) else
      get_then (cbs_get_two_digits copy) (\<lambda>hour copy.
      if hour > 23 then (None, copy) else
      get_then (cbs_get_two_digits copy) (\<lambda>mi copy.
      if mi > 59 then (None, copy) else
      get_then (cbs_get_two_digits copy) (\<lambda>sec copy.
      if sec > 59 then (None, copy) else
      get_then (parse_time_zone allow_timezone_offset copy) (\<lambda>offset_seconds copy.
      if copy \<noteq> [] then (None, copy)
      else
        let t = \<lparr>tm_sec = sec, tm_min = mi, tm_hour = hour, tm_mday = day,
                 tm_mon = month - 1, tm_year = year - 1900\<rparr> in
        if want_tm \<and> offset_seconds \<noteq> 0 then (OPENSSL_gmtime_adj t 0 offset_seconds, copy)
        else (Some t, copy)))))))))"

definition CBS_parse_generalized_time :: "bool \<Rightarrow> bool \<Rightarrow> cbs \<Rightarrow> tm option" where
  "CBS_parse_generalized_time allow_timezone_offset want_tm cbs =
    CBS_parse_rfc5280_time_internal True allow_timezone_offset want_tm cbs"

definition CBS_parse_utc_time :: "bool \<Rightarrow> bool \<Rightarrow> cbs \<Rightarrow> tm option" where
  "CBS_parse_utc_time allow_timezone_offset want_tm cbs =
    CBS_parse_rfc5280_time_internal False allow_timezone_offset want_tm cbs"

end
