(* ===== verification/CbsFacts.thy ===== *)
theory CbsFacts
  imports Cbs
begin

text \<open>
  Specification of DER and the facts that tie the reader to it: big-endian numbers
  (\<open>be_nat\<close>, \<open>be_bytes\<close>), base-128 numbers (\<open>b128\<close>), identifier octets
  (\<open>der_tag\<close>), length octets (\<open>der_length\<close>) and elements (\<open>der_element\<close>). The
  reader accepts exactly the canonical encodings.
\<close>

section \<open>Splitting the input\<close>

lemma cbs_get_Some [simp]: "cbs_get n cbs = (Some v, rest) \<longleftrightarrow> cbs = v @ rest \<and> length v = n"
  by (auto simp: cbs_get_def)

lemma cbs_get_append [simp]: "length v = n \<Longrightarrow> cbs_get n (v @ rest) = (Some v, rest)"
  by simp

lemma cbs_get_None: "cbs_get n cbs = (None, s) \<longleftrightarrow> s = cbs \<and> length cbs < n"
  by (auto simp: cbs_get_def)

lemma get_u8_simps [simp]:
  "CBS_get_u8 [] = (None, [])" "CBS_get_u8 (b # cbs) = (Some b, cbs)"
  by (simp_all add: CBS_get_u8_def cbs_get_def)

lemma get_u8_Some: "CBS_get_u8 cbs = (Some b, rest) \<longleftrightarrow> cbs = b # rest"
  by (cases cbs) auto

section \<open>Big-endian numbers\<close>

fun be_nat :: "u8 list \<Rightarrow> nat" where
  "be_nat [] = 0"
| "be_nat (b # bs) = unat b * 256 ^ length bs + be_nat bs"

primrec be_bytes :: "nat \<Rightarrow> nat \<Rightarrow> u8 list" where
  "be_bytes 0 v = []"
| "be_bytes (Suc n) v = be_bytes n (v div 256) @ [byte_of (v mod 256)]"

lemma length_be_bytes [simp]: "length (be_bytes n v) = n"
  by (induction n arbitrary: v) simp_all

lemma be_nat_snoc: "be_nat (bs @ [b]) = be_nat bs * 256 + unat b"
  by (induction bs) (simp_all add: algebra_simps)

lemma be_nat_bound: "be_nat bs < 256 ^ length bs"
proof (induction bs rule: rev_induct)
  case (snoc b bs)
  have "be_nat bs * 256 + unat b < (be_nat bs + 1) * 256" by simp
  also have "\<dots> \<le> 256 ^ length bs * 256" using snoc by (intro mult_le_mono) simp_all
  finally show ?case by (simp add: be_nat_snoc)
qed simp

lemma be_nat_be_bytes: "be_nat (be_bytes n v) = v mod 256 ^ n"
proof (induction n arbitrary: v)
  case (Suc n)
  have "v div 256 mod 256 ^ n * 256 + v mod 256 = v mod (256 * 256 ^ n)"
    by (simp add: mod_mult2_eq)
  then show ?case by (simp add: be_nat_snoc Suc)
qed simp

lemma be_bytes_be_nat: "be_bytes (length bs) (be_nat bs) = bs"
proof (induction bs rule: rev_induct)
  case (snoc b bs)
  have "unat b < 256" by simp
  then have "(be_nat bs * 256 + unat b) div 256 = be_nat bs" "(be_nat bs * 256 + unat b) mod 256 = unat b"
    by simp_all
  then show ?case using snoc by (simp add: be_nat_snoc)
qed simp

lemma be_step:
  assumes "unat (r :: u64) * 256 < 2 ^ 64"
  shows "unat (push_bit 8 r OR to_u64 (b :: u8)) = unat r * 256 + unat b"
proof -
  have "unat b < 256" by simp
  then have "unat b + unat r * 256 < 2 ^ 64"
    using assms by (simp del: unat_u8_less)
  then show ?thesis
    using or_push_bit_unat [of "to_u64 b" 8 r] by (simp add: or.commute)
qed

lemma be_value_nat: "length bs \<le> 8 \<Longrightarrow> unat (be_value bs) = be_nat bs"
proof (induction bs rule: rev_induct)
  case (snoc b bs)
  then have "256 ^ length bs \<le> (256 :: nat) ^ 7" by (intro power_increasing) simp_all
  then have "be_nat bs < 256 ^ 7" using be_nat_bound [of bs] by linarith
  then show ?case using snoc be_step [of "be_value bs" b] by (simp add: be_value_def be_nat_snoc)
qed (simp add: be_value_def)

lemma get_u_bytes:
  assumes "n \<le> 8" "v < 256 ^ n"
  shows "cbs_get_u n (be_bytes n v @ rest) = (Some (word_of_nat v), rest)"
proof -
  have "unat (be_value (be_bytes n v)) = v" using assms by (simp add: be_value_nat be_nat_be_bytes)
  then have "be_value (be_bytes n v) = word_of_nat v" by (rule word_of_unatI)
  then show ?thesis by (simp add: cbs_get_u_def)
qed

lemma get_u_Some:
  assumes "cbs_get_u n cbs = (Some v, rest)" "n \<le> 8"
  obtains bs where "cbs = bs @ rest" "length bs = n" "unat v = be_nat bs"
  using assms by (auto simp: cbs_get_u_def be_value_nat elim!: get_then_SomeE)

section \<open>Base 128\<close>

fun b128_more :: "nat \<Rightarrow> u8 list" where
  "b128_more n = (if n < 128 then [byte_of (128 + n)] else b128_more (n div 128) @ [byte_of (128 + n mod 128)])"

declare b128_more.simps [simp del]

definition b128 :: "nat \<Rightarrow> u8 list" where
  "b128 n = (if n < 128 then [] else b128_more (n div 128)) @ [byte_of (n mod 128)]"

lemma u64_small_iff: "drop_bit 57 (v :: u64) = 0 \<longleftrightarrow> unat v < 2 ^ 57"
  by (simp add: word_unat_eq_iff drop_bit_eq_div unat_div div_eq_0_iff)

lemma base128_step:
  assumes "unat (v :: u64) < 2 ^ 57"
  shows "unat (push_bit 7 v OR to_u64 ((b :: u8) AND 0x7f)) = unat v * 128 + unat b mod 128"
proof -
  have "unat (to_u64 (b AND 0x7f)) = unat b mod 128" using low7_unat [of b] by simp
  then show ?thesis
    using or_push_bit_unat [of "to_u64 (b AND 0x7f)" 7 v] assms by (simp add: or.commute)
qed

lemma b128_byte:
  "m < 128 \<Longrightarrow> byte_of (128 + m) AND 0x80 \<noteq> 0" "m < 128 \<Longrightarrow> byte_of m AND 0x80 = 0"
  by (simp_all add: u8_msb_clear_iff)

lemma u8_msb_split:
  "b AND 0x80 \<noteq> 0 \<Longrightarrow> b = byte_of (128 + unat b mod 128)" "b AND 0x80 = 0 \<Longrightarrow> b = byte_of (unat b mod 128)"
proof -
  assume "b AND 0x80 \<noteq> 0"
  then have ge: "128 \<le> unat b" by (simp add: u8_msb_clear_iff)
  have "unat b mod 128 = unat b - 128" using ge le_mod_geq [of 128 "unat b"] unat_u8_less [of b] by simp
  then show "b = byte_of (128 + unat b mod 128)" using ge by (intro byte_of_eqI) linarith
next
  assume "b AND 0x80 = 0"
  then show "b = byte_of (unat b mod 128)" by (simp add: u8_msb_clear_iff)
qed

lemma b128_more_step: "0 < n \<Longrightarrow> m < 128 \<Longrightarrow> b128_more (n * 128 + m) = b128_more n @ [byte_of (128 + m)]"
  by (subst b128_more.simps) simp

lemma b128_step: "0 < n \<Longrightarrow> m < 128 \<Longrightarrow> b128 (n * 128 + m) = b128_more n @ [byte_of m]"
  by (simp add: b128_def)

text \<open>The loop on the encoding of a number, after the bytes of \<open>v\<close>.\<close>

lemma base128_loop_Cons:
  assumes "unat v < 2 ^ 57"
  shows "parse_base128_loop v (b # cbs) =
    (if v = 0 \<and> b = 0x80 then (None, cbs)
     else if b AND 0x80 \<noteq> 0 then parse_base128_loop (word_of_nat (unat v * 128 + unat b mod 128)) cbs
     else (Some (word_of_nat (unat v * 128 + unat b mod 128)), cbs))"
  using assms base128_step [OF assms, of b, THEN word_of_unatI]
  by (simp add: u64_small_iff Let_def del: of_nat_add of_nat_mult)

declare parse_base128_loop.simps(2) [simp del]

lemma base128_loop_more:
  "0 < n \<Longrightarrow> n < 2 ^ 57 \<Longrightarrow>
    parse_base128_loop 0 (b128_more n @ cbs) = parse_base128_loop (word_of_nat n) cbs"
proof (induction n arbitrary: cbs rule: b128_more.induct)
  case (1 n)
  show ?case
  proof (cases "n < 128")
    case True
    moreover have "byte_of (128 + n) \<noteq> 0x80" using True 1(2) by (simp add: word_unat_eq_iff)
    ultimately show ?thesis using b128_byte(1) [of n]
      by (subst b128_more.simps) (simp add: base128_loop_Cons del: of_nat_add)
  next
    case False
    have q: "0 < n div 128" "n div 128 < 2 ^ 57" using False 1(3) by simp_all
    have w: "unat (word_of_nat (n div 128) :: u64) = n div 128" using q by simp
    have nz: "(word_of_nat (n div 128) :: u64) \<noteq> 0" using q w by (metis unat_0 less_irrefl)
    have "parse_base128_loop 0 (b128_more n @ cbs)
        = parse_base128_loop (word_of_nat (n div 128)) (byte_of (128 + n mod 128) # cbs)"
      using 1(1) [OF False q, of "byte_of (128 + n mod 128) # cbs"] False by (subst b128_more.simps) simp
    also have "\<dots> = parse_base128_loop (word_of_nat n) cbs"
      using q nz b128_byte(1) [of "n mod 128"]
      by (simp add: base128_loop_Cons w del: of_nat_add of_nat_mult)
    finally show ?thesis .
  qed
qed

lemma parse_base128_b128:
  assumes "n < 2 ^ 64"
  shows "parse_base128_integer (b128 n @ cbs) = (Some (word_of_nat n), cbs)"
proof (cases "n < 128")
  case True
  moreover have "byte_of n \<noteq> 0x80" using True by (simp add: word_unat_eq_iff)
  ultimately show ?thesis using b128_byte(2) [of n]
    by (simp add: parse_base128_integer_def b128_def base128_loop_Cons)
next
  case False
  have q: "0 < n div 128" "n div 128 < 2 ^ 57" using False assms by simp_all
  have w: "unat (word_of_nat (n div 128) :: u64) = n div 128" using q by simp
  have nz: "(word_of_nat (n div 128) :: u64) \<noteq> 0" using q w by (metis unat_0 less_irrefl)
  have "unat (byte_of (n mod 128)) mod 128 = n mod 128" by simp
  then show ?thesis
    using False q nz b128_byte(2) [of "n mod 128"]
    by (simp add: parse_base128_integer_def b128_def base128_loop_more base128_loop_Cons w
        del: of_nat_add of_nat_mult)
qed

text \<open>Conversely the loop only accepts such encodings.\<close>

lemma base128_loop_canonical:
  assumes "parse_base128_loop v cbs = (Some w, rest)"
  shows "\<exists>ys. cbs = ys @ rest \<and> b128 (unat w) = (if v = 0 then [] else b128_more (unat v)) @ ys"
  using assms(1)
proof (induction cbs arbitrary: v)
  case (Cons b cbs)
  have v: "unat v < 2 ^ 57" using Cons.prems by (simp add: parse_base128_loop.simps(2) u64_small_iff split: if_splits)
  define n where "n = unat v * 128 + unat b mod 128"
  have n: "n < 2 ^ 64" using v unat_u8_less [of b] by (simp add: n_def)
  have wn: "unat (word_of_nat n :: u64) = n" using n by simp
  have not: "\<not> (v = 0 \<and> b = 0x80)" using Cons.prems v by (auto simp: base128_loop_Cons)
  show ?case
  proof (cases "b AND 0x80 = 0")
    case True
    then have w: "w = word_of_nat n" "rest = cbs"
      using Cons.prems not v by (auto simp: base128_loop_Cons n_def simp del: of_nat_add of_nat_mult)
    have "b128 n = (if v = 0 then [] else b128_more (unat v)) @ [b]"
      using u8_msb_split(2) [OF True] b128_step [of "unat v" "unat b mod 128"]
      by (auto simp: n_def b128_def word_unat_eq_iff)
    then show ?thesis by (simp add: w wn)
  next
    case False
    then have "parse_base128_loop (word_of_nat n) cbs = (Some w, rest)"
      using Cons.prems not v by (auto simp: base128_loop_Cons n_def simp del: of_nat_add of_nat_mult)
    moreover have zn: "(word_of_nat n :: u64) = 0 \<longleftrightarrow> n = 0" using wn by (metis unat_0 unat_eq_zero)
    ultimately obtain ys where ys: "cbs = ys @ rest"
      "b128 (unat w) = (if n = 0 then [] else b128_more n) @ ys"
      using Cons.IH [of "word_of_nat n"] unfolding zn wn by blast
    have b: "b = byte_of (128 + unat b mod 128)" by (rule u8_msb_split(1) [OF False])
    have "n \<noteq> 0" 
    proof
      assume "n = 0"
      then have "v = 0" "unat b mod 128 = 0" by (simp_all add: n_def word_unat_eq_iff)
      then show False using not b by (simp add: byte_of_def)
    qed
    moreover have "b128_more n = (if v = 0 then [] else b128_more (unat v)) @ [b]"
    proof (cases "v = 0")
      case True
      then show ?thesis using b by (subst b128_more.simps) (simp add: n_def)
    next
      case False
      then show ?thesis using b b128_more_step [of "unat v" "unat b mod 128"]
        by (simp add: n_def word_unat_eq_iff)
    qed
    ultimately show ?thesis using ys by simp
  qed
qed simp

lemma parse_base128_canonical:
  "parse_base128_integer cbs = (Some w, rest) \<Longrightarrow> cbs = b128 (unat w) @ rest"
  using base128_loop_canonical [of 0 cbs w rest] by (auto simp: parse_base128_integer_def)

section \<open>Tags\<close>

lemma and_field:
  fixes x :: "'a::len word"
  shows "x AND push_bit k (mask m) = push_bit k (take_bit m (drop_bit k x))"
  by (rule bit_word_eqI) (auto simp: bit_simps)

lemma unat_and_field:
  fixes x :: "'a::len word"
  assumes "k + m \<le> LENGTH('a)"
  shows "unat (x AND push_bit k (mask m)) = unat x div 2 ^ k mod 2 ^ m * 2 ^ k"
proof -
  have u: "unat (take_bit m (drop_bit k x)) = unat x div 2 ^ k mod 2 ^ m"
    by (simp only: unsigned_take_bit_eq unsigned_drop_bit_eq)
      (simp add: take_bit_eq_mod drop_bit_eq_div)
  have "unat x div 2 ^ k mod 2 ^ m * 2 ^ k < 2 ^ m * 2 ^ k" by simp
  also have "\<dots> \<le> 2 ^ LENGTH('a)" using assms by (simp flip: power_add)
  finally have "unat x div 2 ^ k mod 2 ^ m * 2 ^ k < 2 ^ LENGTH('a)" .
  then show ?thesis
    by (simp only: and_field unsigned_push_bit_eq u) (simp add: push_bit_eq_mult take_bit_nat_eq_self_iff)
qed

definition der_tag :: "u32 \<Rightarrow> u8 list" where
  "der_tag t =
    (let c = unat t div 2 ^ 29; n = unat t mod 2 ^ 29
     in if n \<ge> 31 then byte_of (32 * c + 31) # b128 n else [byte_of (32 * c + n)])"

definition valid_tag :: "u32 \<Rightarrow> bool" where
  "valid_tag t \<longleftrightarrow> t AND NOT CBS_ASN1_CONSTRUCTED \<noteq> 0"

definition mk_tag :: "nat \<Rightarrow> nat \<Rightarrow> u32" where
  "mk_tag c n = word_of_nat (c * 2 ^ 29 + n)"

lemma unat_mk_tag: "c < 8 \<Longrightarrow> n < 2 ^ 29 \<Longrightarrow> unat (mk_tag c n) = c * 2 ^ 29 + n"
  unfolding mk_tag_def by (simp add: unat_of_nat del: of_nat_add of_nat_mult)

lemma mk_tag_parts: "c < 8 \<Longrightarrow> n < 2 ^ 29 \<Longrightarrow> unat (mk_tag c n) div 2 ^ 29 = c \<and> unat (mk_tag c n) mod 2 ^ 29 = n"
  by (simp add: unat_mk_tag)

lemma tag_parts: 
  obtains c n where "c < 8" "n < 2 ^ 29" "t = mk_tag c n"
proof (rule that [of "unat t div 2 ^ 29" "unat t mod 2 ^ 29"])
  have "unat t < 2 ^ 32" using unsigned_less [of t] by simp
  then show "unat t div 2 ^ 29 < 8" by (simp add: less_mult_imp_div_less)
  show "t = mk_tag (unat t div 2 ^ 29) (unat t mod 2 ^ 29)"
    by (simp only: mk_tag_def div_mult_mod_eq) simp
qed simp

lemma der_tag_mk: "c < 8 \<Longrightarrow> n < 2 ^ 29 \<Longrightarrow> der_tag (mk_tag c n) =
    (if n \<ge> 31 then byte_of (32 * c + 31) # b128 n else [byte_of (32 * c + n)])"
  using mk_tag_parts [of c n] by (simp only: der_tag_def Let_def)

lemma tag_class_word:
  assumes "unat (b :: u8) = 32 * c + m" "m < 32" "n < 2 ^ 29"
  shows "push_bit 24 (to_u32 b AND 0xe0) OR word_of_nat n = mk_tag c n"
proof -
  have c: "c < 8" using assms(1) unat_u8_less [of b] by linarith
  have e0: "(0xe0 :: u32) = push_bit 5 (mask 3)" by (simp add: mask_eq_exp_minus_1 push_bit_eq_mult)
  have "unat (to_u32 b AND 0xe0) = unat b div 32 mod 8 * 32"
    unfolding e0 using unat_and_field [of 5 3 "to_u32 b"] by simp
  also have "\<dots> = 32 * c" using assms c by simp
  finally have u: "unat (to_u32 b AND 0xe0) = 32 * c" .
  have un: "unat (word_of_nat n :: u32) = n" using assms(3) by (simp add: unat_of_nat)
  have p: "push_bit 24 (to_u32 b AND 0xe0) = push_bit 29 (word_of_nat c)"
  proof (rule word_unat_eq_iff [THEN iffD2])
    show "unat (push_bit 24 (to_u32 b AND 0xe0)) = unat (push_bit 29 (word_of_nat c :: u32))"
      unfolding unsigned_push_bit_eq u using c by (simp add: push_bit_eq_mult mult.commute unat_of_nat)
  qed
  have "unat (push_bit 29 (word_of_nat c) OR (word_of_nat n :: u32)) = c * 2 ^ 29 + n"
    using or_push_bit_unat [of "word_of_nat n :: u32" 29 "word_of_nat c"] un assms(3) c
    by (simp add: or.commute unat_of_nat)
  then show ?thesis unfolding p mk_tag_def by (rule word_of_unatI)
qed

lemma byte_low5: "to_u32 (b :: u8) AND 0x1f = word_of_nat (unat b mod 32)"
proof -
  have "(0x1f :: u32) = push_bit 0 (mask 5)" by (simp add: mask_eq_exp_minus_1)
  then have "unat (to_u32 b AND 0x1f) = unat b mod 32"
    using unat_and_field [of 0 5 "to_u32 b"] by simp
  then show ?thesis by (rule word_of_unatI)
qed

lemma parse_tag_Cons:
  "parse_asn1_tag (b # cbs) =
    (let c = unat b div 32; n = unat b mod 32 in
     get_then
       (if n = 31 then get_then (parse_base128_integer cbs) (\<lambda>v cbs.
          if 31 \<le> unat v \<and> unat v < 2 ^ 29 then (Some (unat v), cbs) else (None, cbs))
        else (Some n, cbs))
       (\<lambda>n cbs. if valid_tag (mk_tag c n) then (Some (mk_tag c n), cbs) else (None, cbs)))"
proof -
  let ?c = "unat b div 32" and ?n = "unat b mod 32"
  have b: "unat b = 32 * ?c + ?n" "?n < 32" by simp_all
  have n31: "(word_of_nat ?n :: u32) = 0x1f \<longleftrightarrow> ?n = 31"
    using b(2) by (simp add: word_unat_eq_iff unat_of_nat)
  have bounds: "(v > to_u64 CBS_ASN1_TAG_NUMBER_MASK \<or> v < 0x1f) \<longleftrightarrow> \<not> (31 \<le> unat v \<and> unat v < 2 ^ 29)" for v :: u64
    by (auto simp: word_less_nat_alt)
  have low: "to_u32 v = word_of_nat (unat v)" for v :: u64
    by simp
  have fin: "push_bit 24 (to_u32 b AND 0xe0) OR word_of_nat n = mk_tag ?c n" if "n < 2 ^ 29" for n
    by (rule tag_class_word [OF b(1) b(2) that])
  have last: "(let tag = push_bit 24 (to_u32 b AND 0xe0) OR word_of_nat n
       in if tag AND NOT CBS_ASN1_CONSTRUCTED = 0 then (None, s) else (Some tag, s))
     = (if valid_tag (mk_tag ?c n) then (Some (mk_tag ?c n), s) else (None, s))"
    if "n < 2 ^ 29" for n and s :: cbs
    unfolding Let_def fin [OF that] valid_tag_def by (simp only: if_not_P not_not split: if_split) blast
  have w31: "(word_of_nat 31 :: u32) = 31" by simp
  show ?thesis
  proof (cases "?n = 31")
    case True
    obtain r s where p: "parse_base128_integer cbs = (r, s)" by (cases "parse_base128_integer cbs")
    show ?thesis
    proof (cases r)
      case None
      then show ?thesis
        by (simp only: parse_asn1_tag_def get_u8_simps get_then_simps byte_low5 Let_def w31 True p if_True simp_thms)
    next
      case (Some v)
      show ?thesis
      proof (cases "31 \<le> unat v \<and> unat v < 2 ^ 29")
        case False
        then show ?thesis
          by (simp only: parse_asn1_tag_def get_u8_simps get_then_simps byte_low5 Let_def w31 True p Some
              if_True if_False bounds simp_thms)
      next
        case vr: True
        then show ?thesis
          by (simp only: parse_asn1_tag_def get_u8_simps get_then_simps byte_low5 w31 True p Some
              if_True if_False bounds simp_thms low last [OF conjunct2 [OF vr]] Let_def [of ?c] Let_def [of ?n] Let_def [of 31]
              Let_def [of "push_bit 24 (to_u32 b AND 0xe0)"] Let_def [of "word_of_nat 31"])
      qed
    qed
  next
    case False
    have "?n < 2 ^ 29" using b(2) by simp
    from last [OF this] show ?thesis
      by (simp only: parse_asn1_tag_def get_u8_simps get_then_simps byte_low5 n31 False if_False
          Let_def)
  qed
qed

lemma byte_split32: "c < 8 \<Longrightarrow> n < 32 \<Longrightarrow> unat (byte_of (32 * c + n)) div 32 = c \<and> unat (byte_of (32 * c + n)) mod 32 = n"
  by simp

lemma parse_tag_der:
  assumes "valid_tag t"
  shows "parse_asn1_tag (der_tag t @ cbs) = (Some t, cbs)"
proof -
  obtain c n where t: "c < 8" "n < 2 ^ 29" "t = mk_tag c n" by (rule tag_parts)
  show ?thesis
  proof (cases "n \<ge> 31")
    case True
    have u: "unat (word_of_nat n :: u64) = n" using t(2) by simp
    have "n < 2 ^ 64" using t(2) by simp
    note p = parse_base128_b128 [OF this, of cbs]
    have sp: "unat (byte_of (32 * c + 31)) div 32 = c" "unat (byte_of (32 * c + 31)) mod 32 = 31"
      using byte_split32 [of c 31] t by simp_all
    have d: "der_tag t @ cbs = byte_of (32 * c + 31) # b128 n @ cbs"
      using t True by (simp add: der_tag_mk)
    show ?thesis
      unfolding d parse_tag_Cons sp Let_def p
      using True t assms by (simp add: u)
  next
    case False
    have sp: "unat (byte_of (32 * c + n)) div 32 = c" "unat (byte_of (32 * c + n)) mod 32 = n"
      using byte_split32 [of c n] False t by simp_all
    have d: "der_tag t @ cbs = byte_of (32 * c + n) # cbs" using t False by (simp add: der_tag_mk)
    show ?thesis
      unfolding d parse_tag_Cons sp Let_def using False t assms by simp
  qed
qed

lemma parse_tag_canonical:
  assumes "parse_asn1_tag cbs = (Some t, rest)"
  shows "cbs = der_tag t @ rest" "valid_tag t"
proof -
  obtain b xs where cbs: "cbs = b # xs" using assms by (cases cbs) (auto simp: parse_asn1_tag_def)
  define c n where "c = unat b div 32" and "n = unat b mod 32"
  have c: "c < 8" using unat_u8_less [of b] unfolding c_def by (simp add: less_mult_imp_div_less)
  have n: "n < 32" by (simp add: n_def)
  have b: "b = byte_of (32 * c + n)" by (rule byte_of_eqI) (simp add: c_def n_def)
  have "cbs = der_tag t @ rest \<and> valid_tag t"
  proof (cases "n = 31")
    case True
    then obtain v where v: "parse_base128_integer xs = (Some v, rest)" "31 \<le> unat v" "unat v < 2 ^ 29"
      "t = mk_tag c (unat v)" "valid_tag t"
      using assms unfolding cbs parse_tag_Cons Let_def c_def [symmetric] n_def [symmetric]
      by (auto elim!: get_then_SomeE split: if_splits)
    have "cbs = byte_of (32 * c + 31) # b128 (unat v) @ rest"
      using parse_base128_canonical [OF v(1)] b True by (simp add: cbs)
    then show ?thesis using v c by (simp add: der_tag_mk)
  next
    case False
    then have "t = mk_tag c n" "valid_tag t" "xs = rest"
      using assms unfolding cbs parse_tag_Cons Let_def c_def [symmetric] n_def [symmetric]
      by (auto split: if_splits)
    then show ?thesis using False n c by (simp add: der_tag_mk cbs flip: b)
  qed
  then show "cbs = der_tag t @ rest" "valid_tag t" by simp_all
qed

lemma der_tag_not_Nil [simp]: "der_tag t \<noteq> []"
  by (simp add: der_tag_def Let_def)

section \<open>Lengths\<close>

definition length_octets :: "nat \<Rightarrow> nat" where
  "length_octets n = (if n \<ge> 2 ^ 24 then 4 else if n \<ge> 2 ^ 16 then 3 else if n \<ge> 2 ^ 8 then 2 else 1)"

definition der_length :: "nat \<Rightarrow> u8 list" where
  "der_length n =
    (if n < 128 then [byte_of n] else byte_of (128 + length_octets n) # be_bytes (length_octets n) n)"

definition der_element :: "u32 \<Rightarrow> u8 list \<Rightarrow> u8 list" where
  "der_element t contents = der_tag t @ der_length (length contents) @ contents"

lemma length_octets_minimal:
  assumes "1 \<le> k" "k \<le> 4"
  shows "k = length_octets n \<longleftrightarrow> (n < 256 ^ k \<or> k = 4) \<and> (k = 1 \<or> 256 ^ (k - 1) \<le> n)"
proof -
  consider "k = 1" | "k = 2" | "k = 3" | "k = 4" using assms by linarith
  then show ?thesis by cases (auto simp: length_octets_def)
qed

lemma length_octets_bounds: "1 \<le> length_octets n" "length_octets n \<le> 4" "n < 2 ^ 32 \<Longrightarrow> n < 256 ^ length_octets n"
  by (auto simp: length_octets_def)

lemma shifted_zero_iff: "k \<le> 64 \<Longrightarrow> drop_bit k (v :: u64) = 0 \<longleftrightarrow> unat v < 2 ^ k"
proof -
  have "take_bit 64 (unat v) = unat v" using unat_lt_u64 [of v] by (simp add: take_bit_nat_eq_self_iff)
  then have "unat (drop_bit k v) = unat v div 2 ^ k"
    by (simp only: unsigned_drop_bit_eq) (simp add: drop_bit_eq_div)
  then show ?thesis by (simp add: word_unat_eq_iff div_eq_0_iff)
qed

text \<open>The element whose header has been read.\<close>

definition element_at :: "u32 \<Rightarrow> nat \<Rightarrow> nat \<Rightarrow> bool \<Rightarrow> bool \<Rightarrow> cbs \<Rightarrow> asn1_element option \<times> cbs" where
  "element_at tag len hlen ber indef cbs =
    (if length cbs < len then (None, cbs)
     else (Some \<lparr>el_bytes = take len cbs, el_tag = tag, el_header_len = hlen,
                 el_ber_found = ber, el_indefinite = indef\<rparr>, drop len cbs))"

lemma length_b128_more: "n < 128 ^ k \<Longrightarrow> 1 \<le> k \<Longrightarrow> length (b128_more n) \<le> k"
proof (induction k arbitrary: n)
  case (Suc k)
  show ?case
  proof (cases "n < 128")
    case True
    then show ?thesis by (subst b128_more.simps) simp
  next
    case False
    then have "1 \<le> k" using Suc.prems(1) by (cases k) simp_all
    moreover have "n div 128 < 128 ^ k" using Suc.prems(1) by (simp add: less_mult_imp_div_less mult.commute)
    ultimately show ?thesis using Suc.IH [of "n div 128"] False by (subst b128_more.simps) simp
  qed
qed simp

lemma length_der_tag: "length (der_tag t) \<le> 6"
proof -
  obtain c n where t: "c < 8" "n < 2 ^ 29" "t = mk_tag c n" by (rule tag_parts)
  have "n div 128 < 128 ^ 4" using t(2) by (simp add: less_mult_imp_div_less)
  then have "length (b128_more (n div 128)) \<le> 4" by (rule length_b128_more) simp
  then show ?thesis using t by (simp add: der_tag_mk b128_def)
qed

lemma noncanonical_iff:
  assumes "1 \<le> n" "n \<le> 4" "unat (v :: u64) < 256 ^ n"
  shows "v < 128 \<or> drop_bit ((n - 1) * 8) v = 0 \<longleftrightarrow> n \<noteq> length_octets (unat v) \<or> unat v < 128"
proof -
  have "drop_bit ((n - 1) * 8) v = 0 \<longleftrightarrow> unat v < 256 ^ (n - 1)"
    using shifted_zero_iff [of "(n - 1) * 8" v] assms(2) by (simp add: power_mult mult.commute [of _ 8])
  moreover have "v < 128 \<longleftrightarrow> unat v < 128" by (simp add: word_less_nat_alt)
  ultimately show ?thesis using length_octets_minimal [OF assms(1,2), of "unat v"] assms
    by (cases "n = 1") auto
qed

lemma any_element_unfold:
  assumes "parse_asn1_tag cbs = (Some tag, b # header)"
  shows "cbs_get_any_asn1_element ber_ok cbs =
    (let hl = length cbs - length header; n = unat b mod 128 in
     if unat b < 128 then element_at tag (unat b + hl) hl False False cbs
     else if ber_ok \<and> tag AND CBS_ASN1_CONSTRUCTED \<noteq> 0 \<and> n = 0 then element_at tag hl hl True True cbs
     else if n = 0 \<or> n > 4 \<or> length header < n then (None, cbs)
     else
       let len = be_nat (take n header); noncanon = (n \<noteq> length_octets len \<or> len < 128) in
       if noncanon \<and> \<not> ber_ok then (None, cbs)
       else element_at tag (len + hl + n) (hl + n) noncanon False cbs)"
proof -
  define hl where "hl = length cbs - length header"
  define n where "n = unat b mod 128"
  have cbs: "cbs = der_tag tag @ b # header" by (rule parse_tag_canonical(1) [OF assms])
  have hl: "hl \<le> 7" using length_der_tag [of tag] by (simp add: hl_def cbs)
  have n: "unat (b AND 0x7f) = n" by (simp add: n_def low7_unat)
  have fin: "get_then (CBS_get_bytes len cbs) (\<lambda>v cbs.
      (Some \<lparr>el_bytes = v, el_tag = tag, el_header_len = h, el_ber_found = br, el_indefinite = ind\<rparr>, cbs))
    = element_at tag len h br ind cbs" for len h br ind
    by (simp add: CBS_get_bytes_def cbs_get_def element_at_def)
  show ?thesis
  proof (cases "unat b < 128")
    case True
    then show ?thesis
      by (simp add: cbs_get_any_asn1_element_def assms fin u8_msb_clear_iff hl_def)
  next
    case high: False
    show ?thesis
    proof (cases "n = 0 \<or> n > 4 \<or> length header < n")
      case True
      then show ?thesis
        using high by (auto simp: cbs_get_any_asn1_element_def assms fin u8_msb_clear_iff Let_def
            hl_def [symmetric] n n_def [symmetric] cbs_get_u_def cbs_get_def)
    next
      case False
      then have n4: "1 \<le> n" "n \<le> 4" and ln: "n \<le> length header" by simp_all
      define v where "v = be_value (take n header)"
      have g: "cbs_get_u n header = (Some v, drop n header)"
        using ln by (simp add: cbs_get_u_def cbs_get_def v_def)
      have uv: "unat v = be_nat (take n header)" using n4 ln by (simp add: v_def be_value_nat)
      have lt: "unat v < 256 ^ n" using be_nat_bound [of "take n header"] ln by (simp add: uv)
      also have "(256 :: nat) ^ n \<le> 256 ^ 4" using n4 by (intro power_increasing) simp_all
      finally have small: "(unat v + hl + n) mod 2 ^ 64 = unat v + hl + n" using hl n4 by simp
      show ?thesis
        using high False n4
        unfolding cbs_get_any_asn1_element_def assms prod.case option.case get_u8_simps Let_def fin
          u8_msb_clear_iff hl_def [symmetric] n n_def [symmetric] g noncanonical_iff [OF n4 lt] small
          uv [symmetric]
        by (simp only: if_False simp_thms not_less le_add1) simp
    qed
  qed
qed

section \<open>Elements\<close>

lemma length_der_length: "length (der_length n) = (if n < 128 then 1 else Suc (length_octets n))"
  by (simp add: der_length_def)

lemma length_der_element:
  "length (der_element t xs) = length (der_tag t) + length (der_length (length xs)) + length xs"
  by (simp add: der_element_def)

lemma long_length_byte: "1 \<le> k \<Longrightarrow> k \<le> 4 \<Longrightarrow> unat (byte_of (128 + k)) mod 128 = k \<and> \<not> unat (byte_of (128 + k)) < 128"
  by simp

lemma get_element_der:
  assumes "valid_tag t" "length xs < 2 ^ 32"
  shows "CBS_get_any_asn1_element (der_element t xs @ cbs) =
    (Some \<lparr>el_bytes = der_element t xs, el_tag = t,
           el_header_len = length (der_element t xs) - length xs,
           el_ber_found = False, el_indefinite = False\<rparr>, cbs)"
proof (cases "length xs < 128")
  case True
  have d: "der_element t xs @ cbs = der_tag t @ byte_of (length xs) # xs @ cbs"
    using True by (simp add: der_element_def der_length_def)
  have p: "parse_asn1_tag (der_element t xs @ cbs) = (Some t, byte_of (length xs) # xs @ cbs)"
    unfolding d by (rule parse_tag_der [OF assms(1)])
  show ?thesis
    unfolding CBS_get_any_asn1_element_def any_element_unfold [OF p] Let_def
    using True by (simp add: d) (simp add: element_at_def der_element_def der_length_def)
next
  case False
  define k where "k = length_octets (length xs)"
  have k: "1 \<le> k" "k \<le> 4" "length xs < 256 ^ k"
    using length_octets_bounds [of "length xs"] assms(2) by (simp_all add: k_def)
  have d: "der_element t xs @ cbs = der_tag t @ byte_of (128 + k) # be_bytes k (length xs) @ xs @ cbs"
    using False by (simp add: der_element_def der_length_def k_def)
  have p: "parse_asn1_tag (der_element t xs @ cbs)
      = (Some t, byte_of (128 + k) # be_bytes k (length xs) @ xs @ cbs)"
    unfolding d by (rule parse_tag_der [OF assms(1)])
  have n: "be_nat (be_bytes k (length xs)) = length xs" using k(3) by (simp add: be_nat_be_bytes)
  show ?thesis
    unfolding CBS_get_any_asn1_element_def any_element_unfold [OF p] Let_def
    using False k by (simp add: d n k_def [symmetric])
      (simp add: element_at_def der_element_def der_length_def flip: k_def)
qed

lemma element_at_Some:
  "element_at tag len h br ind cbs = (Some e, rest) \<longleftrightarrow>
    len \<le> length cbs \<and> rest = drop len cbs \<and>
    e = \<lparr>el_bytes = take len cbs, el_tag = tag, el_header_len = h, el_ber_found = br, el_indefinite = ind\<rparr>"
  by (auto simp: element_at_def)

lemma any_element_Some_parts:
  assumes "cbs_get_any_asn1_element ber_ok cbs = (Some e, rest)"
  obtains tag b header where "parse_asn1_tag cbs = (Some tag, b # header)"
proof -
  obtain tag hd where p: "parse_asn1_tag cbs = (Some tag, hd)"
    using assms by (auto simp: cbs_get_any_asn1_element_def split: prod.splits option.splits)
  then have "hd \<noteq> []" using assms by (auto simp: cbs_get_any_asn1_element_def)
  then show thesis using p that by (cases hd) auto
qed

lemma get_element_canonical:
  assumes "CBS_get_any_asn1_element cbs = (Some e, rest)"
  shows "\<exists>t xs. valid_tag t \<and> length xs < 2 ^ 32 \<and> cbs = der_element t xs @ rest"
proof -
  obtain t b header where p: "parse_asn1_tag cbs = (Some t, b # header)"
    using assms any_element_Some_parts unfolding CBS_get_any_asn1_element_def by blast
  have cbs: "cbs = der_tag t @ b # header" and t: "valid_tag t" using parse_tag_canonical [OF p] by simp_all
  define n where "n = unat b mod 128"
  have "\<exists>xs. length xs < 2 ^ 32 \<and> cbs = der_element t xs @ rest"
  proof (cases "unat b < 128")
    case True
    then have "unat b \<le> length header" and r: "rest = drop (unat b) header"
      using assms unfolding CBS_get_any_asn1_element_def any_element_unfold [OF p]
      by (auto simp: element_at_Some cbs)
    then have "cbs = der_element t (take (unat b) header) @ rest" "length (take (unat b) header) < 2 ^ 32"
      using True by (simp_all add: der_element_def der_length_def cbs)
    then show ?thesis by blast
  next
    case False
    define len where "len = be_nat (take n header)"
    have long: "n \<noteq> 0" "n \<le> 4" "n \<le> length header" "n = length_octets len" "\<not> len < 128"
      "len + n \<le> length header" "rest = drop (len + n) header"
      using assms False unfolding CBS_get_any_asn1_element_def any_element_unfold [OF p]
      by (auto simp: element_at_Some cbs n_def [symmetric] len_def [symmetric] Let_def split: if_splits)
    have b: "b = byte_of (128 + n)"
      using u8_msb_split(1) [of b] False by (simp add: u8_msb_clear_iff n_def)
    define xs where "xs = take len (drop n header)"
    have lx: "length xs = len" using long by (simp add: xs_def)
    have lt: "len < 256 ^ n" using be_nat_bound [of "take n header"] long(3) by (simp add: len_def)
    have "len < 256 ^ 4" by (rule less_le_trans [OF lt]) (use long(2) in \<open>intro power_increasing; simp\<close>)
    then have small: "length xs < 2 ^ 32" by (simp add: lx)
    have "be_bytes n len = take n header"
      using be_bytes_be_nat [of "take n header"] long(3) by (simp add: len_def)
    then have "der_length len = b # take n header" using long(4,5) b by (simp add: der_length_def)
    moreover have "header = take n header @ xs @ rest"
      unfolding xs_def long(7) by (metis append_take_drop_id drop_drop)
    ultimately have "cbs = der_element t xs @ rest" by (simp add: der_element_def lx cbs)
    then show ?thesis using small by blast
  qed
  then show ?thesis using t by blast
qed

lemma get_element_iff:
  "CBS_get_any_asn1_element cbs = (Some e, rest) \<longleftrightarrow>
    (\<exists>t xs. valid_tag t \<and> length xs < 2 ^ 32 \<and> cbs = der_element t xs @ rest \<and>
       e = \<lparr>el_bytes = der_element t xs, el_tag = t, el_header_len = length (der_element t xs) - length xs,
            el_ber_found = False, el_indefinite = False\<rparr>)"
  (is "?l \<longleftrightarrow> ?r")
proof
  assume l: ?l
  obtain t xs where tx: "valid_tag t" "length xs < 2 ^ 32" "cbs = der_element t xs @ rest"
    using get_element_canonical [OF l] by blast
  then show ?r using l get_element_der [OF tx(1,2), of rest] by auto
qed (auto simp: get_element_der)

lemma skip_header:
  "CBS_skip (length (der_element t xs) - length xs) (der_element t xs) = (Some (), xs)"
  by (simp add: CBS_skip_def cbs_get_def der_element_def)

lemma get_any_asn1_iff:
  "CBS_get_any_asn1 cbs = (Some (xs, t), rest) \<longleftrightarrow>
    valid_tag t \<and> length xs < 2 ^ 32 \<and> cbs = der_element t xs @ rest"
  by (auto simp: CBS_get_any_asn1_def get_element_iff get_element_der skip_header elim!: get_then_SomeE)

lemma get_asn1_iff:
  "CBS_get_asn1 t cbs = (Some xs, rest) \<longleftrightarrow> valid_tag t \<and> length xs < 2 ^ 32 \<and> cbs = der_element t xs @ rest"
  by (auto simp: CBS_get_asn1_def cbs_get_asn1_def get_element_iff get_element_der skip_header
      elim!: get_then_SomeE split: if_splits)

lemma get_asn1_element_iff:
  "CBS_get_asn1_element t cbs = (Some ys, rest) \<longleftrightarrow>
    (\<exists>xs. valid_tag t \<and> length xs < 2 ^ 32 \<and> ys = der_element t xs \<and> cbs = ys @ rest)"
  by (auto simp: CBS_get_asn1_element_def cbs_get_asn1_def get_element_iff get_element_der
      elim!: get_then_SomeE split: if_splits)

end
