(* ===== verification/Cbb.thy ===== *)
theory Cbb
  imports Cbs
begin

text \<open>
  The byte-string writer of \<open>crypto/bytestring/cbb.c\<close>. A top-level \<open>CBB\<close>
  owns a buffer; a length-prefixed or ASN.1 child is a \<open>CBB\<close> that appends to the same
  buffer after a reserved prefix, which \<open>CBB_flush\<close> fills in later. Each \<open>CBB\<close>
  has at most one pending child, so the state of all of them is the buffer and the \<^emph>\<open>chain\<close>
  of pending children from the top \<open>CBB\<close> down, each with the address of its
  \<open>CBB\<close> structure. A \<open>cbb_ref\<close> is a \<open>CBB *\<close>: the top one or the address of
  a child. A child whose prefix was flushed is no longer in the chain: its \<open>base\<close> is NULL.

  \<^item> \<open>size_t\<close> values are naturals; the sums the code tests for overflow are reduced
    modulo 2^64.
  \<^item> \<open>heap\<close> is the allocator: for a size, either NULL or the byte that fills the
    fresh part of the block (the code overwrites it before it is read).
\<close>

section \<open>State\<close>

record cbb_buffer =
  b_buf :: "u8 list"
  b_len :: nat
  b_cap :: nat
  b_resize :: bool
  b_error :: bool

record cbb_child =
  c_offset :: nat
  c_pending_len_len :: nat
  c_is_asn1 :: bool

record cbb =
  base :: cbb_buffer
  chain :: "(nat \<times> cbb_child) list"
  heap :: "nat \<Rightarrow> u8 option"

datatype cbb_ref = Top | Child nat

fun position :: "nat \<Rightarrow> (nat \<times> 'a) list \<Rightarrow> nat option" where
  "position p [] = None"
| "position p ((q, _) # cs) = (if p = q then Some 0 else map_option Suc (position p cs))"

text \<open>How many pending children are above a \<open>CBB\<close>; \<open>None\<close> when it is detached.\<close>

definition cbb_level :: "cbb \<Rightarrow> cbb_ref \<Rightarrow> nat option" where
  "cbb_level cbb r =
    (case r of Top \<Rightarrow> Some 0 | Child p \<Rightarrow> map_option Suc (position p (chain cbb)))"

section \<open>Buffers\<close>

definition cbb_init :: "u8 list \<Rightarrow> nat \<Rightarrow> bool \<Rightarrow> cbb_buffer" where
  "cbb_init buf cap can_resize =
    \<lparr>b_buf = buf, b_len = 0, b_cap = cap, b_resize = can_resize, b_error = False\<rparr>"

definition CBB_init :: "(nat \<Rightarrow> u8 option) \<Rightarrow> nat \<Rightarrow> cbb option" where
  "CBB_init h initial_capacity =
    (case h initial_capacity of
       None \<Rightarrow>
         if initial_capacity > 0 then None
         else Some \<lparr>base = cbb_init [] 0 True, chain = [], heap = h\<rparr>
     | Some fill \<Rightarrow>
         Some \<lparr>base = cbb_init (replicate initial_capacity fill) initial_capacity True,
               chain = [], heap = h\<rparr>)"

definition CBB_init_fixed :: "(nat \<Rightarrow> u8 option) \<Rightarrow> u8 list \<Rightarrow> cbb" where
  "CBB_init_fixed h buf = \<lparr>base = cbb_init buf (length buf) False, chain = [], heap = h\<rparr>"

definition CBB_cleanup :: "cbb \<Rightarrow> cbb" where
  "CBB_cleanup cbb = (if b_resize (base cbb) then cbb\<lparr>base := (base cbb)\<lparr>b_buf := []\<rparr>\<rparr> else cbb)"

definition cbb_buffer_reserve :: "(nat \<Rightarrow> u8 option) \<Rightarrow> cbb_buffer \<Rightarrow> nat \<Rightarrow> bool \<times> cbb_buffer" where
  "cbb_buffer_reserve h b len =
    (let newlen = (b_len b + len) mod 2 ^ 64 in
     if newlen < b_len b then (False, b\<lparr>b_error := True\<rparr>)
     else if newlen > b_cap b then
       (if \<not> b_resize b then (False, b\<lparr>b_error := True\<rparr>)
        else
          let newcap = (b_cap b * 2) mod 2 ^ 64;
              newcap = (if newcap < b_cap b \<or> newcap < newlen then newlen else newcap) in
          case h newcap of
            None \<Rightarrow> (False, b\<lparr>b_error := True\<rparr>)
          | Some fill \<Rightarrow>
              (True, b\<lparr>b_buf := b_buf b @ replicate (newcap - length (b_buf b)) fill, b_cap := newcap\<rparr>))
     else (True, b))"

definition cbb_buffer_add :: "(nat \<Rightarrow> u8 option) \<Rightarrow> cbb_buffer \<Rightarrow> nat \<Rightarrow> bool \<times> cbb_buffer" where
  "cbb_buffer_add h b len =
    then_ok (cbb_buffer_reserve h b len) (\<lambda>b. (True, b\<lparr>b_len := b_len b + len\<rparr>))"

text \<open>The loop \<open>for (i = n - 1; i < n; i--) { buf[i] = v; v >>= 8; }\<close>, which leaves the
  bits of \<open>v\<close> that did not fit.\<close>

fun put_be :: "u8 list \<Rightarrow> nat \<Rightarrow> nat \<Rightarrow> nat \<Rightarrow> u8 list \<times> nat" where
  "put_be m p 0 v = (m, v)"
| "put_be m p (Suc i) v = put_be (m[p + i := byte_of (v mod 256)]) p i (v div 256)"

section \<open>Flushing\<close>

text \<open>Errors of \<open>CBB_flush\<close>: the buffer is marked. \<open>cbb_on_error\<close> also drops
  the pending child of the \<open>CBB\<close> that failed.\<close>

definition buf_error :: "cbb_buffer \<Rightarrow> bool \<times> cbb_buffer" where
  "buf_error b = (False, b\<lparr>b_error := True\<rparr>)"

definition cbb_on_error :: "cbb \<Rightarrow> cbb_ref \<Rightarrow> bool \<times> cbb" where
  "cbb_on_error cbb r =
    (False, cbb\<lparr>base := (base cbb)\<lparr>b_error := True\<rparr>,
      chain := (case cbb_level cbb r of None \<Rightarrow> chain cbb | Some k \<Rightarrow> take k (chain cbb))\<rparr>)"

text \<open>Length and first byte of a DER length, and the bytes that are still to be written.\<close>

definition asn1_length_form :: "nat \<Rightarrow> nat \<times> nat \<times> nat" where
  "asn1_length_form len =
    (if len > 0xffffff then (5, 0x84, len)
     else if len > 0xffff then (4, 0x83, len)
     else if len > 0xff then (3, 0x82, len)
     else if len > 0x7f then (2, 0x81, len)
     else (1, len, 0))"

definition flush_length :: "cbb_buffer \<Rightarrow> nat \<Rightarrow> nat \<Rightarrow> nat \<Rightarrow> bool \<times> cbb_buffer" where
  "flush_length b offset pending len =
    (let (buf, left) = put_be (b_buf b) offset pending len; b = b\<lparr>b_buf := buf\<rparr>
     in if left \<noteq> 0 then buf_error b else (True, b))"

definition flush_prefix :: "(nat \<Rightarrow> u8 option) \<Rightarrow> cbb_buffer \<Rightarrow> cbb_child \<Rightarrow> bool \<times> cbb_buffer" where
  "flush_prefix h b child =
    (let child_start = c_offset child + c_pending_len_len child;
         len = b_len b - child_start in
     if \<not> c_is_asn1 child then flush_length b (c_offset child) (c_pending_len_len child) len
     else if len > 0xfffffffe then buf_error b
     else
       let (len_len, initial_length_byte, len') = asn1_length_form len;
           extra_bytes = len_len - 1 in
       case (if len_len \<noteq> 1 then
               then_ok (cbb_buffer_add h b extra_bytes) (\<lambda>b.
                 (True, b\<lparr>b_buf :=
                    patch (b_buf b) (child_start + extra_bytes) (take len (drop child_start (b_buf b)))\<rparr>))
             else (True, b)) of
         (False, b) \<Rightarrow> buf_error b
       | (True, b) \<Rightarrow>
           flush_length (b\<lparr>b_buf := (b_buf b)[c_offset child := byte_of initial_length_byte]\<rparr>)
             (c_offset child + 1) (len_len - 1) len')"

text \<open>Flushing a chain of pending children, the innermost first.\<close>

fun flush_chain :: "(nat \<Rightarrow> u8 option) \<Rightarrow> cbb_buffer \<Rightarrow> cbb_child list \<Rightarrow> bool \<times> cbb_buffer" where
  "flush_chain h b [] = (\<not> b_error b, b)"
| "flush_chain h b (child # cs) =
    (if b_error b then (False, b)
     else
       let child_start = (c_offset child + c_pending_len_len child) mod 2 ^ 64 in
       case flush_chain h b cs of
         (ok, b) \<Rightarrow>
           if \<not> ok \<or> child_start < c_offset child \<or> b_len b < child_start then buf_error b
           else flush_prefix h b child)"

definition CBB_flush :: "cbb \<Rightarrow> cbb_ref \<Rightarrow> bool \<times> cbb" where
  "CBB_flush cbb r =
    (case cbb_level cbb r of
       None \<Rightarrow> (False, cbb)
     | Some k \<Rightarrow>
         if b_error (base cbb) then (False, cbb)
         else
           (case flush_chain (heap cbb) (base cbb) (map snd (drop k (chain cbb))) of
              (ok, b) \<Rightarrow> (ok, cbb\<lparr>base := b, chain := take k (chain cbb)\<rparr>)))"

text \<open>\<open>CBB_finish\<close> yields the bytes written. \<open>want\<close> says that both output
  pointers are given.\<close>

definition CBB_finish :: "cbb \<Rightarrow> cbb_ref \<Rightarrow> bool \<Rightarrow> u8 list option \<times> cbb" where
  "CBB_finish cbb r want =
    (if r \<noteq> Top then (None, cbb)
     else
       case CBB_flush cbb r of
         (False, cbb) \<Rightarrow> (None, cbb)
       | (True, cbb) \<Rightarrow>
           if b_resize (base cbb) \<and> \<not> want then (None, cbb)
           else (Some (take (b_len (base cbb)) (b_buf (base cbb))),
                 CBB_cleanup (cbb\<lparr>base := (base cbb)\<lparr>b_buf := []\<rparr>\<rparr>)))"

text \<open>\<open>CBB_data\<close> is an offset into the buffer; both functions assert that no child is
  pending.\<close>

definition CBB_data :: "cbb \<Rightarrow> cbb_ref \<Rightarrow> nat option" where
  "CBB_data cbb r =
    (case cbb_level cbb r of
       None \<Rightarrow> None
     | Some k \<Rightarrow>
         if k \<noteq> length (chain cbb) then None
         else if k = 0 then Some 0
         else let c = snd (last (chain cbb)) in Some (c_offset c + c_pending_len_len c))"

definition CBB_len :: "cbb \<Rightarrow> cbb_ref \<Rightarrow> nat option" where
  "CBB_len cbb r = map_option (\<lambda>start. b_len (base cbb) - start) (CBB_data cbb r)"

section \<open>Appending\<close>

definition with_buffer :: "cbb \<Rightarrow> bool \<times> cbb_buffer \<Rightarrow> bool \<times> cbb" where
  "with_buffer cbb r = (fst r, cbb\<lparr>base := snd r\<rparr>)"

text \<open>\<open>CBB_add_space\<close> returns the pointer to the added bytes, which are the last
  \<open>len\<close> ones of the buffer.\<close>

definition CBB_add_space :: "cbb \<Rightarrow> cbb_ref \<Rightarrow> nat \<Rightarrow> bool \<times> cbb" where
  "CBB_add_space cbb r len =
    then_ok (CBB_flush cbb r) (\<lambda>cbb. with_buffer cbb (cbb_buffer_add (heap cbb) (base cbb) len))"

definition write_added :: "cbb \<Rightarrow> u8 list \<Rightarrow> cbb" where
  "write_added cbb xs =
    cbb\<lparr>base := (base cbb)\<lparr>b_buf := patch (b_buf (base cbb)) (b_len (base cbb) - length xs) xs\<rparr>\<rparr>"

definition CBB_add_bytes :: "cbb \<Rightarrow> cbb_ref \<Rightarrow> u8 list \<Rightarrow> bool \<times> cbb" where
  "CBB_add_bytes cbb r data =
    then_ok (CBB_add_space cbb r (length data)) (\<lambda>cbb. (True, write_added cbb data))"

definition CBB_add_zeros :: "cbb \<Rightarrow> cbb_ref \<Rightarrow> nat \<Rightarrow> bool \<times> cbb" where
  "CBB_add_zeros cbb r len =
    then_ok (CBB_add_space cbb r len) (\<lambda>cbb. (True, write_added cbb (replicate len 0)))"

definition CBB_reserve :: "cbb \<Rightarrow> cbb_ref \<Rightarrow> nat \<Rightarrow> bool \<times> cbb" where
  "CBB_reserve cbb r len =
    then_ok (CBB_flush cbb r) (\<lambda>cbb. with_buffer cbb (cbb_buffer_reserve (heap cbb) (base cbb) len))"

definition CBB_did_write :: "cbb \<Rightarrow> cbb_ref \<Rightarrow> nat \<Rightarrow> (bool \<times> cbb) option" where
  "CBB_did_write cbb r len =
    (case cbb_level cbb r of
       None \<Rightarrow> None
     | Some k \<Rightarrow>
         let newlen = (b_len (base cbb) + len) mod 2 ^ 64 in
         if k \<noteq> length (chain cbb) \<or> newlen < b_len (base cbb) \<or> newlen > b_cap (base cbb)
         then Some (False, cbb)
         else Some (True, cbb\<lparr>base := (base cbb)\<lparr>b_len := newlen\<rparr>\<rparr>))"

definition cbb_add_u :: "cbb \<Rightarrow> cbb_ref \<Rightarrow> u64 \<Rightarrow> nat \<Rightarrow> bool \<times> cbb" where
  "cbb_add_u cbb r v len_len =
    then_ok (CBB_add_space cbb r len_len) (\<lambda>cbb.
      let (buf, left) = put_be (b_buf (base cbb)) (b_len (base cbb) - len_len) len_len (unat v);
          cbb = cbb\<lparr>base := (base cbb)\<lparr>b_buf := buf\<rparr>\<rparr>
      in if left \<noteq> 0 then cbb_on_error cbb r else (True, cbb))"

definition CBB_add_u8 :: "cbb \<Rightarrow> cbb_ref \<Rightarrow> u8 \<Rightarrow> bool \<times> cbb" where
  "CBB_add_u8 cbb r v = cbb_add_u cbb r (to_u64 v) 1"

definition CBB_add_u16 :: "cbb \<Rightarrow> cbb_ref \<Rightarrow> u16 \<Rightarrow> bool \<times> cbb" where
  "CBB_add_u16 cbb r v = cbb_add_u cbb r (to_u64 v) 2"

definition CBB_add_u16le :: "cbb \<Rightarrow> cbb_ref \<Rightarrow> u16 \<Rightarrow> bool \<times> cbb" where
  "CBB_add_u16le cbb r v = CBB_add_u16 cbb r (CRYPTO_bswap2 v)"

definition CBB_add_u24 :: "cbb \<Rightarrow> cbb_ref \<Rightarrow> u32 \<Rightarrow> bool \<times> cbb" where
  "CBB_add_u24 cbb r v = cbb_add_u cbb r (to_u64 v) 3"

definition CBB_add_u32 :: "cbb \<Rightarrow> cbb_ref \<Rightarrow> u32 \<Rightarrow> bool \<times> cbb" where
  "CBB_add_u32 cbb r v = cbb_add_u cbb r (to_u64 v) 4"

definition CBB_add_u32le :: "cbb \<Rightarrow> cbb_ref \<Rightarrow> u32 \<Rightarrow> bool \<times> cbb" where
  "CBB_add_u32le cbb r v = CBB_add_u32 cbb r (CRYPTO_bswap4 v)"

definition CBB_add_u64 :: "cbb \<Rightarrow> cbb_ref \<Rightarrow> u64 \<Rightarrow> bool \<times> cbb" where
  "CBB_add_u64 cbb r v = cbb_add_u cbb r v 8"

definition CBB_add_u64le :: "cbb \<Rightarrow> cbb_ref \<Rightarrow> u64 \<Rightarrow> bool \<times> cbb" where
  "CBB_add_u64le cbb r v = CBB_add_u64 cbb r (CRYPTO_bswap8 v)"

section \<open>Children\<close>

text \<open>\<open>p\<close> is the address of the caller's \<open>CBB\<close> for the child. The call follows a
  successful flush, so \<open>r\<close> has no pending child.\<close>

definition cbb_add_child :: "cbb \<Rightarrow> cbb_ref \<Rightarrow> nat \<Rightarrow> nat \<Rightarrow> bool \<Rightarrow> bool \<times> cbb" where
  "cbb_add_child cbb r p len_len is_asn1 =
    (let offset = b_len (base cbb) in
     then_ok (with_buffer cbb (cbb_buffer_add (heap cbb) (base cbb) len_len)) (\<lambda>cbb.
       (True, (write_added cbb (replicate len_len 0))
          \<lparr>chain := chain cbb
             @ [(p, \<lparr>c_offset = offset, c_pending_len_len = len_len, c_is_asn1 = is_asn1\<rparr>)]\<rparr>)))"

definition cbb_add_length_prefixed :: "cbb \<Rightarrow> cbb_ref \<Rightarrow> nat \<Rightarrow> nat \<Rightarrow> bool \<times> cbb" where
  "cbb_add_length_prefixed cbb r p len_len =
    then_ok (CBB_flush cbb r) (\<lambda>cbb. cbb_add_child cbb r p len_len False)"

definition CBB_add_u8_length_prefixed :: "cbb \<Rightarrow> cbb_ref \<Rightarrow> nat \<Rightarrow> bool \<times> cbb" where
  "CBB_add_u8_length_prefixed cbb r p = cbb_add_length_prefixed cbb r p 1"

definition CBB_add_u16_length_prefixed :: "cbb \<Rightarrow> cbb_ref \<Rightarrow> nat \<Rightarrow> bool \<times> cbb" where
  "CBB_add_u16_length_prefixed cbb r p = cbb_add_length_prefixed cbb r p 2"

definition CBB_add_u24_length_prefixed :: "cbb \<Rightarrow> cbb_ref \<Rightarrow> nat \<Rightarrow> bool \<times> cbb" where
  "CBB_add_u24_length_prefixed cbb r p = cbb_add_length_prefixed cbb r p 3"

fun base128_count :: "nat \<Rightarrow> nat" where
  "base128_count v = (if v = 0 then 0 else Suc (base128_count (v div 128)))"

declare base128_count.simps [simp del]

fun add_base128_loop :: "cbb \<Rightarrow> cbb_ref \<Rightarrow> u64 \<Rightarrow> nat \<Rightarrow> bool \<times> cbb" where
  "add_base128_loop cbb r v 0 = (True, cbb)"
| "add_base128_loop cbb r v (Suc i) =
    (let b = to_u8 (drop_bit (7 * i) v AND 0x7f);
         b = (if i \<noteq> 0 then b OR 0x80 else b) in
     then_ok (CBB_add_u8 cbb r b) (\<lambda>cbb. add_base128_loop cbb r v i))"

definition add_base128_integer :: "cbb \<Rightarrow> cbb_ref \<Rightarrow> u64 \<Rightarrow> bool \<times> cbb" where
  "add_base128_integer cbb r v =
    (let len_len = base128_count (unat v); len_len = (if len_len = 0 then 1 else len_len)
     in add_base128_loop cbb r v len_len)"

definition CBB_add_asn1 :: "cbb \<Rightarrow> cbb_ref \<Rightarrow> nat \<Rightarrow> u32 \<Rightarrow> bool \<times> cbb" where
  "CBB_add_asn1 cbb r p tag =
    then_ok (CBB_flush cbb r) (\<lambda>cbb.
      let tag_bits = to_u8 (drop_bit 24 tag AND 0xe0);
          tag_number = tag AND CBS_ASN1_TAG_NUMBER_MASK in
      then_ok
        (if tag_number \<ge> 0x1f then
           then_ok (CBB_add_u8 cbb r (tag_bits OR 0x1f)) (\<lambda>cbb.
             add_base128_integer cbb r (to_u64 tag_number))
         else CBB_add_u8 cbb r (tag_bits OR to_u8 tag_number))
        (\<lambda>cbb. cbb_add_child cbb r p 1 True))"

definition CBB_discard_child :: "cbb \<Rightarrow> cbb_ref \<Rightarrow> cbb" where
  "CBB_discard_child cbb r =
    (case cbb_level cbb r of
       None \<Rightarrow> cbb
     | Some k \<Rightarrow>
         if k \<ge> length (chain cbb) then cbb
         else cbb\<lparr>base := (base cbb)\<lparr>b_len := c_offset (snd (chain cbb ! k))\<rparr>,
                  chain := take k (chain cbb)\<rparr>)"

text \<open>The address of a local \<open>CBB\<close>: none that is in use.\<close>

definition fresh_ptr :: "cbb \<Rightarrow> nat" where
  "fresh_ptr cbb = Suc (foldr max (map fst (chain cbb)) 0)"

definition or_on_error :: "cbb_ref \<Rightarrow> bool \<times> cbb \<Rightarrow> bool \<times> cbb" where
  "or_on_error r res = (if fst res then res else cbb_on_error (snd res) r)"

text \<open>The bytes of an unsigned INTEGER, most significant first, without leading zero bytes
  but with one if the first has its high bit set.\<close>

fun asn1_uint64_bytes :: "cbb \<Rightarrow> cbb_ref \<Rightarrow> u64 \<Rightarrow> bool \<Rightarrow> nat list \<Rightarrow> bool \<times> cbb" where
  "asn1_uint64_bytes cbb child v started [] =
    (if \<not> started then CBB_add_u8 cbb child 0 else (True, cbb))"
| "asn1_uint64_bytes cbb child v started (i # is) =
    (let b = to_u8 (drop_bit (8 * (7 - i)) v AND 0xff) in
     if \<not> started \<and> b = 0 then asn1_uint64_bytes cbb child v started is
     else
       then_ok (if \<not> started \<and> b AND 0x80 \<noteq> 0 then CBB_add_u8 cbb child 0 else (True, cbb)) (\<lambda>cbb.
         then_ok (CBB_add_u8 cbb child b) (\<lambda>cbb. asn1_uint64_bytes cbb child v True is)))"

definition CBB_add_asn1_uint64_with_tag :: "cbb \<Rightarrow> cbb_ref \<Rightarrow> u64 \<Rightarrow> u32 \<Rightarrow> bool \<times> cbb" where
  "CBB_add_asn1_uint64_with_tag cbb r v tag =
    (let p = fresh_ptr cbb in
     then_ok
       (or_on_error r (then_ok (CBB_add_asn1 cbb r p tag) (\<lambda>cbb.
          asn1_uint64_bytes cbb (Child p) v False [0..<8])))
       (\<lambda>cbb. CBB_flush cbb r))"

definition CBB_add_asn1_uint64 :: "cbb \<Rightarrow> cbb_ref \<Rightarrow> u64 \<Rightarrow> bool \<times> cbb" where
  "CBB_add_asn1_uint64 cbb r v = CBB_add_asn1_uint64_with_tag cbb r v CBS_ASN1_INTEGER"

text \<open>The little-endian bytes of the value, the last byte that is needed, and the loop over
  the bytes from there.\<close>

definition int64_byte :: "u64 \<Rightarrow> nat \<Rightarrow> u8" where
  "int64_byte v i = to_u8 (drop_bit (8 * i) v)"

fun int64_start :: "u64 \<Rightarrow> nat \<Rightarrow> nat" where
  "int64_start v 0 = 0"
| "int64_start v (Suc i) =
    (if int64_byte v (Suc i) = 0xff \<and> int64_byte v i AND 0x80 \<noteq> 0 then int64_start v i else Suc i)"

fun asn1_int64_bytes :: "cbb \<Rightarrow> cbb_ref \<Rightarrow> u64 \<Rightarrow> nat \<Rightarrow> bool \<times> cbb" where
  "asn1_int64_bytes cbb child v 0 = CBB_add_u8 cbb child (int64_byte v 0)"
| "asn1_int64_bytes cbb child v (Suc i) =
    then_ok (CBB_add_u8 cbb child (int64_byte v (Suc i))) (\<lambda>cbb. asn1_int64_bytes cbb child v i)"

definition CBB_add_asn1_int64_with_tag :: "cbb \<Rightarrow> cbb_ref \<Rightarrow> u64 \<Rightarrow> u32 \<Rightarrow> bool \<times> cbb" where
  "CBB_add_asn1_int64_with_tag cbb r v tag =
    (if 0 \<le> sint v then CBB_add_asn1_uint64_with_tag cbb r v tag
     else
       let p = fresh_ptr cbb in
       then_ok
         (or_on_error r (then_ok (CBB_add_asn1 cbb r p tag) (\<lambda>cbb.
            asn1_int64_bytes cbb (Child p) v (int64_start v 7))))
         (\<lambda>cbb. CBB_flush cbb r))"

definition CBB_add_asn1_int64 :: "cbb \<Rightarrow> cbb_ref \<Rightarrow> u64 \<Rightarrow> bool \<times> cbb" where
  "CBB_add_asn1_int64 cbb r v = CBB_add_asn1_int64_with_tag cbb r v CBS_ASN1_INTEGER"

definition CBB_add_asn1_octet_string :: "cbb \<Rightarrow> cbb_ref \<Rightarrow> u8 list \<Rightarrow> bool \<times> cbb" where
  "CBB_add_asn1_octet_string cbb r data =
    (let p = fresh_ptr cbb in
     or_on_error r
       (then_ok (CBB_add_asn1 cbb r p CBS_ASN1_OCTETSTRING) (\<lambda>cbb.
        then_ok (CBB_add_bytes cbb (Child p) data) (\<lambda>cbb. CBB_flush cbb r))))"

definition CBB_add_asn1_bool :: "cbb \<Rightarrow> cbb_ref \<Rightarrow> bool \<Rightarrow> bool \<times> cbb" where
  "CBB_add_asn1_bool cbb r v =
    (let p = fresh_ptr cbb in
     or_on_error r
       (then_ok (CBB_add_asn1 cbb r p CBS_ASN1_BOOLEAN) (\<lambda>cbb.
        then_ok (CBB_add_u8 cbb (Child p) (if v then 0xff else 0)) (\<lambda>cbb. CBB_flush cbb r))))"

end
