(* ===== verification/CbbSpec.thy ===== *)
theory CbbSpec
  imports CbsFacts Cbb
begin

text \<open>
  The abstract writer that \<open>cbb.c\<close> implements: the bytes of the top-level \<open>CBB\<close> and a
  stack of open children, each with the address of its \<open>CBB\<close>, the form of its prefix and its
  bytes. The stack has no offsets, no reserved bytes and no buffer; \<open>close_frames\<close> prefixes every
  child with its length, from the innermost outwards.
\<close>

datatype frame_kind = Prefixed nat | Asn1

type_synonym frame = "nat \<times> frame_kind \<times> u8 list"

type_synonym writer = "u8 list \<times> frame list"

text \<open>A child with its prefix; \<open>None\<close> when the prefix cannot hold the length.\<close>

fun seal :: "frame_kind \<Rightarrow> u8 list \<Rightarrow> u8 list option" where
  "seal (Prefixed n) xs = (if length xs < 256 ^ n then Some (be_bytes n (length xs) @ xs) else None)"
| "seal Asn1 xs = (if length xs \<le> 0xfffffffe then Some (der_length (length xs) @ xs) else None)"

fun close_frames :: "u8 list \<Rightarrow> frame list \<Rightarrow> u8 list option" where
  "close_frames xs [] = Some xs"
| "close_frames xs ((p, k, zs) # fs) =
    Option.bind (close_frames zs fs) (\<lambda>ys. map_option ((@) xs) (seal k ys))"

text \<open>Closing all frames but the outermost \<open>k\<close>.\<close>

fun close_to :: "nat \<Rightarrow> writer \<Rightarrow> writer option" where
  "close_to 0 (xs, fs) = map_option (\<lambda>ys. (ys, [])) (close_frames xs fs)"
| "close_to (Suc k) (xs, []) = None"
| "close_to (Suc k) (xs, (p, kd, zs) # fs) =
    map_option (\<lambda>(zs', fs'). (xs, (p, kd, zs') # fs')) (close_to k (zs, fs))"

text \<open>Appending to the innermost frame.\<close>

fun append_inner :: "u8 list \<Rightarrow> writer \<Rightarrow> writer" where
  "append_inner d (xs, []) = (xs @ d, [])"
| "append_inner d (xs, (p, kd, zs) # fs) =
    (case append_inner d (zs, fs) of (zs', fs') \<Rightarrow> (xs, (p, kd, zs') # fs'))"

fun open_inner :: "nat \<Rightarrow> frame_kind \<Rightarrow> writer \<Rightarrow> writer" where
  "open_inner q k (xs, fs) = (xs, fs @ [(q, k, [])])"

definition writer_level :: "writer \<Rightarrow> cbb_ref \<Rightarrow> nat option" where
  "writer_level w r = (case r of Top \<Rightarrow> Some 0 | Child p \<Rightarrow> map_option Suc (position p (snd w)))"

text \<open>What a flush of \<open>r\<close> leaves.\<close>

definition close_at :: "cbb_ref \<Rightarrow> writer \<Rightarrow> writer option" where
  "close_at r w = Option.bind (writer_level w r) (\<lambda>k. close_to k w)"

section \<open>Laws\<close>

lemma append_inner_append: "append_inner (xs @ ys) w = append_inner ys (append_inner xs w)"
  by (induction xs w rule: append_inner.induct) (auto split: prod.splits)

lemma append_inner_Nil [simp]: "append_inner [] w = w"
  by (induction "[] :: u8 list" w rule: append_inner.induct) auto

lemma frames_append_inner [simp]: "map fst (snd (append_inner d w)) = map fst (snd w)"
  by (induction d w rule: append_inner.induct) (auto split: prod.splits)

lemma position_fst: "map fst xs = map fst ys \<Longrightarrow> position p xs = position p ys"
proof (induction xs arbitrary: ys)
  case (Cons x xs)
  then show ?case by (cases ys; cases x; cases "hd ys") auto
qed simp

lemma position_bound: "position p xs = Some k \<Longrightarrow> k < length xs"
  by (induction p xs arbitrary: k rule: position.induct) (auto split: if_splits)

lemma level_bound: "writer_level w r = Some k \<Longrightarrow> k \<le> length (snd w)"
  by (auto simp: writer_level_def split: cbb_ref.splits dest: position_bound)

lemma level_append_inner [simp]: "writer_level (append_inner d w) r = writer_level w r"
  using position_fst [OF frames_append_inner, of _ d w] by (simp add: writer_level_def split: cbb_ref.split)

lemma close_to_inner:
  "k = length (snd w) \<Longrightarrow> close_to k w = Some w"
  by (induction k w rule: close_to.induct) auto

lemma close_to_frames: "close_to k w = Some w' \<Longrightarrow> map fst (snd w') = take k (map fst (snd w))"
  by (induction k w arbitrary: w' rule: close_to.induct) auto

lemma position_take:
  "position p xs = Some k \<Longrightarrow> k < n \<Longrightarrow> position p (take n xs) = Some k"
proof (induction p xs arbitrary: k n rule: position.induct)
  case (2 p q y cs)
  then show ?case by (cases n) (auto split: if_splits)
qed simp

lemma close_at_level:
  assumes "close_at r w = Some w'"
  shows "writer_level w' r = Some (length (snd w'))"
proof -
  obtain k where k: "writer_level w r = Some k" "close_to k w = Some w'"
    using assms by (auto simp: close_at_def bind_eq_Some_conv)
  have f: "map fst (snd w') = map fst (take k (snd w))" using close_to_frames [OF k(2)] by (simp add: take_map)
  then have l: "length (snd w') = k" using level_bound [OF k(1)] by (metis length_map length_take min_absorb2)
  show ?thesis
  proof (cases r)
    case Top
    then show ?thesis using k l by (simp add: writer_level_def)
  next
    case (Child p)
    then obtain j where j: "position p (snd w) = Some j" "k = Suc j" using k(1) by (auto simp: writer_level_def)
    then have "position p (take k (snd w)) = Some j" by (intro position_take) simp_all
    then show ?thesis using position_fst [OF f, of p] l j Child by (simp add: writer_level_def)
  qed
qed

lemma close_at_inner: "writer_level w r = Some (length (snd w)) \<Longrightarrow> close_at r w = Some w"
  by (simp add: close_at_def close_to_inner)

end
