(* ===== verification/ByteSink.thy ===== *)
theory ByteSink
  imports Prelude
begin

text \<open>
  The interface of a writer that takes one byte at a time: \<open>emit\<close> appends a byte or fails,
  \<open>holds s xs\<close> says what has been written, \<open>room s n\<close> that \<open>n\<close> more bytes
  are accepted. The clients are loops that emit the bytes of an encoding.
\<close>

fun emit_bytes :: "('s \<Rightarrow> u8 \<Rightarrow> bool \<times> 's) \<Rightarrow> 's \<Rightarrow> u8 list \<Rightarrow> bool \<times> 's" where
  "emit_bytes emit s [] = (True, s)"
| "emit_bytes emit s (b # bs) = then_ok (emit s b) (\<lambda>s. emit_bytes emit s bs)"

lemma emit_bytes_append:
  "emit_bytes emit s (xs @ ys) = then_ok (emit_bytes emit s xs) (\<lambda>s. emit_bytes emit s ys)"
proof (induction xs arbitrary: s)
  case (Cons x xs)
  then show ?case by (cases "emit s x"; cases "fst (emit s x)") auto
qed simp

locale byte_sink =
  fixes emit :: "'s \<Rightarrow> u8 \<Rightarrow> bool \<times> 's"
    and holds :: "'s \<Rightarrow> u8 list \<Rightarrow> bool"
    and room :: "'s \<Rightarrow> nat \<Rightarrow> bool"
  assumes emit_holds: "holds s xs \<Longrightarrow> emit s b = (True, s') \<Longrightarrow> holds s' (xs @ [b])"
    and emit_room: "holds s xs \<Longrightarrow> room s (Suc n) \<Longrightarrow> fst (emit s b)"
    and room_emit: "holds s xs \<Longrightarrow> emit s b = (True, s') \<Longrightarrow> room s (Suc n) \<Longrightarrow> room s' n"
begin

lemma emit_bytes_holds:
  "holds s xs \<Longrightarrow> emit_bytes emit s bs = (True, s') \<Longrightarrow> holds s' (xs @ bs)"
proof (induction bs arbitrary: s xs)
  case (Cons b bs)
  from Cons.prems(2) obtain s1 where s1: "emit s b = (True, s1)" "emit_bytes emit s1 bs = (True, s')"
    by (auto elim: then_ok_TrueE)
  then show ?case using Cons.IH [OF emit_holds [OF Cons.prems(1) s1(1)] s1(2)] by simp
qed simp

lemma emit_bytes_room:
  "holds s xs \<Longrightarrow> room s (length bs + n) \<Longrightarrow> \<exists>s'. emit_bytes emit s bs = (True, s') \<and> room s' n"
proof (induction bs arbitrary: s xs)
  case (Cons b bs)
  then have "fst (emit s b)" using emit_room by simp
  then obtain s1 where s1: "emit s b = (True, s1)" by (cases "emit s b") auto
  then have "room s1 (length bs + n)" using room_emit Cons.prems by simp
  then show ?case using Cons.IH [OF emit_holds [OF Cons.prems(1) s1]] s1 by simp
qed simp

end

end
