(* ===== verification/CbbFacts.thy ===== *)
theory CbbFacts
  imports CbbSpec ByteSink
begin

text \<open>
  The writer of \<open>cbb.c\<close> implements the abstract writer. \<open>buf_ok\<close> is the invariant of
  the buffer, \<open>layout\<close> says how the abstract frames lie in the buffer, and \<open>represents\<close>
  puts them together. Every operation that succeeds does what its abstract counterpart does;
  \<open>fits\<close> says when the buffer can grow, and then it does succeed.
\<close>

section \<open>Buffers\<close>

definition buf_ok :: "cbb_buffer \<Rightarrow> bool" where
  "buf_ok b \<longleftrightarrow> b_len b \<le> b_cap b \<and> length (b_buf b) = b_cap b \<and> b_cap b < 2 ^ 64"

definition content :: "cbb_buffer \<Rightarrow> u8 list" where
  "content b = take (b_len b) (b_buf b)"

definition fits :: "(nat \<Rightarrow> u8 option) \<Rightarrow> cbb_buffer \<Rightarrow> nat \<Rightarrow> bool" where
  "fits h b n \<longleftrightarrow> n < 2 ^ 64 \<and> (if b_resize b then \<forall>m < 2 ^ 64. h m \<noteq> None else n \<le> b_cap b)"

text \<open>What stays when the buffer grows.\<close>

definition same_kind :: "cbb_buffer \<Rightarrow> cbb_buffer \<Rightarrow> bool" where
  "same_kind b b' \<longleftrightarrow> b_resize b' = b_resize b \<and> (b_resize b \<or> b_cap b' = b_cap b)"

lemma same_kind_refl [simp]: "same_kind b b"
  by (simp add: same_kind_def)

lemma same_kind_trans [trans]: "same_kind a b \<Longrightarrow> same_kind b c \<Longrightarrow> same_kind a c"
  by (auto simp: same_kind_def)

lemma fits_same_kind: "same_kind b b' \<Longrightarrow> fits h b' n = fits h b n"
  by (auto simp: same_kind_def fits_def)

lemma fits_mono: "fits h b n \<Longrightarrow> m \<le> n \<Longrightarrow> fits h b m"
  by (auto simp: fits_def)

lemma length_content [simp]: "buf_ok b \<Longrightarrow> length (content b) = b_len b"
  by (simp add: content_def buf_ok_def)

lemma mod_less_self: "n < 2 ^ 64 \<Longrightarrow> k < 2 ^ 64 \<Longrightarrow> \<not> (n + k) mod 2 ^ 64 < n \<Longrightarrow> n + k < (2 :: nat) ^ 64"
proof (rule ccontr)
  assume a: "n < 2 ^ 64" "k < 2 ^ 64" "\<not> (n + k) mod 2 ^ 64 < n" "\<not> n + k < (2 :: nat) ^ 64"
  then have "(n + k) mod 2 ^ 64 = n + k - 2 ^ 64"
    by (simp add: le_mod_geq)
  then show False using a by linarith
qed

definition grown :: "cbb_buffer \<Rightarrow> cbb_buffer \<Rightarrow> bool" where
  "grown b b' \<longleftrightarrow> buf_ok b' \<and> \<not> b_error b' \<and> same_kind b b'"

definition new_cap :: "nat \<Rightarrow> nat \<Rightarrow> nat" where
  "new_cap cap n = (let c = (cap * 2) mod 2 ^ 64 in if c < cap \<or> c < n then n else c)"

lemma new_cap: "n < 2 ^ 64 \<Longrightarrow> n \<le> new_cap cap n \<and> new_cap cap n < 2 ^ 64"
  by (auto simp: new_cap_def Let_def)

lemma reserve_unfold:
  "cbb_buffer_reserve h b k =
    (if (b_len b + k) mod 2 ^ 64 < b_len b then (False, b\<lparr>b_error := True\<rparr>)
     else if (b_len b + k) mod 2 ^ 64 \<le> b_cap b then (True, b)
     else if \<not> b_resize b then (False, b\<lparr>b_error := True\<rparr>)
     else case h (new_cap (b_cap b) ((b_len b + k) mod 2 ^ 64)) of
         None \<Rightarrow> (False, b\<lparr>b_error := True\<rparr>)
       | Some x \<Rightarrow>
         (True, b\<lparr>b_buf := b_buf b @ replicate (new_cap (b_cap b) ((b_len b + k) mod 2 ^ 64) - length (b_buf b)) x,
                 b_cap := new_cap (b_cap b) ((b_len b + k) mod 2 ^ 64)\<rparr>))"
  unfolding cbb_buffer_reserve_def new_cap_def Let_def by simp

lemma reserve_ok:
  assumes "buf_ok b" "\<not> b_error b" "k < 2 ^ 64" "cbb_buffer_reserve h b k = (True, b')"
  shows "grown b b'" "b_len b' = b_len b" "content b' = content b" "b_len b + k \<le> b_cap b'"
proof -
  have ge: "\<not> (b_len b + k) mod 2 ^ 64 < b_len b" using assms(4) by (simp add: reserve_unfold split: if_splits)
  have lt: "b_len b < 2 ^ 64" using assms(1) by (auto simp: buf_ok_def)
  then have n: "b_len b + k < 2 ^ 64" using ge assms(3) mod_less_self by blast
  then have m: "(b_len b + k) mod 2 ^ 64 = b_len b + k" by (rule mod_less)
  have "grown b b' \<and> b_len b' = b_len b \<and> content b' = content b \<and> b_len b + k \<le> b_cap b'"
  proof (cases "b_len b + k \<le> b_cap b")
    case True
    then have "b' = b" using assms(4) unfolding reserve_unfold m by simp
    then show ?thesis using assms True by (simp add: grown_def)
  next
    case False
    define nc where "nc = new_cap (b_cap b) (b_len b + k)"
    have nc: "b_len b + k \<le> nc" "nc < 2 ^ 64" using new_cap [OF n] by (simp_all add: nc_def)
    obtain x where x: "b_resize b" "b' = b\<lparr>b_buf := b_buf b @ replicate (nc - length (b_buf b)) x, b_cap := nc\<rparr>"
      using assms(4) False unfolding reserve_unfold m nc_def by (auto split: if_splits option.splits)
    show ?thesis using x nc False assms(1,2)
      by (auto simp: grown_def buf_ok_def content_def same_kind_def)
  qed
  then show "grown b b'" "b_len b' = b_len b" "content b' = content b" "b_len b + k \<le> b_cap b'" by simp_all
qed

lemma reserve_fits:
  assumes "buf_ok b" "fits h b (b_len b + k)"
  shows "fst (cbb_buffer_reserve h b k)"
proof -
  have n: "b_len b + k < 2 ^ 64" using assms(2) by (simp add: fits_def)
  then have m: "(b_len b + k) mod 2 ^ 64 = b_len b + k" by (rule mod_less)
  have "h (new_cap (b_cap b) (b_len b + k)) \<noteq> None" if "b_resize b"
    using assms(2) that new_cap [OF n, of "b_cap b"] by (simp add: fits_def)
  then show ?thesis
    using assms(2) unfolding reserve_unfold m fits_def by (cases "b_resize b") (auto split: option.split)
qed

lemma buf_ok_error [simp]: "buf_ok (b\<lparr>b_error := e\<rparr>) = buf_ok b"
  by (simp add: buf_ok_def)

lemma reserve_fail: "cbb_buffer_reserve h b k = (False, b') \<Longrightarrow> b' = b\<lparr>b_error := True\<rparr>"
  by (auto simp: cbb_buffer_reserve_def Let_def split: if_splits option.splits)

lemma add_fail: "cbb_buffer_add h b k = (False, b') \<Longrightarrow> b' = b\<lparr>b_error := True\<rparr>"
  using reserve_fail [of h b k] unfolding cbb_buffer_add_def
  by (cases "cbb_buffer_reserve h b k"; cases "fst (cbb_buffer_reserve h b k)") auto

lemma add_fits: "buf_ok b \<Longrightarrow> fits h b (b_len b + k) \<Longrightarrow> fst (cbb_buffer_add h b k)"
  using reserve_fits [of b h k] unfolding cbb_buffer_add_def
  by (cases "cbb_buffer_reserve h b k") simp

text \<open>The buffer after an addition has the old contents and then \<open>k\<close> bytes that the caller
  overwrites.\<close>

lemma add_ok:
  assumes "buf_ok b" "\<not> b_error b" "k < 2 ^ 64" "cbb_buffer_add h b k = (True, b')"
  shows "grown b b'" "b_len b' = b_len b + k" "take (b_len b) (b_buf b') = content b"
proof -
  obtain b1 where b1: "cbb_buffer_reserve h b k = (True, b1)" "b' = b1\<lparr>b_len := b_len b1 + k\<rparr>"
    using assms(4) by (auto simp: cbb_buffer_add_def elim: then_ok_TrueE)
  note r = reserve_ok [OF assms(1-3) b1(1)]
  show "grown b b'" using r b1(2) by (simp add: grown_def buf_ok_def same_kind_def)
  show "b_len b' = b_len b + k" using r b1(2) by simp
  show "take (b_len b) (b_buf b') = content b" using r b1(2) by (simp add: content_def)
qed

text \<open>Overwriting the bytes that were added appends them.\<close>

lemma grown_patch: "grown b b' \<Longrightarrow> p + length xs \<le> b_len b' \<Longrightarrow> grown b (b'\<lparr>b_buf := patch (b_buf b') p xs\<rparr>)"
  by (auto simp: grown_def buf_ok_def same_kind_def)

lemma content_patch:
  assumes "buf_ok b" "p + length xs \<le> b_len b"
  shows "content (b\<lparr>b_buf := patch (b_buf b) p xs\<rparr>) = patch (content b) p xs"
  using assms by (auto simp: content_def buf_ok_def patch_def take_drop)

lemma add_patch_content:
  assumes "buf_ok b" "\<not> b_error b" "length xs < 2 ^ 64" "cbb_buffer_add h b (length xs) = (True, b')"
  shows "content (b'\<lparr>b_buf := patch (b_buf b') (b_len b) xs\<rparr>) = content b @ xs"
proof -
  note r = add_ok [OF assms]
  have "content (b'\<lparr>b_buf := patch (b_buf b') (b_len b) xs\<rparr>) = patch (content b') (b_len b) xs"
    using r by (intro content_patch) (auto simp: grown_def)
  also have "\<dots> = content b @ xs"
    using r by (simp add: patch_def content_def grown_def buf_ok_def)
  finally show ?thesis .
qed

lemma put_be_patch:
  "p + n \<le> length m \<Longrightarrow> put_be m p n v = (patch m p (be_bytes n v), v div 256 ^ n)"
proof (induction n arbitrary: m v)
  case (Suc n)
  have "m[p + n := byte_of (v mod 256)] = patch m (p + n) [byte_of (v mod 256)]"
    using Suc.prems by (simp add: patch_def upd_conv_take_nth_drop)
  moreover have "patch (patch m (p + n) [byte_of (v mod 256)]) p (be_bytes n (v div 256))
      = patch m p (be_bytes n (v div 256) @ [byte_of (v mod 256)])"
    using Suc.prems by (simp add: patch_def take_drop drop_take min_def)
  ultimately show ?case using Suc by (simp add: div_mult2_eq)
qed simp

section \<open>Prefixes\<close>

lemma flush_length_ok:
  assumes "buf_ok b" "\<not> b_error b" "off + n \<le> b_len b" "flush_length b off n len = (True, b')"
  shows "len < 256 ^ n" "grown b b'" "b_len b' = b_len b" "content b' = patch (content b) off (be_bytes n len)"
proof -
  have l: "off + n \<le> length (b_buf b)" using assms by (simp add: buf_ok_def)
  have *: "len div 256 ^ n = 0 \<and> b' = b\<lparr>b_buf := patch (b_buf b) off (be_bytes n len)\<rparr>"
    using assms(4) by (simp add: flush_length_def put_be_patch [OF l] buf_error_def Let_def split: if_splits)
  show "len < 256 ^ n" using * by (simp add: div_eq_0_iff)
  have "grown b b" using assms by (simp add: grown_def)
  then show "grown b b'" using * assms(3) grown_patch [of b b off "be_bytes n len"] by simp
  show "b_len b' = b_len b" using * by simp
  show "content b' = patch (content b) off (be_bytes n len)"
    using * assms(1,3) content_patch [of b off "be_bytes n len"] by simp
qed

lemma flush_length_fits:
  "off + n \<le> length (b_buf b) \<Longrightarrow> len < 256 ^ n \<Longrightarrow> fst (flush_length b off n len)"
  by (simp add: flush_length_def put_be_patch div_eq_0_iff)

lemma length_form:
  "asn1_length_form len =
    (if len < 128 then (1, len, 0) else (Suc (length_octets len), 128 + length_octets len, len))"
  by (simp add: asn1_length_form_def length_octets_def)

lemma patch_app [simp]: "length p = length q \<Longrightarrow> length A = n \<Longrightarrow> patch (A @ p @ ws) n q = A @ q @ ws"
  by (simp add: patch_def)

text \<open>The room for the length octets of a long child: the contents move up, then the prefix
  is written.\<close>

lemma shift_contents:
  assumes "length junk = e" "length ys = e"
  shows "patch (patch (A @ x # ws @ junk) (Suc (length A) + e) ws) (length A) (y # ys) = A @ y # ys @ ws"
  using assms by (simp add: patch_def min_def)

definition kind_of :: "cbb_child \<Rightarrow> frame_kind" where
  "kind_of c = (if c_is_asn1 c then Asn1 else Prefixed (c_pending_len_len c))"

definition child_ok :: "cbb_child \<Rightarrow> bool" where
  "child_ok c \<longleftrightarrow> c_pending_len_len c \<le> 8 \<and> (c_is_asn1 c \<longrightarrow> c_pending_len_len c = 1)"

lemma set_content:
  assumes "buf_ok b" "i < b_len b"
  shows "content (b\<lparr>b_buf := (b_buf b)[i := x]\<rparr>) = (content b)[i := x]"
  using assms by (simp add: content_def take_update_swap)

lemma grown_set: "grown b b' \<Longrightarrow> grown b (b'\<lparr>b_buf := (b_buf b')[i := x]\<rparr>)"
  by (simp add: grown_def buf_ok_def same_kind_def)

lemma grown_trans: "grown a b \<Longrightarrow> grown b c \<Longrightarrow> grown a c"
  by (auto simp: grown_def intro: same_kind_trans)

text \<open>The prefix of one child whose contents are \<open>ws\<close>.\<close>

lemma flush_prefixed:
  assumes b: "buf_ok b" "\<not> b_error b" "content b = A @ p @ ws" "length A = c_offset c"
    "length p = c_pending_len_len c" "\<not> c_is_asn1 c"
  shows "flush_prefix h b c = (True, b') \<Longrightarrow> \<exists>s. seal (kind_of c) ws = Some s \<and> grown b b' \<and> content b' = A @ s"
    and "seal (kind_of c) ws = Some s \<Longrightarrow> fst (flush_prefix h b c)"
proof -
  have bl: "b_len b = length A + length p + length ws" using length_content [OF b(1)] b(3) by simp
  have f: "flush_prefix h b c = flush_length b (length A) (length p) (length ws)"
    using b by (simp add: flush_prefix_def Let_def bl)
  show "\<exists>s. seal (kind_of c) ws = Some s \<and> grown b b' \<and> content b' = A @ s" if ok: "flush_prefix h b c = (True, b')"
  proof -
    have le: "length A + length p \<le> b_len b" by (simp add: bl)
    note r = flush_length_ok [OF b(1,2) le ok [unfolded f]]
    then show ?thesis using b by (auto simp: kind_of_def)
  qed
  show "fst (flush_prefix h b c)" if "seal (kind_of c) ws = Some s"
    unfolding f using that b bl
    by (intro flush_length_fits) (auto simp: buf_ok_def kind_of_def split: if_splits)
qed

lemma flush_short:
  assumes b: "buf_ok b" "\<not> b_error b" "content b = A @ [x] @ ws" "length A = c_offset c"
    "c_pending_len_len c = 1" "c_is_asn1 c" "length ws < 128"
  shows "\<exists>b'. flush_prefix h b c = (True, b') \<and> grown b b' \<and> content b' = A @ der_length (length ws) @ ws"
proof -
  have bl: "b_len b = Suc (length A + length ws)" using length_content [OF b(1)] b(3) by simp
  have f: "flush_prefix h b c = (True, b\<lparr>b_buf := (b_buf b)[length A := byte_of (length ws)]\<rparr>)"
    using b by (simp add: flush_prefix_def Let_def bl length_form flush_length_def)
  have "content (b\<lparr>b_buf := (b_buf b)[length A := byte_of (length ws)]\<rparr>) = A @ der_length (length ws) @ ws"
    using b(7) by (subst set_content [OF b(1)]) (simp_all add: bl b(3) der_length_def list_update_append)
  moreover have "grown b (b\<lparr>b_buf := (b_buf b)[length A := byte_of (length ws)]\<rparr>)"
    using b by (intro grown_set) (simp add: grown_def)
  ultimately show ?thesis using f by blast
qed

lemma flush_long:
  assumes b: "buf_ok b" "\<not> b_error b" "content b = A @ [x] @ ws" "length A = c_offset c"
    "c_pending_len_len c = 1" "c_is_asn1 c" "\<not> length ws < 128" "length ws \<le> 0xfffffffe"
  defines "e \<equiv> length_octets (length ws)"
  shows "flush_prefix h b c =
    (case cbb_buffer_add h b e of
       (False, b1) \<Rightarrow> buf_error b1
     | (True, b1) \<Rightarrow> flush_length (b1\<lparr>b_buf := (patch (b_buf b1) (Suc (length A) + e)
           (take (length ws) (drop (Suc (length A)) (b_buf b1))))[length A := byte_of (128 + e)]\<rparr>)
         (Suc (length A)) e (length ws))" (is ?unf)
    and "cbb_buffer_add h b e = (True, b1) \<Longrightarrow>
      \<exists>b'. flush_prefix h b c = (True, b') \<and> grown b b' \<and> content b' = A @ der_length (length ws) @ ws"
proof -
  have bl: "b_len b = Suc (length A + length ws)" using length_content [OF b(1)] b(3) by simp
  have e: "1 \<le> e" "e \<le> 4" "length ws < 256 ^ e" using length_octets_bounds [of "length ws"] b(8) by (simp_all add: e_def)
  show u: ?unf
    using b(4-8) e
    by (simp add: flush_prefix_def Let_def bl length_form flip: e_def) (auto simp: then_ok_def split: prod.split bool.split)
  assume ad: "cbb_buffer_add h b e = (True, b1)"
  have "e < 2 ^ 64" using e by simp
  note r = add_ok [OF b(1,2) this ad]
  have g1: "buf_ok b1" "\<not> b_error b1" using r(1) by (simp_all add: grown_def)
  define junk where "junk = drop (b_len b) (content b1)"
  have lj: "length junk = e" using r g1 by (simp add: junk_def)
  have "take (b_len b) (content b1) = content b"
    using r by (simp add: content_def min_def)
  then have c1: "content b1 = A @ x # ws @ junk"
    using append_take_drop_id [of "b_len b" "content b1"] b(3) by (simp add: junk_def)
  have "take (length ws) (drop (Suc (length A)) (content b1)) = ws" by (simp add: c1)
  then have mv: "take (length ws) (drop (Suc (length A)) (b_buf b1)) = ws"
    using r(2) bl by (simp add: content_def drop_take min_def)
  define b2 where "b2 = b1\<lparr>b_buf := patch (b_buf b1) (Suc (length A) + e) ws\<rparr>"
  have b2: "grown b b2" "b_len b2 = b_len b1" "content b2 = patch (content b1) (Suc (length A) + e) ws"
    using grown_patch [OF r(1)] content_patch [OF g1(1)] r(2) bl by (simp_all add: b2_def)
  define b3 where "b3 = b2\<lparr>b_buf := (b_buf b2)[length A := byte_of (128 + e)]\<rparr>"
  have b3: "grown b b3" "b_len b3 = b_len b1" "content b3 = (content b2)[length A := byte_of (128 + e)]"
    using grown_set [OF b2(1)] set_content [of b2 "length A"] b2 r(2) bl by (simp_all add: b3_def grown_def)
  have fl: "flush_prefix h b c = flush_length b3 (Suc (length A)) e (length ws)"
    unfolding u ad by (simp add: mv b3_def b2_def)
  have g3: "buf_ok b3" "\<not> b_error b3" using b3(1) by (simp_all add: grown_def)
  have le: "Suc (length A) + e \<le> b_len b3" using b3(2) r(2) bl by simp
  have "fst (flush_length b3 (Suc (length A)) e (length ws))"
    using g3(1) le e(3) by (intro flush_length_fits) (simp_all add: buf_ok_def)
  then obtain b' where b': "flush_length b3 (Suc (length A)) e (length ws) = (True, b')"
    by (cases "flush_length b3 (Suc (length A)) e (length ws)") auto
  note fr = flush_length_ok [OF g3 le b']
  have "content b' = patch (content b3) (Suc (length A)) (be_bytes e (length ws))" by (rule fr(4))
  also have "\<dots> = patch (patch (A @ x # ws @ junk) (Suc (length A) + e) ws) (length A)
      (byte_of (128 + e) # be_bytes e (length ws))"
    unfolding b3(3) b2(3) c1 using lj by (simp add: patch_def list_update_append min_def)
  also have "\<dots> = A @ der_length (length ws) @ ws"
    using shift_contents [OF lj, of "be_bytes e (length ws)"] b(7) by (simp add: der_length_def e_def)
  finally have "content b' = A @ der_length (length ws) @ ws" .
  then show "\<exists>b'. flush_prefix h b c = (True, b') \<and> grown b b' \<and> content b' = A @ der_length (length ws) @ ws"
    using fl b' grown_trans [OF b3(1) fr(2)] by auto
qed

lemma flush_asn1:
  assumes b: "buf_ok b" "\<not> b_error b" "content b = A @ [x] @ ws" "length A = c_offset c"
    "c_pending_len_len c = 1" "c_is_asn1 c"
  shows "flush_prefix h b c = (True, b') \<Longrightarrow> \<exists>s. seal Asn1 ws = Some s \<and> grown b b' \<and> content b' = A @ s"
    and "seal Asn1 ws = Some s \<Longrightarrow> fits h b (length A + length s) \<Longrightarrow> fst (flush_prefix h b c)"
proof -
  have bl: "b_len b = Suc (length A + length ws)" using length_content [OF b(1)] b(3) by simp
  have big: "flush_prefix h b c = buf_error b" if "\<not> length ws \<le> 0xfffffffe"
    using that b by (simp add: flush_prefix_def Let_def bl)
  show "\<exists>s. seal Asn1 ws = Some s \<and> grown b b' \<and> content b' = A @ s" if ok: "flush_prefix h b c = (True, b')"
  proof -
    have l: "length ws \<le> 0xfffffffe" using big ok by (auto simp: buf_error_def)
    show ?thesis
    proof (cases "length ws < 128")
      case True
      then show ?thesis using flush_short [OF b True, of h] ok l by auto
    next
      case False
      have "fst (cbb_buffer_add h b (length_octets (length ws)))"
        using ok unfolding flush_long(1) [OF b False l] buf_error_def by (auto split: prod.splits bool.splits)
      then obtain b1 where "cbb_buffer_add h b (length_octets (length ws)) = (True, b1)"
        by (cases "cbb_buffer_add h b (length_octets (length ws))") auto
      from flush_long(2) [OF b False l this] show ?thesis using ok l by auto
    qed
  qed
  show "fst (flush_prefix h b c)" if s: "seal Asn1 ws = Some s" "fits h b (length A + length s)"
  proof -
    have l: "length ws \<le> 0xfffffffe" using s by (simp split: if_splits)
    show ?thesis
    proof (cases "length ws < 128")
      case True
      then show ?thesis using flush_short [OF b True, of h] by auto
    next
      case False
      have "b_len b + length_octets (length ws) = length A + length s"
        using s(1) l False bl by (auto simp: length_der_length)
      then have "fst (cbb_buffer_add h b (length_octets (length ws)))" using add_fits [OF b(1)] s(2) by metis
      then obtain b1 where "cbb_buffer_add h b (length_octets (length ws)) = (True, b1)"
        by (cases "cbb_buffer_add h b (length_octets (length ws))") auto
      from flush_long(2) [OF b False l this] show ?thesis by auto
    qed
  qed
qed

lemma flush_prefix_refines:
  assumes b: "buf_ok b" "\<not> b_error b" "content b = A @ p @ ws" "length A = c_offset c"
    "length p = c_pending_len_len c" "child_ok c"
  shows "flush_prefix h b c = (True, b') \<Longrightarrow> \<exists>s. seal (kind_of c) ws = Some s \<and> grown b b' \<and> content b' = A @ s"
    and "seal (kind_of c) ws = Some s \<Longrightarrow> fits h b (length A + length s) \<Longrightarrow> fst (flush_prefix h b c)"
proof -
  have "\<exists>s. seal (kind_of c) ws = Some s \<and> grown b b' \<and> content b' = A @ s" if "flush_prefix h b c = (True, b')"
  proof (cases "c_is_asn1 c")
    case False
    then show ?thesis using flush_prefixed(1) [OF b(1-5) False that] by blast
  next
    case True
    then obtain x where p: "p = [x]" "c_pending_len_len c = 1" using b(5,6) by (cases p) (auto simp: child_ok_def)
    show ?thesis using flush_asn1(1) [OF b(1,2) _ b(4) p(2) True that, of x ws] b(3) p True by (simp add: kind_of_def)
  qed
  then show "flush_prefix h b c = (True, b') \<Longrightarrow> \<exists>s. seal (kind_of c) ws = Some s \<and> grown b b' \<and> content b' = A @ s" .
  have "fst (flush_prefix h b c)" if s: "seal (kind_of c) ws = Some s" "fits h b (length A + length s)"
  proof (cases "c_is_asn1 c")
    case False
    then show ?thesis using flush_prefixed(2) [OF b(1-5) False s(1)] by blast
  next
    case True
    then obtain x where p: "p = [x]" "c_pending_len_len c = 1" using b(5,6) by (cases p) (auto simp: child_ok_def)
    show ?thesis using flush_asn1(2) [OF b(1,2) _ b(4) p(2) True, of x ws s h] s b(3) p True by (simp add: kind_of_def)
  qed
  then show "seal (kind_of c) ws = Some s \<Longrightarrow> fits h b (length A + length s) \<Longrightarrow> fst (flush_prefix h b c)" .
qed

section \<open>Chains\<close>

text \<open>The frames from \<open>off\<close> on: the bytes of the first, then the reserved prefix of the next
  child, and so on.\<close>

fun layout :: "nat \<Rightarrow> u8 list \<Rightarrow> frame list \<Rightarrow> (nat \<times> cbb_child) list \<Rightarrow> u8 list \<Rightarrow> bool" where
  "layout off xs [] [] ys \<longleftrightarrow> ys = xs"
| "layout off xs ((p, k, zs) # fs) ((q, c) # cs) ys \<longleftrightarrow>
    p = q \<and> k = kind_of c \<and> child_ok c \<and> c_offset c = off + length xs \<and>
    (\<exists>res rest. length res = c_pending_len_len c \<and> ys = xs @ res @ rest \<and>
       layout (off + length xs + c_pending_len_len c) zs fs cs rest)"
| "layout off xs _ _ ys \<longleftrightarrow> False"

lemma layout_fst: "layout off xs fs cs ys \<Longrightarrow> map fst cs = map fst fs"
  by (induction off xs fs cs ys rule: layout.induct) auto

lemma seal_length: "seal k ws = Some s \<Longrightarrow> length ws \<le> length s"
  by (cases k) (auto split: if_splits)

lemma close_length:
  "close_frames xs fs = Some ys \<Longrightarrow> length xs \<le> length ys"
  by (induction xs fs arbitrary: ys rule: close_frames.induct) (auto simp: bind_eq_Some_conv)

text \<open>The pending bytes never outgrow the prefix they make room for.\<close>

lemma seal_pending: "child_ok c \<Longrightarrow> seal (kind_of c) ws = Some s \<Longrightarrow> c_pending_len_len c + length ws \<le> length s"
  by (auto simp: kind_of_def child_ok_def length_der_length split: if_splits)

lemma layout_Cons:
  assumes "layout off xs fs ((q, c) # cs) ys"
  obtains zs fs' res rest where "fs = (q, kind_of c, zs) # fs'" "child_ok c" "c_offset c = off + length xs"
    "length res = c_pending_len_len c" "ys = xs @ res @ rest"
    "layout (off + length xs + c_pending_len_len c) zs fs' cs rest"
proof (cases fs)
  case Nil
  then show ?thesis using assms by simp
next
  case (Cons f fs')
  obtain p k zs where "f = (p, k, zs)" by (cases f)
  then show ?thesis using assms that Cons by auto
qed

lemma flush_chain_refines:
  assumes "buf_ok b" "\<not> b_error b" "content b = pre @ ys" "layout (length pre) xs fs cs ys"
  shows "flush_chain h b (map snd cs) = (True, b') \<Longrightarrow>
      \<exists>zs. close_frames xs fs = Some zs \<and> grown b b' \<and> content b' = pre @ zs"
    and "close_frames xs fs = Some zs \<Longrightarrow> fits h b (length pre + length zs) \<Longrightarrow>
      fst (flush_chain h b (map snd cs))"
  using assms
proof (induction cs arbitrary: b pre ys xs fs b' zs)
  case Nil
  {
    case 1
    then show ?case by (cases fs) (auto simp: grown_def)
  next
    case 2
    then show ?case by simp
  }
next
  case (Cons qc cs)
  obtain q c where qc: "qc = (q, c)" by (cases qc)
  {
    case 1
    obtain ws fs' res rest where L: "fs = (q, kind_of c, ws) # fs'" "child_ok c" "c_offset c = length pre + length xs"
      "length res = c_pending_len_len c" "ys = xs @ res @ rest"
      "layout (length pre + length xs + c_pending_len_len c) ws fs' cs rest"
      using 1(5) unfolding qc by (rule layout_Cons)
    obtain b1 where b1: "flush_chain h b (map snd cs) = (True, b1)" "flush_prefix h b1 c = (True, b')"
      using 1(1,3) by (auto simp: qc Let_def buf_error_def split: prod.splits if_splits)
    have p: "length (pre @ xs @ res) = length pre + length xs + c_pending_len_len c" using L by simp
    obtain zs where zs: "close_frames ws fs' = Some zs" "grown b b1" "content b1 = (pre @ xs) @ res @ zs"
      using Cons.IH(1) [OF b1(1) 1(2,3), of "pre @ xs @ res" rest ws fs'] L(5,6) 1(4) unfolding p by auto
    have g: "buf_ok b1" "\<not> b_error b1" using zs(2) by (simp_all add: grown_def)
    have "length (pre @ xs) = c_offset c" using L by simp
    from flush_prefix_refines(1) [OF g zs(3) this L(4) L(2) b1(2)]
    obtain s where "seal (kind_of c) zs = Some s" "grown b1 b'" "content b' = (pre @ xs) @ s" by blast
    then show ?case using zs L(1) grown_trans [OF zs(2)] by auto
  next
    case 2
    obtain ws fs' res rest where L: "fs = (q, kind_of c, ws) # fs'" "child_ok c" "c_offset c = length pre + length xs"
      "length res = c_pending_len_len c" "ys = xs @ res @ rest"
      "layout (length pre + length xs + c_pending_len_len c) ws fs' cs rest"
      using 2(6) unfolding qc by (rule layout_Cons)
    obtain us s where us: "close_frames ws fs' = Some us" "seal (kind_of c) us = Some s" "zs = xs @ s"
      using 2(1) L(1) by (auto simp: bind_eq_Some_conv)
    have p: "length (pre @ xs @ res) = length pre + length xs + c_pending_len_len c" using L by simp
    have "fits h b (length (pre @ xs @ res) + length us)"
      by (rule fits_mono [OF 2(2)]) (use us seal_pending [OF L(2) us(2)] L(4) in simp)
    then have "fst (flush_chain h b (map snd cs))"
      using Cons.IH(2) [OF us(1) _ 2(3,4), of "pre @ xs @ res" rest] L(5,6) 2(5) unfolding p by auto
    then obtain b1 where b1: "flush_chain h b (map snd cs) = (True, b1)" by (cases "flush_chain h b (map snd cs)") auto
    obtain zs' where zs: "close_frames ws fs' = Some zs'" "grown b b1" "content b1 = (pre @ xs) @ res @ zs'"
      using Cons.IH(1) [OF b1(1) 2(3,4), of "pre @ xs @ res" rest ws fs'] L(5,6) 2(5) unfolding p by auto
    have z: "zs' = us" using zs us by simp
    have g: "buf_ok b1" "\<not> b_error b1" using zs(2) by (simp_all add: grown_def)
    have o: "length (pre @ xs) = c_offset c" using L by simp
    have "fits h b1 (length (pre @ xs) + length s)" 
      using 2(2) fits_same_kind [of b b1] zs(2) us(3) by (simp add: grown_def add.assoc)
    then have fp: "fst (flush_prefix h b1 c)"
      using flush_prefix_refines(2) [OF g zs(3) o L(4) L(2)] us(2) unfolding z by blast
    have bl: "b_len b1 = c_offset c + c_pending_len_len c + length us"
      using length_content [OF g(1)] zs(3) L(4) o z by simp
    moreover have "b_len b1 < 2 ^ 64" using g(1) by (auto simp: buf_ok_def)
    ultimately have "(c_offset c + c_pending_len_len c) mod 2 ^ 64 = c_offset c + c_pending_len_len c" by simp
    then show ?case using 2(4) b1 fp bl by (simp add: qc Let_def)
  }
qed

section \<open>Flushing a \<open>CBB\<close>\<close>

text \<open>How much of the buffer the frames take, with the reserved prefixes.\<close>

fun kind_room :: "frame_kind \<Rightarrow> nat" where
  "kind_room (Prefixed n) = n"
| "kind_room Asn1 = 1"

fun extent :: "writer \<Rightarrow> nat" where
  "extent (xs, fs) = length xs + (\<Sum>(p, k, zs) \<leftarrow> fs. kind_room k + length zs)"

lemma kind_room_of: "child_ok c \<Longrightarrow> kind_room (kind_of c) = c_pending_len_len c"
  by (simp add: kind_of_def child_ok_def)

lemma layout_extent: "layout off xs fs cs ys \<Longrightarrow> length ys = extent (xs, fs)"
  by (induction off xs fs cs ys rule: layout.induct) (auto simp: kind_room_of)

definition represents :: "cbb \<Rightarrow> writer \<Rightarrow> bool" where
  "represents cbb w \<longleftrightarrow>
    buf_ok (base cbb) \<and> \<not> b_error (base cbb) \<and>
    layout 0 (fst w) (snd w) (chain cbb) (content (base cbb))"

lemma represents_len: "represents cbb w \<Longrightarrow> b_len (base cbb) = extent w"
  using layout_extent [of 0 "fst w" "snd w" "chain cbb" "content (base cbb)"] by (simp add: represents_def)

lemma represents_level: "represents cbb w \<Longrightarrow> cbb_level cbb r = writer_level w r"
  using layout_fst [of 0 "fst w" "snd w"] position_fst [of "chain cbb" "snd w"]
  by (auto simp: represents_def cbb_level_def writer_level_def split: cbb_ref.split)

lemma represents_chain: "represents cbb w \<Longrightarrow> length (chain cbb) = length (snd w)"
  using layout_fst [of 0 "fst w" "snd w"] by (metis length_map represents_def)

lemma close_to_extent: "close_to k (xs, fs) = Some (xs', fs') \<Longrightarrow> k \<noteq> 0 \<Longrightarrow> xs' = xs"
  by (cases k; cases fs) (auto split: prod.splits)

lemma layout_level:
  assumes "buf_ok b" "\<not> b_error b" "content b = pre @ ys" "layout (length pre) xs fs cs ys" "k \<le> length cs"
  shows "flush_chain h b (map snd (drop k cs)) = (True, b') \<Longrightarrow>
      \<exists>w' ys'. close_to k (xs, fs) = Some w' \<and> grown b b' \<and> content b' = pre @ ys' \<and>
        layout (length pre) (fst w') (snd w') (take k cs) ys'"
    and "close_to k (xs, fs) = Some w' \<Longrightarrow> fits h b (length pre + extent w') \<Longrightarrow>
      fst (flush_chain h b (map snd (drop k cs)))"
  using assms
proof (induction k arbitrary: pre ys xs fs cs w')
  case 0
  {
    case 1
    then show ?case using flush_chain_refines(1) [OF 1(2-5), of h b'] by auto
  next
    case 2
    then show ?case using flush_chain_refines(2) [OF 2(3-6)] by auto
  }
next
  case (Suc k)
  {
    case 1
    obtain q c cs' where cs: "cs = (q, c) # cs'" using 1(6) by (cases cs) auto
    obtain ws fs' res rest where L: "fs = (q, kind_of c, ws) # fs'" "child_ok c" "c_offset c = length pre + length xs"
      "length res = c_pending_len_len c" "ys = xs @ res @ rest"
      "layout (length pre + length xs + c_pending_len_len c) ws fs' cs' rest"
      using 1(5) unfolding cs by (rule layout_Cons)
    have p: "length (pre @ xs @ res) = length pre + length xs + c_pending_len_len c" using L by simp
    obtain w' ys' where w: "close_to k (ws, fs') = Some w'" "grown b b'" "content b' = (pre @ xs @ res) @ ys'"
      "layout (length (pre @ xs @ res)) (fst w') (snd w') (take k cs') ys'"
      using Suc.IH(1) [of cs' "pre @ xs @ res" rest ws fs'] 1 L(5,6) unfolding p cs by auto
    have "layout (length pre) xs ((q, kind_of c, fst w') # snd w') (take (Suc k) cs) (xs @ res @ ys')"
      using L w(4) unfolding p by (simp add: cs) blast
    then show ?case using w L(1) by (auto simp: case_prod_beta)
  next
    case 2
    obtain q c cs' where cs: "cs = (q, c) # cs'" using 2(7) by (cases cs) auto
    obtain ws fs' res rest where L: "fs = (q, kind_of c, ws) # fs'" "child_ok c" "c_offset c = length pre + length xs"
      "length res = c_pending_len_len c" "ys = xs @ res @ rest"
      "layout (length pre + length xs + c_pending_len_len c) ws fs' cs' rest"
      using 2(6) unfolding cs by (rule layout_Cons)
    have p: "length (pre @ xs @ res) = length pre + length xs + c_pending_len_len c" using L by simp
    obtain zs' gs where w: "close_to k (ws, fs') = Some (zs', gs)" "w' = (xs, (q, kind_of c, zs') # gs)"
      using 2(1) L(1) by auto
    have "length pre + extent w' = length (pre @ xs @ res) + extent (zs', gs)"
      using w(2) L(2,4) by (simp add: kind_room_of)
    then show ?case
      using Suc.IH(2) [OF w(1), of "pre @ xs @ res" rest cs'] 2 L(5,6) unfolding p cs
      by (simp add: add.assoc)
  }
qed

text \<open>A flush of \<open>r\<close> closes the frames above it, and it fails only when a prefix is too
  small for its contents or the buffer cannot grow.\<close>

definition has_room :: "cbb \<Rightarrow> nat \<Rightarrow> bool" where
  "has_room cbb n \<longleftrightarrow> fits (heap cbb) (base cbb) n"

definition extends :: "cbb \<Rightarrow> cbb \<Rightarrow> bool" where
  "extends cbb cbb' \<longleftrightarrow> heap cbb' = heap cbb \<and> same_kind (base cbb) (base cbb')"

lemma extends_refl [simp]: "extends cbb cbb"
  by (simp add: extends_def)

lemma extends_trans: "extends a b \<Longrightarrow> extends b c \<Longrightarrow> extends a c"
  by (auto simp: extends_def intro: same_kind_trans)

lemma has_room_extends: "extends cbb cbb' \<Longrightarrow> has_room cbb' n = has_room cbb n"
  using fits_same_kind by (auto simp: extends_def has_room_def)

lemma has_room_mono: "has_room cbb n \<Longrightarrow> m \<le> n \<Longrightarrow> has_room cbb m"
  using fits_mono by (auto simp: has_room_def)

lemma flush_refines:
  assumes R: "represents cbb w"
  shows "CBB_flush cbb r = (True, cbb') \<Longrightarrow> \<exists>w'. close_at r w = Some w' \<and> represents cbb' w' \<and> extends cbb cbb'"
    and "close_at r w = Some w' \<Longrightarrow> has_room cbb (extent w') \<Longrightarrow> fst (CBB_flush cbb r)"
proof -
  note I = R [unfolded represents_def]
  have c: "content (base cbb) = [] @ content (base cbb)" by simp
  have l: "layout (length []) (fst w) (snd w) (chain cbb) (content (base cbb))" using I by simp
  note lev = represents_level [OF R, of r]
  show "\<exists>w'. close_at r w = Some w' \<and> represents cbb' w' \<and> extends cbb cbb'" if ok: "CBB_flush cbb r = (True, cbb')"
  proof -
    obtain k b where k: "writer_level w r = Some k"
      "flush_chain (heap cbb) (base cbb) (map snd (drop k (chain cbb))) = (True, b)"
      "cbb' = cbb\<lparr>base := b, chain := take k (chain cbb)\<rparr>"
      using ok I by (auto simp: CBB_flush_def lev split: option.splits prod.splits)
    have "k \<le> length (chain cbb)" using level_bound [OF k(1)] represents_chain [OF R] by simp
    from layout_level(1) [OF _ _ c l this k(2)] I
    obtain w' ys' where "close_to k w = Some w'" "grown (base cbb) b" "content b = ys'"
      "layout 0 (fst w') (snd w') (take k (chain cbb)) ys'" by auto
    then show ?thesis using k by (auto simp: close_at_def represents_def grown_def extends_def)
  qed
  show "fst (CBB_flush cbb r)" if w': "close_at r w = Some w'" "has_room cbb (extent w')"
  proof -
    obtain k where k: "writer_level w r = Some k" "close_to k w = Some w'"
      using w'(1) by (auto simp: close_at_def bind_eq_Some_conv)
    have "k \<le> length (chain cbb)" using level_bound [OF k(1)] represents_chain [OF R] by simp
    from layout_level(2) [OF _ _ c l this, of w' "heap cbb"] I k w'(2)
    have "fst (flush_chain (heap cbb) (base cbb) (map snd (drop k (chain cbb))))" by (simp add: has_room_def)
    then show ?thesis using k(1) I by (auto simp: CBB_flush_def lev split: prod.split)
  qed
qed

section \<open>Appending\<close>

lemma layout_append:
  "layout off xs fs cs ys \<Longrightarrow>
    layout off (fst (append_inner d (xs, fs))) (snd (append_inner d (xs, fs))) cs (ys @ d)"
proof (induction off xs fs cs ys rule: layout.induct)
  case (2 off xs p k zs fs q c cs ys)
  then obtain res rest where r: "length res = c_pending_len_len c" "ys = xs @ res @ rest"
    "layout (off + length xs + c_pending_len_len c) zs fs cs rest" by auto
  have "layout (off + length xs + c_pending_len_len c) (fst (append_inner d (zs, fs)))
      (snd (append_inner d (zs, fs))) cs (rest @ d)"
    using r(3) 2 by blast
  then show ?case using 2(2) r by (auto simp: case_prod_beta)
qed auto

lemma layout_open:
  "layout off xs fs cs ys \<Longrightarrow> child_ok c \<Longrightarrow> c_offset c = off + length ys \<Longrightarrow> length res = c_pending_len_len c \<Longrightarrow>
    layout off xs (fs @ [(q, kind_of c, [])]) (cs @ [(q, c)]) (ys @ res)"
proof (induction off xs fs cs ys rule: layout.induct)
  case (2 off xs p k zs fs q' c' cs ys)
  then obtain res' rest where r: "length res' = c_pending_len_len c'" "ys = xs @ res' @ rest"
    "layout (off + length xs + c_pending_len_len c') zs fs cs rest" by auto
  have "layout (off + length xs + c_pending_len_len c') zs (fs @ [(q, kind_of c, [])]) (cs @ [(q, c)]) (rest @ res)"
    using r 2 by auto
  then show ?case using 2(2) r by auto
qed auto

lemma extent_append [simp]: "extent (append_inner d w) = extent w + length d"
  by (induction d w rule: append_inner.induct) (auto split: prod.splits)

lemma extent_open [simp]: "extent (open_inner q k w) = extent w + kind_room k"
  by (cases w) simp

lemma represents_append:
  assumes R: "represents cbb w" and "length d < 2 ^ 64"
    and ok: "cbb_buffer_add (heap cbb) (base cbb) (length d) = (True, b)"
  defines "cbb' \<equiv> cbb\<lparr>base := b\<lparr>b_buf := patch (b_buf b) (b_len b - length d) d\<rparr>\<rparr>"
  shows "represents cbb' (append_inner d w)" "extends cbb cbb'"
proof -
  note I = R [unfolded represents_def]
  note a = add_ok [OF conjunct1 [OF I] _ assms(2) ok] add_patch_content [OF conjunct1 [OF I] _ assms(2) ok]
  have g: "grown (base cbb) (b\<lparr>b_buf := patch (b_buf b) (b_len (base cbb)) d\<rparr>)"
    using I a by (intro grown_patch) auto
  have p: "b_len b - length d = b_len (base cbb)" using I a(2) by simp
  show "represents cbb' (append_inner d w)"
    using g I a(4) layout_append [of 0 "fst w" "snd w" "chain cbb" "content (base cbb)" d]
    by (simp add: represents_def cbb'_def p grown_def)
  show "extends cbb cbb'" using g by (simp add: extends_def cbb'_def p grown_def)
qed

text \<open>The shape of every operation that flushes and then appends.\<close>

lemma add_space_refines:
  assumes R: "represents cbb w" and n: "n < 2 ^ 64"
  shows "CBB_add_space cbb r n = (True, cbb') \<Longrightarrow> \<exists>w'. close_at r w = Some w' \<and> extends cbb cbb' \<and>
      (\<forall>d. length d = n \<longrightarrow> represents (write_added cbb' d) (append_inner d w')) \<and>
      b_len (base cbb') = extent w' + n \<and> length (b_buf (base cbb')) \<ge> b_len (base cbb')"
    and "close_at r w = Some w' \<Longrightarrow> has_room cbb (extent w' + n) \<Longrightarrow> fst (CBB_add_space cbb r n)"
proof -
  have *: "\<exists>w'. close_at r w = Some w' \<and> extends cbb cbb' \<and>
      (\<forall>d. length d = n \<longrightarrow> represents (write_added cbb' d) (append_inner d w')) \<and>
      b_len (base cbb') = extent w' + n \<and> length (b_buf (base cbb')) \<ge> b_len (base cbb')"
    if "CBB_add_space cbb r n = (True, cbb')"
  proof -
    obtain c b where c: "CBB_flush cbb r = (True, c)" "cbb_buffer_add (heap c) (base c) n = (True, b)"
      "cbb' = c\<lparr>base := b\<rparr>"
    proof -
      obtain c where "CBB_flush cbb r = (True, c)" "with_buffer c (cbb_buffer_add (heap c) (base c) n) = (True, cbb')"
        using \<open>CBB_add_space cbb r n = (True, cbb')\<close> unfolding CBB_add_space_def by (rule then_ok_TrueE)
      then show thesis using that [of c "snd (cbb_buffer_add (heap c) (base c) n)"]
        by (cases "cbb_buffer_add (heap c) (base c) n") (simp add: with_buffer_def)
    qed
    obtain w' where w': "close_at r w = Some w'" "represents c w'" "extends cbb c"
      using flush_refines(1) [OF R c(1)] by blast
    have "represents (write_added cbb' d) (append_inner d w')" if "length d = n" for d
      using represents_append(1) [OF w'(2), of d b] c that n by (simp add: write_added_def)
    moreover have "extends cbb cbb'"
      using represents_append(2) [OF w'(2), of "replicate n 0" b] c n w'(3)
      by (auto simp: extends_def same_kind_def)
    moreover have I: "buf_ok (base c)" "\<not> b_error (base c)" using w'(2) by (simp_all add: represents_def)
    ultimately show ?thesis using w'(1) add_ok [OF I n c(2)] represents_len [OF w'(2)] c(3)
      by (auto simp: grown_def buf_ok_def)
  qed
  then show "CBB_add_space cbb r n = (True, cbb') \<Longrightarrow> \<exists>w'. close_at r w = Some w' \<and> extends cbb cbb' \<and>
      (\<forall>d. length d = n \<longrightarrow> represents (write_added cbb' d) (append_inner d w')) \<and>
      b_len (base cbb') = extent w' + n \<and> length (b_buf (base cbb')) \<ge> b_len (base cbb')" .
  show "fst (CBB_add_space cbb r n)" if w': "close_at r w = Some w'" "has_room cbb (extent w' + n)"
  proof -
    have "fst (CBB_flush cbb r)"
      by (rule flush_refines(2) [OF R w'(1)]) (use w'(2) has_room_mono in auto)
    then obtain c where c: "CBB_flush cbb r = (True, c)" by (cases "CBB_flush cbb r") auto
    then have cw: "represents c w'" "extends cbb c" using flush_refines(1) [OF R c] w'(1) by auto
    then have "fits (heap c) (base c) (b_len (base c) + n)"
      using w'(2) has_room_extends [OF cw(2)] represents_len [OF cw(1)] by (simp add: has_room_def)
    then have "fst (cbb_buffer_add (heap c) (base c) n)"
      using add_fits cw(1) by (simp add: represents_def)
    then show ?thesis by (simp add: CBB_add_space_def c with_buffer_def)
  qed
qed

lemma add_bytes_refines:
  assumes R: "represents cbb w" and n: "length d < 2 ^ 64"
  shows "CBB_add_bytes cbb r d = (True, cbb') \<Longrightarrow>
      \<exists>w'. close_at r w = Some w' \<and> represents cbb' (append_inner d w') \<and> extends cbb cbb'"
    and "close_at r w = Some w' \<Longrightarrow> has_room cbb (extent w' + length d) \<Longrightarrow> fst (CBB_add_bytes cbb r d)"
proof -
  show "\<exists>w'. close_at r w = Some w' \<and> represents cbb' (append_inner d w') \<and> extends cbb cbb'"
    if "CBB_add_bytes cbb r d = (True, cbb')"
  proof -
    obtain c where c: "CBB_add_space cbb r (length d) = (True, c)" "cbb' = write_added c d"
      using \<open>CBB_add_bytes cbb r d = (True, cbb')\<close> by (auto simp: CBB_add_bytes_def elim!: then_ok_TrueE)
    then show ?thesis using add_space_refines(1) [OF R n c(1)] by (auto simp: extends_def write_added_def same_kind_def)
  qed
  show "fst (CBB_add_bytes cbb r d)" if "close_at r w = Some w'" "has_room cbb (extent w' + length d)"
    using add_space_refines(2) [OF R n that] by (auto simp: CBB_add_bytes_def then_ok_def)
qed

lemma add_u_bytes:
  assumes R: "represents cbb w" and n: "n < 2 ^ 64"
  shows "unat v < 256 ^ n \<Longrightarrow> cbb_add_u cbb r v n = CBB_add_bytes cbb r (be_bytes n (unat v))"
    and "\<not> unat v < 256 ^ n \<Longrightarrow> \<not> fst (cbb_add_u cbb r v n)"
proof -
  obtain ok c where c: "CBB_add_space cbb r n = (ok, c)" by (cases "CBB_add_space cbb r n")
  have p: "put_be (b_buf (base c)) (b_len (base c) - n) n (unat v) =
      (patch (b_buf (base c)) (b_len (base c) - n) (be_bytes n (unat v)), unat v div 256 ^ n)" if ok
    using add_space_refines(1) [OF R n, of r c] c that by (intro put_be_patch) auto
  show "unat v < 256 ^ n \<Longrightarrow> cbb_add_u cbb r v n = CBB_add_bytes cbb r (be_bytes n (unat v))"
    using c p by (cases ok) (simp_all add: cbb_add_u_def CBB_add_bytes_def write_added_def)
  show "\<not> unat v < 256 ^ n \<Longrightarrow> \<not> fst (cbb_add_u cbb r v n)"
    using c p by (cases ok) (simp_all add: cbb_add_u_def cbb_on_error_def div_eq_0_iff Let_def)
qed

lemma add_u8_bytes: "represents cbb w \<Longrightarrow> CBB_add_u8 cbb r b = CBB_add_bytes cbb r [b]"
  using add_u_bytes(1) [of cbb w 1 "to_u64 b"] by (simp add: CBB_add_u8_def)

section \<open>One byte at a time\<close>

definition writing :: "cbb_ref \<Rightarrow> writer \<Rightarrow> cbb \<Rightarrow> cbb \<Rightarrow> u8 list \<Rightarrow> bool" where
  "writing r w c s xs \<longleftrightarrow>
    writer_level w r = Some (length (snd w)) \<and> represents s (append_inner xs w) \<and> extends c s"

lemma length_append_inner [simp]: "length (snd (append_inner d w)) = length (snd w)"
  using frames_append_inner [of d w] by (metis length_map)

lemma close_at_append:
  "writer_level w r = Some (length (snd w)) \<Longrightarrow> close_at r (append_inner xs w) = Some (append_inner xs w)"
  by (rule close_at_inner) simp

interpretation sink: byte_sink "\<lambda>s b. CBB_add_u8 s r b" "writing r w c" "\<lambda>s n. has_room s (b_len (base s) + n)"
  for r w c
proof
  fix s xs b s' n
  assume h: "writing r w c s xs"
  then have R: "represents s (append_inner xs w)" and l: "writer_level w r = Some (length (snd w))"
    by (simp_all add: writing_def)
  note u = add_u8_bytes [OF R, of r b] and cl = close_at_append [OF l, of xs]
  {
    assume "CBB_add_u8 s r b = (True, s')"
    then have "represents s' (append_inner [b] (append_inner xs w))" "extends s s'"
      using add_bytes_refines(1) [OF R, of "[b]" r s'] cl by (auto simp: u)
    then have w': "writing r w c s' (xs @ [b])" "extends s s'"
      using h by (auto simp: writing_def append_inner_append intro: extends_trans)
    then show "writing r w c s' (xs @ [b])" by blast
    assume "has_room s (b_len (base s) + Suc n)"
    moreover have "b_len (base s') = Suc (b_len (base s))"
      using represents_len [OF R] represents_len [of s' "append_inner (xs @ [b]) w"] w'(1) by (simp add: writing_def)
    ultimately show "has_room s' (b_len (base s') + n)" using has_room_extends [OF w'(2)] by simp
  }
  show "fst (CBB_add_u8 s r b)" if "has_room s (b_len (base s) + Suc n)"
  proof -
    have "has_room s (extent (append_inner xs w) + length [b])"
      by (rule has_room_mono [OF that]) (simp add: represents_len [OF R])
    then show ?thesis using add_bytes_refines(2) [OF R _ cl, of "[b]"] by (simp add: u)
  qed
qed

text \<open>A loop over bytes, as a refinement.\<close>

lemma emit_refines:
  assumes R: "represents s w" and l: "writer_level w r = Some (length (snd w))"
  shows "emit_bytes (\<lambda>s b. CBB_add_u8 s r b) s bs = (True, s') \<Longrightarrow> represents s' (append_inner bs w) \<and> extends s s'"
    and "has_room s (extent w + length bs) \<Longrightarrow> fst (emit_bytes (\<lambda>s b. CBB_add_u8 s r b) s bs)"
proof -
  have h: "writing r w s s []" using R l by (simp add: writing_def)
  show "emit_bytes (\<lambda>s b. CBB_add_u8 s r b) s bs = (True, s') \<Longrightarrow> represents s' (append_inner bs w) \<and> extends s s'"
    using sink.emit_bytes_holds [OF h] by (simp add: writing_def)
  show "has_room s (extent w + length bs) \<Longrightarrow> fst (emit_bytes (\<lambda>s b. CBB_add_u8 s r b) s bs)"
    using sink.emit_bytes_room [OF h, of bs 0] represents_len [OF R] by auto
qed

section \<open>Base 128\<close>

lemma rev_upt_Suc: "rev [0..<Suc k] = map Suc (rev [0..<k]) @ [0]"
proof -
  have "[0..<Suc k] = 0 # map Suc [0..<k]" by (simp add: upt_conv_Cons map_Suc_upt del: upt_Suc)
  then show ?thesis by (simp add: rev_map del: upt_Suc)
qed

lemma b128_more_digits:
  "0 < n \<Longrightarrow> b128_more n = map (\<lambda>i. byte_of (128 + n div 128 ^ i mod 128)) (rev [0..<base128_count n])"
proof (induction n rule: b128_more.induct)
  case (1 n)
  show ?case
  proof (cases "n < 128")
    case True
    then have "base128_count n = 1" using 1(2)
      by (subst base128_count.simps) (subst base128_count.simps, simp)
    then show ?thesis using True by (subst b128_more.simps) simp
  next
    case False
    have c: "base128_count n = Suc (base128_count (n div 128))"
      using 1(2) by (subst base128_count.simps) simp
    have "0 < n div 128" using False by (simp add: div_greater_zero_iff)
    then show ?thesis using 1(1) [OF False]
      by (subst b128_more.simps) (simp only: c rev_upt_Suc False if_False map_append map_map o_def list.map power_0 div_by_1 power_Suc div_mult2_eq)
  qed
qed

lemma b128_digits:
  "b128 n = map (\<lambda>i. byte_of ((if i \<noteq> 0 then 128 else 0) + n div 128 ^ i mod 128))
     (rev [0..<(if base128_count n = 0 then 1 else base128_count n)])"
proof (cases "n < 128")
  case True
  then have "(if base128_count n = 0 then 1 else base128_count n) = 1"
    by (subst (1 2) base128_count.simps) (subst base128_count.simps, simp)
  then show ?thesis using True by (simp add: b128_def)
next
  case False
  have c: "base128_count n = Suc (base128_count (n div 128))"
    using False by (subst base128_count.simps) simp
  have "0 < n div 128" using False by (simp add: div_greater_zero_iff)
  then show ?thesis using False
    by (simp add: b128_def b128_more_digits c rev_upt_Suc o_def div_mult2_eq del: upt_Suc)
qed

lemma base128_digit:
  "to_u8 (drop_bit (7 * i) (v :: u64) AND 0x7f) = byte_of (unat v div 128 ^ i mod 128)"
  "to_u8 (drop_bit (7 * i) (v :: u64) AND 0x7f) OR 0x80 = byte_of (128 + unat v div 128 ^ i mod 128)"
proof -
  let ?b = "to_u8 (drop_bit (7 * i) v AND 0x7f)"
  have "unat (drop_bit (7 * i) v AND 0x7f) = unat v div 128 ^ i mod 128"
  proof -
    have "take_bit 64 (unat v) = unat v" using unat_lt_u64 [of v] by (simp add: take_bit_nat_eq_self_iff)
    then show ?thesis by (simp only: low7_unat unsigned_drop_bit_eq) (simp add: drop_bit_eq_div power_mult)
  qed
  then have u: "unat ?b = unat v div 128 ^ i mod 128"
    by (simp only: unsigned_ucast_eq) (simp add: take_bit_nat_eq_self_iff)
  then show "?b = byte_of (unat v div 128 ^ i mod 128)" by (rule byte_of_eqI)
  have "unat (?b OR push_bit 7 1) = unat ?b + unat (1 :: u8) * 2 ^ 7"
    by (rule or_push_bit_unat) (simp_all add: u)
  then show "?b OR 0x80 = byte_of (128 + unat v div 128 ^ i mod 128)"
    by (intro byte_of_eqI) (simp add: u)
qed

lemma add_base128_emit:
  "add_base128_loop cbb r v n = emit_bytes (\<lambda>s b. CBB_add_u8 s r b) cbb
     (map (\<lambda>i. byte_of ((if i \<noteq> 0 then 128 else 0) + unat v div 128 ^ i mod 128)) (rev [0..<n]))"
proof (induction n arbitrary: cbb)
  case (Suc n)
  have "(let b = to_u8 (drop_bit (7 * n) v AND 0x7f) in if n \<noteq> 0 then b OR 0x80 else b)
      = byte_of ((if n \<noteq> 0 then 128 else 0) + unat v div 128 ^ n mod 128)"
  proof (cases "n \<noteq> 0")
    case True
    show ?thesis unfolding Let_def if_P [OF True] by (rule base128_digit(2))
  next
    case False
    show ?thesis unfolding Let_def if_not_P [OF False] add_0 by (rule base128_digit(1))
  qed
  then show ?case
    by (simp only: add_base128_loop.simps Let_def Suc upt_Suc zero_le rev_append rev.simps append_Nil append_Cons
        if_True list.map emit_bytes.simps)
qed simp

lemma add_base128_b128:
  "add_base128_integer cbb r v = emit_bytes (\<lambda>s b. CBB_add_u8 s r b) cbb (b128 (unat v))"
  unfolding add_base128_integer_def add_base128_emit b128_digits Let_def ..

end
