(* ===== verification/DerInteger.thy ===== *)
theory DerInteger
  imports CbsFacts
begin

text \<open>
  INTEGER contents: \<open>int_be\<close> is the value of a big-endian two's complement byte string and
  \<open>shortest_int\<close> says that no shorter byte string has that value. The reader accepts exactly
  the shortest encodings.
\<close>

section \<open>Two's complement\<close>

definition top_signed :: "u8 \<Rightarrow> int" where
  "top_signed b = (if unat b < 128 then int (unat b) else int (unat b) - 256)"

fun int_be :: "u8 list \<Rightarrow> int" where
  "int_be [] = 0"
| "int_be (b # bs) = top_signed b * 256 ^ length bs + int (be_nat bs)"

definition shortest_int :: "u8 list \<Rightarrow> bool" where
  "shortest_int bs \<longleftrightarrow> bs \<noteq> [] \<and> (length bs = 1 \<or> int_be (tl bs) \<noteq> int_be bs)"

lemma uint_u8: "0 \<le> uint (b :: u8)" "uint (b :: u8) < 256" "unat b < 128 \<longleftrightarrow> uint b < 128"
proof -
  show b: "0 \<le> uint (b :: u8)" "uint (b :: u8) < 256" using uint_bounded [of b] by simp_all
  show "unat b < 128 \<longleftrightarrow> uint b < 128" using b(1) by (simp only: unat_eq_nat_uint nat_less_iff) simp
qed

lemma top_signed_uint: "top_signed b = (if uint b < 128 then uint b else uint b - 256)"
  by (simp add: top_signed_def uint_u8)

lemma top_signed_range: "-128 \<le> top_signed b" "top_signed b \<le> 127"
  using uint_u8(1,2) [of b] unfolding top_signed_uint by (simp_all only: split: if_split) linarith+

lemma top_signed_inj: "top_signed a = top_signed b \<Longrightarrow> a = b"
  using uint_u8(1,2) [of a] uint_u8(1,2) [of b] unfolding top_signed_uint word_uint_eq_iff
  by (cases "uint a < 128"; cases "uint b < 128"; simp)

lemma be_nat_int_bound: "int (be_nat bs) < 256 ^ length bs"
  using be_nat_bound [of bs] by (metis of_nat_less_iff of_nat_numeral of_nat_power)

lemma be_nat_top: "be_nat (b # bs) < 128 * 256 ^ length bs \<longleftrightarrow> unat b < 128"
proof
  assume "be_nat (b # bs) < 128 * 256 ^ length bs"
  then have "unat b * 256 ^ length bs < 128 * 256 ^ length bs" by (simp only: be_nat.simps)
  then show "unat b < 128" by (simp only: mult_less_cancel2)
next
  assume "unat b < 128"
  then have "(unat b + 1) * 256 ^ length bs \<le> 128 * 256 ^ length bs" by (intro mult_le_mono) simp_all
  moreover have "(unat b + 1) * 256 ^ length bs = unat b * 256 ^ length bs + 256 ^ length bs" by simp
  ultimately show "be_nat (b # bs) < 128 * 256 ^ length bs"
    using be_nat_bound [of bs] unfolding be_nat.simps by linarith
qed

lemma int_be_nat: 
  "int_be (b # bs) = int (be_nat (b # bs)) - (if unat b < 128 then 0 else 256 ^ Suc (length bs))"
  by (simp add: top_signed_def algebra_simps)

lemma int_be_neg: "int_be (b # bs) < 0 \<longleftrightarrow> \<not> unat b < 128"
proof -
  have "int (be_nat (b # bs)) < 256 ^ Suc (length bs)"
    using be_nat_int_bound [of "b # bs"] by (simp only: list.size add_Suc_right add_0_right)
  moreover have "0 \<le> int (be_nat (b # bs))" by simp
  ultimately show ?thesis unfolding int_be_nat by (simp only: split: if_split) linarith
qed

lemma int_be_range:
  "bs \<noteq> [] \<Longrightarrow> - (128 * 256 ^ (length bs - 1)) \<le> int_be bs \<and> int_be bs < 128 * 256 ^ (length bs - 1)"
proof (cases bs)
  case (Cons b xs)
  have p: "(0::int) < 256 ^ length xs" by simp
  have "-128 * 256 ^ length xs \<le> top_signed b * 256 ^ length xs"
    using top_signed_range [of b] p by (intro mult_right_mono) simp_all
  moreover have "(top_signed b + 1) * 256 ^ length xs \<le> 128 * 256 ^ length xs"
    using top_signed_range [of b] p by (intro mult_right_mono) simp_all
  moreover have "int (be_nat xs) < 256 ^ length xs" "0 \<le> int (be_nat xs)" using be_nat_int_bound by simp_all
  moreover have "(top_signed b + 1) * 256 ^ length xs = top_signed b * 256 ^ length xs + 256 ^ length xs"
    by (simp add: algebra_simps)
  ultimately have "- (128 * 256 ^ length xs) \<le> int_be bs \<and> int_be bs < 128 * 256 ^ length xs"
    unfolding Cons int_be.simps by linarith
  then show ?thesis by (simp only: Cons list.size add_Suc_right add_0_right diff_Suc_1)
qed simp

lemma redundant_byte:
  "int_be (b # c # bs) = int_be (c # bs) \<longleftrightarrow> (b = 0 \<and> unat c < 128) \<or> (b = 0xff \<and> \<not> unat c < 128)"
proof -
  define p :: int where "p = 256 ^ Suc (length bs)"
  have p: "p > 0" by (simp add: p_def)
  have "int_be (b # c # bs) = top_signed b * p + int (be_nat (c # bs))" by (simp add: p_def)
  moreover have "int_be (c # bs) = int (be_nat (c # bs)) - (if unat c < 128 then 0 else p)"
    unfolding int_be_nat p_def by simp
  ultimately have "int_be (b # c # bs) = int_be (c # bs) \<longleftrightarrow> top_signed b * p = (if unat c < 128 then 0 else -1) * p"
    by (simp only: split: if_split) linarith
  also have "\<dots> \<longleftrightarrow> top_signed b = (if unat c < 128 then 0 else -1)"
    using p by (simp only: mult_cancel_right less_imp_neq [symmetric] simp_thms)
  also have "\<dots> \<longleftrightarrow> top_signed b = (if unat c < 128 then top_signed 0 else top_signed 0xff)"
    by (simp add: top_signed_def)
  also have "\<dots> \<longleftrightarrow> (b = 0 \<and> unat c < 128) \<or> (b = 0xff \<and> \<not> unat c < 128)"
    by (auto dest: top_signed_inj)
  finally show ?thesis .
qed

lemma shortest_int_simps [simp]:
  "\<not> shortest_int []"
  "shortest_int [b]"
  "shortest_int (b # c # bs) \<longleftrightarrow> \<not> ((b = 0 \<and> unat c < 128) \<or> (b = 0xff \<and> \<not> unat c < 128))"
  using redundant_byte [of b c bs] by (auto simp: shortest_int_def simp del: int_be.simps)

lemma shortest_int_range:
  assumes "shortest_int (b # c # bs)"
  shows "int_be (b # c # bs) < - (128 * 256 ^ length bs) \<or> 128 * 256 ^ length bs \<le> int_be (b # c # bs)"
proof -
  define p :: int where "p = 256 ^ length bs"
  have p: "p > 0" by (simp add: p_def)
  define t where "t = int (be_nat (c # bs))"
  have p': "int (128 * 256 ^ length bs) = 128 * p" by (simp add: p_def)
  have t: "0 \<le> t" "t < 256 * p" "t < 128 * p \<longleftrightarrow> unat c < 128"
  proof -
    show "0 \<le> t" by (simp add: t_def)
    show "t < 256 * p" using be_nat_int_bound [of "c # bs"] by (simp only: t_def p_def list.size add_Suc_right add_0_right power_Suc)
    show "t < 128 * p \<longleftrightarrow> unat c < 128"
      unfolding be_nat_top [of c bs, symmetric] t_def p' [symmetric] by (rule of_nat_less_iff)
  qed
  have v: "int_be (b # c # bs) = top_signed b * (256 * p) + t" by (simp add: p_def t_def)
  consider "top_signed b \<ge> 1" | "top_signed b \<le> -2" | "top_signed b = 0" | "top_signed b = -1" by linarith
  then have "int_be (b # c # bs) < - (128 * p) \<or> 128 * p \<le> int_be (b # c # bs)"
  proof cases
    case 1
    then have "1 * (256 * p) \<le> top_signed b * (256 * p)" using p by (intro mult_right_mono) simp_all
    then show ?thesis using v t p by linarith
  next
    case 2
    then have "top_signed b * (256 * p) \<le> -2 * (256 * p)" using p by (intro mult_right_mono) simp_all
    then show ?thesis using v t p by linarith
  next
    case 3
    then have "b = 0" using top_signed_inj [of b 0] by (simp add: top_signed_def)
    then show ?thesis using assms t(3) v 3 by auto
  next
    case 4
    then have "b = 0xff" using top_signed_inj [of b "0xff"] by (simp add: top_signed_def)
    then show ?thesis using assms t v 4 by auto
  qed
  then show ?thesis by (simp add: p_def)
qed

text \<open>It is the shortest two's complement encoding, and the only one.\<close>

lemma shortest_int_least:
  assumes "shortest_int bs" "cs \<noteq> []" "int_be cs = int_be bs"
  shows "length bs \<le> length cs"
proof (cases "length bs \<le> 1")
  case True
  then show ?thesis using assms(2) by (cases cs) auto
next
  case False
  then obtain b c xs where bs: "bs = b # c # xs" by (cases bs rule: list.exhaust; cases "tl bs") auto
  show ?thesis
  proof (rule ccontr)
    assume "\<not> ?thesis"
    then have "length cs - 1 \<le> length xs" by (simp add: bs)
    then have "128 * (256::int) ^ (length cs - 1) \<le> 128 * 256 ^ length xs" by (simp add: power_increasing)
    then show False
      using int_be_range [OF assms(2)] shortest_int_range [of b c xs] assms(1,3) unfolding bs by linarith
  qed
qed

lemma int_be_inj:
  assumes "int_be bs = int_be cs" "length bs = length cs"
  shows "bs = cs"
proof (cases bs)
  case (Cons b xs)
  then obtain c ys where cs: "cs = c # ys" using assms(2) by (cases cs) auto
  have l: "length xs = length ys" using assms(2) by (simp add: Cons cs)
  define p :: int where "p = 256 ^ length ys"
  have e: "top_signed b * p + int (be_nat xs) = top_signed c * p + int (be_nat ys)"
    using assms(1) l by (simp add: Cons cs p_def)
  have r: "int (be_nat xs) < p" "int (be_nat ys) < p"
    using be_nat_int_bound [of xs] be_nat_int_bound [of ys] l by (simp_all add: p_def)
  then have "top_signed b = top_signed c"
    using arg_cong [OF e, of "\<lambda>x. x div p"] by simp
  moreover from this e have "be_nat xs = be_nat ys" by simp
  ultimately show ?thesis using top_signed_inj be_bytes_be_nat [of xs] be_bytes_be_nat [of ys] l
    by (metis Cons cs)
qed (use assms in simp)

lemma shortest_int_unique:
  assumes "shortest_int bs" "shortest_int cs" "int_be bs = int_be cs"
  shows "bs = cs"
proof -
  have "bs \<noteq> []" "cs \<noteq> []" using assms by auto
  then show ?thesis using assms shortest_int_least int_be_inj by (metis le_antisym)
qed

section \<open>The reader's INTEGERs\<close>

lemma valid_integer_shortest:
  "CBS_is_valid_asn1_integer bs = (if shortest_int bs then Some (int_be bs < 0) else None)"
proof (cases bs)
  case (Cons b xs)
  show ?thesis
  proof (cases xs)
    case (Cons c ys)
    then show ?thesis using int_be_neg [of b xs] \<open>bs = b # xs\<close>
      by (simp add: CBS_is_valid_asn1_integer_def u8_msb_clear_iff Let_def del: int_be.simps)
  qed (use Cons int_be_neg [of b xs] in
      \<open>simp add: CBS_is_valid_asn1_integer_def u8_msb_clear_iff Let_def del: int_be.simps\<close>)
qed (simp add: CBS_is_valid_asn1_integer_def)

lemma unsigned_integer_iff: "CBS_is_unsigned_asn1_integer bs \<longleftrightarrow> shortest_int bs \<and> 0 \<le> int_be bs"
  by (auto simp: CBS_is_unsigned_asn1_integer_def valid_integer_shortest)

lemma uint64_loop:
  "asn1_uint64_loop out bs =
    (if unat out * 256 ^ length bs + be_nat bs < 2 ^ 64
     then Some (word_of_nat (unat out * 256 ^ length bs + be_nat bs)) else None)"
proof (induction bs arbitrary: out)
  case Nil
  then show ?case using unat_lt_u64 [of out] by simp
next
  case (Cons b bs)
  show ?case
  proof (cases "unat out < 2 ^ 56")
    case True
    then have "unat (push_bit 8 out OR to_u64 b) = unat out * 256 + unat b" by (intro be_step) simp
    moreover have "drop_bit 56 out = 0" using True by (simp add: shifted_zero_iff)
    ultimately show ?thesis by (simp add: Cons algebra_simps del: of_nat_add of_nat_mult)
  next
    case False
    have "2 ^ 56 * 256 ^ 1 \<le> unat out * 256 ^ Suc (length bs)"
      using False by (intro mult_le_mono power_increasing) simp_all
    moreover have "drop_bit 56 out \<noteq> 0" using False by (simp add: shifted_zero_iff)
    ultimately show ?thesis by simp
  qed
qed

lemma int_be_nonneg: "0 \<le> int_be bs \<Longrightarrow> int_be bs = int (be_nat bs)"
proof (cases bs)
  case (Cons b xs)
  assume "0 \<le> int_be bs"
  then have "unat b < 128" using int_be_neg [of b xs] unfolding Cons by linarith
  then show ?thesis unfolding Cons int_be_nat by simp
qed simp

lemma get_uint64_iff:
  "CBS_get_asn1_uint64 cbs = (Some v, rest) \<longleftrightarrow>
    (\<exists>bs. length bs < 2 ^ 32 \<and> shortest_int bs \<and> int_be bs = int (unat v) \<and> cbs = der_element CBS_ASN1_INTEGER bs @ rest)"
proof -
  have t: "valid_tag 2" by (simp add: valid_tag_def)
  have loop: "asn1_uint64_loop 0 bs = Some v \<longleftrightarrow> int_be bs = int (unat v)" if "0 \<le> int_be bs" for bs
  proof -
    have e: "int_be bs = int (unat v) \<longleftrightarrow> be_nat bs = unat v"
      unfolding int_be_nonneg [OF that] by (rule of_nat_eq_iff)
    show ?thesis unfolding e uint64_loop using unat_lt_u64 [of v] by (auto simp: unat_of_nat)
  qed
  show ?thesis
    by (auto simp: CBS_get_asn1_uint64_def get_asn1_iff [THEN iffD2] get_asn1_iff unsigned_integer_iff loop t
        elim!: get_then_SomeE split: if_splits)
qed

lemma int_be_extend:
  assumes "bs \<noteq> []"
  shows "int_be (replicate k (if int_be bs < 0 then 0xff else 0) @ bs) = int_be bs"
proof (induction k)
  case (Suc k)
  let ?f = "if int_be bs < 0 then 0xff else 0 :: u8"
  obtain c xs where cx: "replicate k ?f @ bs = c # xs" using assms by (cases "replicate k ?f @ bs") auto
  have "int_be (c # xs) = int_be bs" using Suc unfolding cx .
  then have "unat c < 128 \<longleftrightarrow> \<not> int_be bs < 0" using int_be_neg [of c xs] by simp
  then have "int_be (?f # c # xs) = int_be (c # xs)" unfolding redundant_byte by simp
  then show ?case using Suc cx by (simp del: int_be.simps)
qed simp

lemma sint_u64: "sint (v :: u64) = (if unat v < 2 ^ 63 then int (unat v) else int (unat v) - 2 ^ 64)"
proof -
  have u: "0 \<le> uint v" "uint v < 2 ^ 64" using uint_bounded [of v] by simp_all
  have s: "sint v = (uint v + 2 ^ 63) mod 2 ^ 64 - 2 ^ 63"
    using signed_take_bit_eq_take_bit_shift [of 63 "uint v"]
    by (simp add: sint_uint take_bit_eq_mod)
  have c: "unat v < 2 ^ 63 \<longleftrightarrow> uint v < 2 ^ 63" using u(1) by (simp only: unat_eq_nat_uint nat_less_iff) simp
  show ?thesis
  proof (cases "uint v < 2 ^ 63")
    case True
    then have "(uint v + 2 ^ 63) mod 2 ^ 64 = uint v + 2 ^ 63" using u True by (intro mod_pos_pos_trivial) simp_all
    then show ?thesis using s c True by simp
  next
    case False
    then have "(uint v + 2 ^ 63 - 2 ^ 64) mod 2 ^ 64 = uint v + 2 ^ 63 - 2 ^ 64"
      using u by (intro mod_pos_pos_trivial) simp_all
    then have "(uint v + 2 ^ 63) mod 2 ^ 64 = uint v + 2 ^ 63 - 2 ^ 64"
      by (simp only: minus_mod_self2)
    then show ?thesis using s c False by simp
  qed
qed

lemma be_value_signed:
  assumes "length bs = 8"
  shows "sint (be_value bs) = int_be bs"
proof -
  obtain b xs where bs: "bs = b # xs" "length xs = 7" using assms by (cases bs) auto
  have u: "unat (be_value bs) = be_nat bs" using assms by (simp add: be_value_nat)
  have "be_nat bs < 2 ^ 63 \<longleftrightarrow> unat b < 128" using be_nat_top [of b xs] bs by simp
  then show ?thesis unfolding sint_u64 u using int_be_nat [of b xs] by (simp add: bs)
qed

lemma get_int64_iff:
  "CBS_get_asn1_int64 cbs = (Some v, rest) \<longleftrightarrow>
    (\<exists>bs. shortest_int bs \<and> int_be bs = sint v \<and> cbs = der_element CBS_ASN1_INTEGER bs @ rest)"
proof -
  have ext: "be_value (replicate (8 - length bs) (if int_be bs < 0 then 0xff else 0) @ bs) = w \<longleftrightarrow> int_be bs = sint w"
    if "shortest_int bs" "length bs \<le> 8" for bs w
  proof -
    have "bs \<noteq> []" using that by auto
    then show ?thesis
      using be_value_signed [of "replicate (8 - length bs) (if int_be bs < 0 then 0xff else 0) @ bs"] that(2)
        int_be_extend [of bs "8 - length bs"] by (metis (no_types, lifting) length_append length_replicate
          le_add_diff_inverse2 signed_word_eqI)
  qed
  have short: "length bs \<le> 8" if "shortest_int bs" "int_be bs = sint v" for bs
  proof -
    have "be_value (be_bytes 8 (unat v)) = v"
      using be_value_nat [of "be_bytes 8 (unat v)"] unat_lt_u64 [of v]
      by (simp add: be_nat_be_bytes word_unat_eq_iff)
    then have "int_be (be_bytes 8 (unat v)) = int_be bs"
      using be_value_signed [of "be_bytes 8 (unat v)"] that(2) by simp
    moreover have "be_bytes 8 (unat v) \<noteq> []" by (metis length_0_conv length_be_bytes zero_neq_numeral)
    ultimately show ?thesis using shortest_int_least [OF that(1)] by (metis length_be_bytes)
  qed
  have t: "valid_tag 2" by (simp add: valid_tag_def)
  show ?thesis
  proof
    assume "CBS_get_asn1_int64 cbs = (Some v, rest)"
    then obtain bs where bs: "cbs = der_element 2 bs @ rest" "shortest_int bs" "length bs \<le> 8"
        "be_value (replicate (8 - length bs) (if int_be bs < 0 then 0xff else 0) @ bs) = v"
      by (auto simp: CBS_get_asn1_int64_def get_asn1_iff valid_integer_shortest
          elim!: get_then_SomeE split: if_splits)
    then show "\<exists>bs. shortest_int bs \<and> int_be bs = sint v \<and> cbs = der_element 2 bs @ rest"
      using ext [OF bs(2,3), of v] by blast
  next
    assume "\<exists>bs. shortest_int bs \<and> int_be bs = sint v \<and> cbs = der_element 2 bs @ rest"
    then obtain bs where bs: "shortest_int bs" "int_be bs = sint v" "cbs = der_element 2 bs @ rest" by blast
    have l: "length bs \<le> 8" by (rule short [OF bs(1,2)])
    then have g: "CBS_get_asn1 2 cbs = (Some bs, rest)" using bs t by (simp add: get_asn1_iff)
    show "CBS_get_asn1_int64 cbs = (Some v, rest)"
      using l bs ext [OF bs(1) l, of v] unfolding CBS_get_asn1_int64_def g by (simp add: valid_integer_shortest Let_def)
  qed
qed

text \<open>The encoding of a number.\<close>

definition int_bytes :: "int \<Rightarrow> u8 list" where
  "int_bytes z =
    (let n = LEAST n. - (128 * 256 ^ n) \<le> z \<and> z < 128 * 256 ^ n
     in be_bytes (Suc n) (nat (z mod 256 ^ Suc n)))"

end
