(* ===== verification/CbbChildren.thy ===== *)
theory CbbChildren
  imports CbbFacts DerInteger
begin

text \<open>
  Children of a \<open>CBB\<close> refine the frames of the abstract writer: length-prefixed blocks and
  ASN.1 elements are opened and filled, and what a flush makes of them is \<open>der_element\<close>. Each
  typed writer (unsigned and signed INTEGER, OCTET STRING, BOOLEAN) appends the DER of its value.
\<close>

section \<open>Children\<close>

lemma append_open [simp]: "append_inner d (xs, fs @ [(p, k, zs)]) = (xs, fs @ [(p, k, zs @ d)])"
  by (induction fs arbitrary: xs) auto

lemma close_open:
  "close_to (length fs) (xs, fs @ [(p, k, zs)]) = map_option (\<lambda>s. append_inner s (xs, fs)) (seal k zs)"
proof (induction fs arbitrary: xs)
  case Nil
  then show ?case by (cases "seal k zs") simp_all
next
  case (Cons f fs)
  obtain q kd ys where "f = (q, kd, ys)" by (cases f)
  then show ?case using Cons by (cases "seal k zs") (auto split: prod.splits)
qed

lemma position_append: "p \<notin> fst ` set xs \<Longrightarrow> position p (xs @ [(p, y)]) = Some (length xs)"
  by (induction p xs rule: position.induct) auto

lemma position_keep: "position q xs = Some k \<Longrightarrow> position q (xs @ ys) = Some k"
  by (induction q xs arbitrary: k rule: position.induct) (auto split: if_splits)

lemma level_open:
  "writer_level w r = Some k \<Longrightarrow> writer_level (fst w, snd w @ fs) r = Some k"
  by (auto simp: writer_level_def position_keep split: cbb_ref.splits)

lemma level_child:
  "p \<notin> fst ` set (snd w) \<Longrightarrow> writer_level (fst w, snd w @ [(p, k, zs)]) (Child p) = Some (Suc (length (snd w)))"
  by (simp add: writer_level_def position_append)

lemma close_at_open:
  assumes "writer_level w r = Some (length (snd w))" "seal k zs = Some s"
  shows "close_at r (fst w, snd w @ [(p, k, zs)]) = Some (append_inner s w)"
  using level_open [OF assms(1), of "[(p, k, zs)]"] close_open [of "snd w" "fst w" p k zs] assms(2)
  by (simp add: close_at_def)

lemma close_at_open_None:
  assumes "writer_level w r = Some (length (snd w))" "seal k zs = None"
  shows "close_at r (fst w, snd w @ [(p, k, zs)]) = None"
  using level_open [OF assms(1), of "[(p, k, zs)]"] close_open [of "snd w" "fst w" p k zs] assms(2)
  by (simp add: close_at_def)

definition frame_of :: "nat \<Rightarrow> bool \<Rightarrow> frame_kind" where
  "frame_of n asn1 = (if asn1 then Asn1 else Prefixed n)"

lemma add_child_refines:
  assumes R: "represents cbb w" and n: "n \<le> 8" "asn1 \<longrightarrow> n = 1"
  shows "cbb_add_child cbb r p n asn1 = (True, cbb') \<Longrightarrow>
      represents cbb' (fst w, snd w @ [(p, frame_of n asn1, [])]) \<and> extends cbb cbb'"
    and "has_room cbb (extent w + n) \<Longrightarrow> fst (cbb_add_child cbb r p n asn1)"
proof -
  note I = R [unfolded represents_def]
  define c where "c = \<lparr>c_offset = b_len (base cbb), c_pending_len_len = n, c_is_asn1 = asn1\<rparr>"
  have c: "child_ok c" "kind_of c = frame_of n asn1" "c_pending_len_len c = n"
    using n by (simp_all add: c_def child_ok_def kind_of_def frame_of_def)
  show "represents cbb' (fst w, snd w @ [(p, frame_of n asn1, [])]) \<and> extends cbb cbb'"
    if ok: "cbb_add_child cbb r p n asn1 = (True, cbb')"
  proof -
    obtain b where b: "cbb_buffer_add (heap cbb) (base cbb) n = (True, b)"
      using ok by (cases "cbb_buffer_add (heap cbb) (base cbb) n") (auto simp: cbb_add_child_def with_buffer_def then_ok_def split: if_splits)
    have n64: "length (replicate n (0 :: u8)) < 2 ^ 64" using n(1) by simp
    have b0: "cbb_buffer_add (heap cbb) (base cbb) (length (replicate n (0 :: u8))) = (True, b)" using b by simp
    define b' where "b' = b\<lparr>b_buf := patch (b_buf b) (b_len b - n) (replicate n 0)\<rparr>"
    have cb: "cbb' = cbb\<lparr>base := b', chain := chain cbb @ [(p, c)]\<rparr>"
      using ok b by (simp add: cbb_add_child_def with_buffer_def Let_def write_added_def b'_def c_def)
    note ra = represents_append [OF R n64 b0]
    have bo: "b_len b - n = b_len (base cbb)" using add_ok(2) [OF conjunct1 [OF I] _ _ b] I n64 by simp
    have cont: "content b' = content (base cbb) @ replicate n 0"
      using add_patch_content [OF conjunct1 [OF I] _ n64 b0] I by (simp add: b'_def bo)
    have "layout 0 (fst w) (snd w @ [(p, kind_of c, [])]) (chain cbb @ [(p, c)]) (content b')"
      unfolding cont by (rule layout_open) (use I c in \<open>simp_all add: c_def\<close>)
    then show ?thesis using ra by (simp add: represents_def cb c(2) b'_def extends_def)
  qed
  show "fst (cbb_add_child cbb r p n asn1)" if "has_room cbb (extent w + n)"
    using add_fits [of "base cbb" "heap cbb" n] that I represents_len [OF R]
    by (simp add: cbb_add_child_def with_buffer_def Let_def has_room_def then_ok_def)
qed

lemma add_length_prefixed_refines:
  assumes R: "represents cbb w" and n: "n \<le> 8"
  shows "cbb_add_length_prefixed cbb r p n = (True, cbb') \<Longrightarrow>
      \<exists>w'. close_at r w = Some w' \<and> represents cbb' (fst w', snd w' @ [(p, Prefixed n, [])]) \<and> extends cbb cbb'"
    and "close_at r w = Some w' \<Longrightarrow> has_room cbb (extent w' + n) \<Longrightarrow> fst (cbb_add_length_prefixed cbb r p n)"
proof -
  show "\<exists>w'. close_at r w = Some w' \<and> represents cbb' (fst w', snd w' @ [(p, Prefixed n, [])]) \<and> extends cbb cbb'"
    if ok: "cbb_add_length_prefixed cbb r p n = (True, cbb')"
  proof -
    obtain c where c: "CBB_flush cbb r = (True, c)" "cbb_add_child c r p n False = (True, cbb')"
      using ok unfolding cbb_add_length_prefixed_def by (rule then_ok_TrueE)
    obtain w' where w: "close_at r w = Some w'" "represents c w'" "extends cbb c"
      using flush_refines(1) [OF R c(1)] by blast
    then show ?thesis using add_child_refines(1) [OF w(2) n _ c(2)] extends_trans by (auto simp: frame_of_def)
  qed
  show "fst (cbb_add_length_prefixed cbb r p n)" if w': "close_at r w = Some w'" "has_room cbb (extent w' + n)"
  proof -
    have "fst (CBB_flush cbb r)" by (rule flush_refines(2) [OF R w'(1)]) (use w'(2) has_room_mono in auto)
    then obtain c where c: "CBB_flush cbb r = (True, c)" by (cases "CBB_flush cbb r") auto
    then have cw: "represents c w'" "extends cbb c" using flush_refines(1) [OF R c] w'(1) by auto
    then show ?thesis using add_child_refines(2) [OF cw(1) n, of False r p] w'(2) c has_room_extends [OF cw(2)]
      by (simp add: cbb_add_length_prefixed_def)
  qed
qed

section \<open>ASN.1 elements\<close>

lemma tag_byte:
  assumes "c < 8" "n < 2 ^ 29"
  shows "to_u8 (drop_bit 24 (mk_tag c n) AND 0xe0) = byte_of (32 * c)"
    and "mk_tag c n AND CBS_ASN1_TAG_NUMBER_MASK = word_of_nat n"
proof -
  have e0: "(0xe0 :: u32) = push_bit 5 (mask 3)" by (simp add: mask_eq_exp_minus_1 push_bit_eq_mult)
  have m29: "(CBS_ASN1_TAG_NUMBER_MASK :: u32) = push_bit 0 (mask 29)" by (simp add: mask_eq_exp_minus_1)
  have u: "unat (mk_tag c n) = c * 2 ^ 29 + n" by (rule unat_mk_tag [OF assms])
  have "unat (drop_bit 24 (mk_tag c n)) = (c * 2 ^ 29 + n) div 2 ^ 24"
    by (simp only: unsigned_drop_bit_eq u) (use assms in \<open>simp add: drop_bit_eq_div take_bit_eq_mod\<close>)
  moreover have "(c * 2 ^ 29 + n) div 2 ^ 24 div 2 ^ 5 = c" using assms(2) by (simp add: div_mult2_eq [symmetric])
  ultimately have "unat (drop_bit 24 (mk_tag c n) AND 0xe0) = 32 * c"
    unfolding e0 using unat_and_field [of 5 3 "drop_bit 24 (mk_tag c n)"] assms(1) by simp
  then show "to_u8 (drop_bit 24 (mk_tag c n) AND 0xe0) = byte_of (32 * c)"
    by (intro byte_of_eqI) (simp only: unsigned_ucast_eq, use assms(1) in \<open>simp add: take_bit_nat_eq_self_iff\<close>)
  have "unat (mk_tag c n AND CBS_ASN1_TAG_NUMBER_MASK) = n"
    unfolding m29 using unat_and_field [of 0 29 "mk_tag c n"] u assms(2) by simp
  then show "mk_tag c n AND CBS_ASN1_TAG_NUMBER_MASK = word_of_nat n" by (rule word_of_unatI)
qed

lemma or_low5:
  assumes "c < 8" "m < 32"
  shows "byte_of (32 * c) OR byte_of m = byte_of (32 * c + m)"
proof -
  have p: "byte_of (32 * c) = push_bit 5 (byte_of c)"
    using assms(1) by (intro byte_of_eqI [symmetric])
      (simp only: unsigned_push_bit_eq, simp add: push_bit_eq_mult take_bit_eq_mod)
  have "unat (byte_of m OR push_bit 5 (byte_of c)) = unat (byte_of m) + unat (byte_of c) * 2 ^ 5"
    by (rule or_push_bit_unat) (use assms in simp_all)
  then show ?thesis unfolding p using assms by (intro byte_of_eqI) (simp add: or.commute mult.commute)
qed

lemma tag_bytes:
  "(let tag_bits = to_u8 (drop_bit 24 tag AND 0xe0); tag_number = tag AND CBS_ASN1_TAG_NUMBER_MASK in
    if tag_number \<ge> 0x1f then
      then_ok (CBB_add_u8 cbb r (tag_bits OR 0x1f)) (\<lambda>cbb. add_base128_integer cbb r (to_u64 tag_number))
    else CBB_add_u8 cbb r (tag_bits OR to_u8 tag_number)) =
  emit_bytes (\<lambda>s b. CBB_add_u8 s r b) cbb (der_tag tag)"
proof -
  obtain c n where t: "c < 8" "n < 2 ^ 29" "tag = mk_tag c n" by (rule tag_parts)
  have u: "unat (word_of_nat n :: u32) = n" using t(2) by (simp add: unat_of_nat)
  have le: "(0x1f :: u32) \<le> word_of_nat n \<longleftrightarrow> 31 \<le> n" by (simp add: word_le_nat_alt u)
  have x1f: "(0x1f :: u8) = byte_of 31" by (simp add: byte_of_def)
  have low: "to_u8 (word_of_nat n :: u32) = byte_of n" if "n < 31"
    using that by (intro byte_of_eqI) (simp only: unsigned_ucast_eq u, simp add: take_bit_nat_eq_self_iff)
  have one: "then_ok x (\<lambda>s. (True, s)) = x" for x :: "bool \<times> cbb" by (cases x; cases "fst x") auto
  have u64: "unat (to_u64 (word_of_nat n :: u32)) = n" by (simp add: u del: word_of_nat_eq_0_iff)
  show ?thesis
  proof (cases "31 \<le> n")
    case True
    show ?thesis
      unfolding t(3) Let_def tag_byte [OF t(1,2)] x1f or_low5 [OF t(1), of 31, simplified] der_tag_mk [OF t(1,2)]
        le add_base128_b128 u64 le [unfolded x1f]
      using True by (simp add: le)
  next
    case False
    then have "or": "byte_of (32 * c) OR byte_of n = byte_of (32 * c + n)" using or_low5 t(1) by simp
    show ?thesis
      using False low or unfolding t(3) Let_def tag_byte [OF t(1,2)] der_tag_mk [OF t(1,2)] le
      by (simp add: one)
  qed
qed

lemma add_asn1_unfold:
  "CBB_add_asn1 cbb r p tag =
    then_ok (CBB_flush cbb r) (\<lambda>cbb.
      then_ok (emit_bytes (\<lambda>s b. CBB_add_u8 s r b) cbb (der_tag tag)) (\<lambda>cbb. cbb_add_child cbb r p 1 True))"
  unfolding CBB_add_asn1_def Let_def tag_bytes [unfolded Let_def] ..

lemma extent_snoc: "extent (fst w, snd w @ [(p, k, zs)]) = extent w + kind_room k + length zs"
  by (cases w) simp

lemma add_asn1_refines:
  assumes R: "represents cbb w"
  shows "CBB_add_asn1 cbb r p tag = (True, cbb') \<Longrightarrow>
      \<exists>w'. close_at r w = Some w' \<and> extends cbb cbb' \<and>
        represents cbb' (fst (append_inner (der_tag tag) w'), snd (append_inner (der_tag tag) w') @ [(p, Asn1, [])])"
    and "close_at r w = Some w' \<Longrightarrow> has_room cbb (extent w' + length (der_tag tag) + 1) \<Longrightarrow>
      fst (CBB_add_asn1 cbb r p tag)"
proof -
  show "\<exists>w'. close_at r w = Some w' \<and> extends cbb cbb' \<and>
        represents cbb' (fst (append_inner (der_tag tag) w'), snd (append_inner (der_tag tag) w') @ [(p, Asn1, [])])"
    if ok: "CBB_add_asn1 cbb r p tag = (True, cbb')"
  proof -
    obtain c d where c: "CBB_flush cbb r = (True, c)"
      "emit_bytes (\<lambda>s b. CBB_add_u8 s r b) c (der_tag tag) = (True, d)" "cbb_add_child d r p 1 True = (True, cbb')"
      using ok unfolding add_asn1_unfold by (auto elim!: then_ok_TrueE)
    obtain w' where w: "close_at r w = Some w'" "represents c w'" "extends cbb c"
      using flush_refines(1) [OF R c(1)] by blast
    note e = emit_refines(1) [OF w(2) close_at_level [OF w(1)] c(2)]
    have "represents cbb' (fst (append_inner (der_tag tag) w'), snd (append_inner (der_tag tag) w') @ [(p, Asn1, [])])"
      "extends d cbb'"
      using add_child_refines(1) [OF conjunct1 [OF e] _ _ c(3)] by (simp_all add: frame_of_def)
    then show ?thesis using w extends_trans [OF w(3) extends_trans [OF conjunct2 [OF e]]] by blast
  qed
  show "fst (CBB_add_asn1 cbb r p tag)"
    if w': "close_at r w = Some w'" "has_room cbb (extent w' + length (der_tag tag) + 1)"
  proof -
    have "fst (CBB_flush cbb r)" by (rule flush_refines(2) [OF R w'(1)]) (use w'(2) has_room_mono in auto)
    then obtain c where c: "CBB_flush cbb r = (True, c)" by (cases "CBB_flush cbb r") auto
    then have cw: "represents c w'" "extends cbb c" using flush_refines(1) [OF R c] w'(1) by auto
    have "has_room c (extent w' + length (der_tag tag))"
      using w'(2) has_room_extends [OF cw(2)] has_room_mono by (metis le_add1)
    from emit_refines(2) [OF cw(1) close_at_level [OF w'(1)] this]
    obtain d where d: "emit_bytes (\<lambda>s b. CBB_add_u8 s r b) c (der_tag tag) = (True, d)"
      by (cases "emit_bytes (\<lambda>s b. CBB_add_u8 s r b) c (der_tag tag)") auto
    note e = emit_refines(1) [OF cw(1) close_at_level [OF w'(1)] d]
    have "has_room d (extent (append_inner (der_tag tag) w') + 1)"
      using w'(2) has_room_extends [OF cw(2)] has_room_extends [OF conjunct2 [OF e]] by simp
    then show ?thesis using add_child_refines(2) [OF conjunct1 [OF e], of 1 True r p] by (simp add: add_asn1_unfold c d)
  qed
qed

lemma fresh_ptr_fresh: "fresh_ptr cbb \<notin> fst ` set (chain cbb)"
proof -
  have "x \<le> foldr max xs 0" if "x \<in> set xs" for x :: nat and xs
    using that by (induction xs) auto
  then have "\<forall>x \<in> fst ` set (chain cbb). x < fresh_ptr cbb"
    unfolding fresh_ptr_def by (metis image_set less_Suc_eq_le)
  then show ?thesis by auto
qed

lemma or_on_error_True [simp]: "or_on_error r res = (True, s) \<longleftrightarrow> res = (True, s)"
  "fst (or_on_error r res) \<longleftrightarrow> fst res"
  by (cases res; cases "fst res"; simp add: or_on_error_def cbb_on_error_def)+

text \<open>What a body has to do to fill the element: append \<open>bs\<close> to the \<open>CBB\<close> it is
  given.\<close>

definition appends :: "(cbb \<Rightarrow> bool \<times> cbb) \<Rightarrow> cbb_ref \<Rightarrow> u8 list \<Rightarrow> bool" where
  "appends body r bs \<longleftrightarrow> (\<forall>s w. represents s w \<longrightarrow> writer_level w r = Some (length (snd w)) \<longrightarrow>
     (\<forall>s'. body s = (True, s') \<longrightarrow> represents s' (append_inner bs w) \<and> extends s s') \<and>
     (has_room s (extent w + length bs) \<longrightarrow> fst (body s)))"

text \<open>An element with a local child: open, fill, flush.\<close>

definition add_element :: "cbb \<Rightarrow> cbb_ref \<Rightarrow> nat \<Rightarrow> u32 \<Rightarrow> (cbb \<Rightarrow> bool \<times> cbb) \<Rightarrow> bool \<times> cbb" where
  "add_element cbb r p tag body =
    then_ok (CBB_add_asn1 cbb r p tag) (\<lambda>cbb. then_ok (body cbb) (\<lambda>cbb. CBB_flush cbb r))"

lemma add_element_refines:
  assumes R: "represents cbb w" and p: "p \<notin> fst ` set (chain cbb)"
    and body: "appends body (Child p) bs"
  shows "add_element cbb r p tag body = (True, cbb') \<Longrightarrow>
      \<exists>w'. close_at r w = Some w' \<and> length bs \<le> 0xfffffffe \<and>
        represents cbb' (append_inner (der_element tag bs) w') \<and> extends cbb cbb'"
    and "close_at r w = Some w' \<Longrightarrow> length bs \<le> 0xfffffffe \<Longrightarrow>
      has_room cbb (extent w' + length (der_element tag bs)) \<Longrightarrow> fst (add_element cbb r p tag body)"
proof -
  have frames: "p \<notin> fst ` set (snd w')" if "close_at r w = Some w'" for w'
  proof -
    obtain k where k: "close_to k w = Some w'" using \<open>close_at r w = Some w'\<close> by (auto simp: close_at_def bind_eq_Some_conv)
    have "map fst (snd w) = map fst (chain cbb)"
      using R layout_fst [of 0 "fst w" "snd w" "chain cbb"] by (auto simp: represents_def)
    then have "map fst (snd w') = take k (map fst (chain cbb))" using close_to_frames [OF k] by simp
    then show ?thesis using p by (metis image_set in_set_takeD)
  qed
  let ?o = "\<lambda>w' zs. (fst (append_inner (der_tag tag) w'), snd (append_inner (der_tag tag) w') @ [(p, Asn1, zs)])"
  have lev: "writer_level (?o w' zs) (Child p) = Some (length (snd (?o w' zs)))" if "close_at r w = Some w'" for w' zs
  proof -
    have "fst ` set (snd (append_inner (der_tag tag) w')) = fst ` set (snd w')"
      using frames_append_inner [of "der_tag tag" w'] by (metis image_set)
    then have "p \<notin> fst ` set (snd (append_inner (der_tag tag) w'))" using frames [OF that] by simp
    from level_child [OF this] show ?thesis by simp
  qed
  have levr: "writer_level (append_inner (der_tag tag) w') r = Some (length (snd (append_inner (der_tag tag) w')))"
    if "close_at r w = Some w'" for w'
    using close_at_level [OF that] by simp
  have el: "append_inner (der_length (length bs) @ bs) (append_inner (der_tag tag) w') = append_inner (der_element tag bs) w'" for w'
    by (simp add: der_element_def append_inner_append)
  show "\<exists>w'. close_at r w = Some w' \<and> length bs \<le> 0xfffffffe \<and>
        represents cbb' (append_inner (der_element tag bs) w') \<and> extends cbb cbb'"
    if ok: "add_element cbb r p tag body = (True, cbb')"
  proof -
    obtain c d where c: "CBB_add_asn1 cbb r p tag = (True, c)" "body c = (True, d)" "CBB_flush d r = (True, cbb')"
      using ok unfolding add_element_def by (auto elim!: then_ok_TrueE)
    obtain w' where w: "close_at r w = Some w'" "extends cbb c" "represents c (?o w' [])"
      using add_asn1_refines(1) [OF R c(1)] by blast
    have d: "represents d (?o w' bs)" "extends c d"
      using body [unfolded appends_def, rule_format, OF w(3) lev [OF w(1)]] c(2) by auto
    obtain w'' where w'': "close_at r (?o w' bs) = Some w''" "represents cbb' w''" "extends d cbb'"
      using flush_refines(1) [OF d(1) c(3)] by blast
    have l: "length bs \<le> 0xfffffffe"
      using w''(1) close_at_open_None [OF levr [OF w(1)], of Asn1 bs p] by (cases "length bs \<le> 0xfffffffe") auto
    then have s: "seal Asn1 bs = Some (der_length (length bs) @ bs)" by simp
    have "w'' = append_inner (der_element tag bs) w'"
      using w''(1) close_at_open [OF levr [OF w(1)] s, of p] by (simp add: el)
    then show ?thesis using w(1,2) l w'' d(2) extends_trans by blast
  qed
  show "fst (add_element cbb r p tag body)" if w: "close_at r w = Some w'" and l: "length bs \<le> 0xfffffffe"
    and room: "has_room cbb (extent w' + length (der_element tag bs))"
  proof -
    have "1 \<le> length (der_length (length bs))" by (simp add: length_der_length)
    then have le: "extent w' + length (der_tag tag) + 1 + length bs \<le> extent w' + length (der_element tag bs)"
      by (simp add: length_der_element)
    have "fst (CBB_add_asn1 cbb r p tag)"
      by (rule add_asn1_refines(2) [OF R w]) (use le has_room_mono [OF room] in simp)
    then obtain c where c: "CBB_add_asn1 cbb r p tag = (True, c)" by (cases "CBB_add_asn1 cbb r p tag") auto
    have cw: "extends cbb c" "represents c (?o w' [])" using add_asn1_refines(1) [OF R c] w by auto
    note b = body [unfolded appends_def, rule_format, OF cw(2) lev [OF w]]
    have "has_room c (extent (?o w' []) + length bs)"
      using has_room_mono [OF room le] has_room_extends [OF cw(1)]
      by (simp only: extent_snoc extent_append kind_room.simps list.size add_0_right)
    then have "fst (body c)" using b by blast
    then obtain d where d: "body c = (True, d)" by (cases "body c") auto
    then have dw: "represents d (?o w' bs)" "extends c d" using b by auto
    have s: "seal Asn1 bs = Some (der_length (length bs) @ bs)" using l by simp
    have cl: "close_at r (?o w' bs) = Some (append_inner (der_element tag bs) w')"
      using close_at_open [OF levr [OF w] s, of p] by (simp add: el)
    have "has_room d (extent (append_inner (der_element tag bs) w'))"
      using room has_room_extends [OF extends_trans [OF cw(1) dw(2)]] by simp
    then have "fst (CBB_flush d r)" by (rule flush_refines(2) [OF dw(1) cl])
    then show ?thesis by (simp add: add_element_def c d)
  qed
qed

section \<open>Typed values\<close>

lemma appends_emit: "appends (\<lambda>s. emit_bytes (\<lambda>s b. CBB_add_u8 s r b) s bs) r bs"
  using emit_refines unfolding appends_def by blast

lemma appends_bytes: "length d < 2 ^ 64 \<Longrightarrow> appends (\<lambda>s. CBB_add_bytes s r d) r d"
  using add_bytes_refines close_at_inner unfolding appends_def by fastforce

lemma appends_u8: "appends (\<lambda>s. CBB_add_u8 s r b) r [b]"
proof -
  have "then_ok x (\<lambda>s. (True, s)) = x" for x :: "bool \<times> cbb" by (cases x; cases "fst x") auto
  then show ?thesis using appends_emit [of r "[b]"] by simp
qed

fun trim_zeros :: "bool \<Rightarrow> u8 list \<Rightarrow> u8 list" where
  "trim_zeros started [] = (if started then [] else [0])"
| "trim_zeros started (b # bs) =
    (if \<not> started \<and> b = 0 then trim_zeros started bs
     else (if \<not> started \<and> b AND 0x80 \<noteq> 0 then [0, b] else [b]) @ trim_zeros True bs)"

lemma trim_started [simp]: "trim_zeros True bs = bs"
  by (induction bs) simp_all

lemma trim_zeros_shortest: "shortest_int (trim_zeros False bs) \<and> int_be (trim_zeros False bs) = int (be_nat bs)"
proof (induction bs)
  case (Cons b bs)
  consider "b = 0" | "b \<noteq> 0" "unat b < 128" | "\<not> unat b < 128" by blast
  then show ?case
  proof cases
    case 1
    then show ?thesis using Cons by simp
  next
    case 2
    then have "b \<noteq> 0xff" by auto
    then show ?thesis using 2 int_be_nat [of b bs]
      by (cases bs) (simp_all add: u8_msb_clear_iff del: int_be.simps be_nat.simps)
  next
    case 3
    then have "b \<noteq> 0" by auto
    then show ?thesis using 3 int_be_nat [of 0 "b # bs"] by (simp add: u8_msb_clear_iff)
  qed
qed (simp add: top_signed_def)

lemma be_bytes_digits: "be_bytes n x = map (\<lambda>i. byte_of (x div 256 ^ i mod 256)) (rev [0..<n])"
proof (induction n arbitrary: x)
  case (Suc n)
  then show ?case by (simp add: rev_upt_Suc o_def div_mult2_eq del: upt_Suc)
qed simp

lemma byte_digit: "to_u8 (drop_bit (8 * i) (v :: u64)) = byte_of (unat v div 256 ^ i mod 256)"
proof (rule byte_of_eqI)
  have "take_bit 64 (unat v) = unat v" using unat_lt_u64 [of v] by (simp add: take_bit_nat_eq_self_iff)
  then show "unat (to_u8 (drop_bit (8 * i) v)) = unat v div 256 ^ i mod 256"
    by (simp only: unsigned_ucast_eq unsigned_drop_bit_eq) (simp add: drop_bit_eq_div take_bit_eq_mod power_mult)
qed

lemma to_u8_low: "to_u8 (x AND 0xff :: u64) = to_u8 x"
proof -
  have "x AND 0xff = take_bit 8 x" by (simp add: take_bit_eq_mask mask_eq_exp_minus_1)
  then show ?thesis by (simp add: bit_word_eqI bit_simps)
qed

lemma uint64_bytes_emit:
  "(\<forall>i \<in> set is. i < 8) \<Longrightarrow> asn1_uint64_bytes cbb r v started is =
    emit_bytes (\<lambda>s b. CBB_add_u8 s r b) cbb
      (trim_zeros started (map (\<lambda>i. byte_of (unat v div 256 ^ (7 - i) mod 256)) is))"
proof (induction "is" arbitrary: cbb started)
  case (Cons i "is")
  have b: "to_u8 (drop_bit (8 * (7 - i)) v AND 0xff) = byte_of (unat v div 256 ^ (7 - i) mod 256)"
    unfolding to_u8_low byte_digit ..
  show ?case using Cons unfolding asn1_uint64_bytes.simps Let_def b list.map by simp
next
  case Nil
  have "then_ok x (\<lambda>s. (True, s)) = x" for x :: "bool \<times> cbb" by (cases x; cases "fst x") auto
  then show ?case by simp
qed

lemma upt8: "map (\<lambda>i. f (7 - i)) [0..<8] = map f (rev [0..<8 :: nat])"
proof -
  have "rev [0..<8 :: nat] = map (\<lambda>i. 7 - i) [0..<8]" by (simp add: upt_rec)
  then show ?thesis by simp
qed

definition uint_bytes :: "u64 \<Rightarrow> u8 list" where
  "uint_bytes v = trim_zeros False (be_bytes 8 (unat v))"

lemma uint_bytes: "shortest_int (uint_bytes v)" "int_be (uint_bytes v) = int (unat v)"
  using trim_zeros_shortest [of "be_bytes 8 (unat v)"] unat_lt_u64 [of v]
  by (simp_all add: uint_bytes_def be_nat_be_bytes)

lemma uint64_bytes: "asn1_uint64_bytes cbb r v False [0..<8] = emit_bytes (\<lambda>s b. CBB_add_u8 s r b) cbb (uint_bytes v)"
proof -
  have "map (\<lambda>i. byte_of (unat v div 256 ^ (7 - i) mod 256)) [0..<8] = be_bytes 8 (unat v)"
    unfolding be_bytes_digits by (rule upt8)
  then show ?thesis using uint64_bytes_emit [of "[0..<8]" cbb r v False] by (simp add: uint_bytes_def)
qed

text \<open>The signed loop drops leading bytes that only repeat the sign.\<close>

definition low_bytes :: "u64 \<Rightarrow> nat \<Rightarrow> u8 list" where
  "low_bytes v i = map (int64_byte v) (rev [0..<Suc i])"

lemma low_bytes_Suc: "low_bytes v (Suc i) = int64_byte v (Suc i) # low_bytes v i"
  by (simp add: low_bytes_def)

lemma low_bytes_Cons: "low_bytes v i = int64_byte v i # (if i = 0 then [] else low_bytes v (i - 1))"
  by (cases i) (simp_all add: low_bytes_def)

lemma int64_start_shortest:
  "int_be (low_bytes v i) < 0 \<Longrightarrow>
    shortest_int (low_bytes v (int64_start v i)) \<and> int_be (low_bytes v (int64_start v i)) = int_be (low_bytes v i)"
proof (induction i)
  case 0
  then show ?case by (simp add: low_bytes_def)
next
  case (Suc i)
  define xs where "xs = (if i = 0 then [] else low_bytes v (i - 1))"
  have xs: "low_bytes v i = int64_byte v i # xs" unfolding xs_def by (rule low_bytes_Cons)
  have r: "low_bytes v (Suc i) = int64_byte v (Suc i) # int64_byte v i # xs" by (simp add: low_bytes_Suc xs)
  have neg: "\<not> unat (int64_byte v (Suc i)) < 128" using Suc.prems unfolding r int_be_neg .
  show ?case
  proof (cases "int64_byte v (Suc i) = 0xff \<and> int64_byte v i AND 0x80 \<noteq> 0")
    case True
    then have e: "int_be (low_bytes v (Suc i)) = int_be (low_bytes v i)"
      unfolding r xs redundant_byte by (simp add: u8_msb_clear_iff)
    then show ?thesis using Suc.IH Suc.prems True by simp
  next
    case False
    then have "shortest_int (low_bytes v (Suc i))" using neg unfolding r by (auto simp: u8_msb_clear_iff)
    moreover have "int64_start v (Suc i) = Suc i" using False by auto
    ultimately show ?thesis by simp
  qed
qed

lemma low_bytes_all: "low_bytes v 7 = be_bytes 8 (unat v)"
proof -
  have "Suc 7 = (8 :: nat)" by simp
  then show ?thesis by (simp only: low_bytes_def be_bytes_digits int64_byte_def [abs_def] byte_digit)
qed

lemma int64_bytes_emit:
  "asn1_int64_bytes cbb r v i = emit_bytes (\<lambda>s b. CBB_add_u8 s r b) cbb (low_bytes v i)"
proof (induction i arbitrary: cbb)
  case 0
  have "then_ok x (\<lambda>s. (True, s)) = x" for x :: "bool \<times> cbb" by (cases x; cases "fst x") auto
  then show ?case by (simp add: low_bytes_def)
qed (simp add: low_bytes_Suc)

definition sint_bytes :: "u64 \<Rightarrow> u8 list" where
  "sint_bytes v = (if 0 \<le> sint v then uint_bytes v else low_bytes v (int64_start v 7))"

lemma sint_bytes: "shortest_int (sint_bytes v)" "int_be (sint_bytes v) = sint v"
proof -
  have "be_value (be_bytes 8 (unat v)) = v"
    using be_value_nat [of "be_bytes 8 (unat v)"] unat_lt_u64 [of v]
    by (simp add: be_nat_be_bytes word_unat_eq_iff)
  then have l: "int_be (low_bytes v 7) = sint v"
    using be_value_signed [of "be_bytes 8 (unat v)"] by (simp add: low_bytes_all)
  have "0 \<le> sint v \<Longrightarrow> sint v = int (unat v)" using uint_bounded [of v] unfolding sint_u64 by (simp split: if_splits)
  then show "shortest_int (sint_bytes v)" "int_be (sint_bytes v) = sint v"
    using uint_bytes [of v] int64_start_shortest [of v 7] l by (auto simp: sint_bytes_def)
qed

lemma length_uint_bytes: "length (uint_bytes v) \<le> 9"
proof -
  have "length (trim_zeros s bs) \<le> Suc (length bs)" for s bs by (induction s bs rule: trim_zeros.induct) auto
  from this [of False "be_bytes 8 (unat v)"] show ?thesis by (simp add: uint_bytes_def)
qed

lemma int64_start_le: "int64_start v i \<le> i"
  by (induction i) auto

lemma length_sint_bytes: "length (sint_bytes v) \<le> 9"
  using length_uint_bytes [of v] int64_start_le [of v 7] by (simp add: sint_bytes_def low_bytes_def)

section \<open>The typed writers\<close>

text \<open>A writer of an element: it succeeds exactly as the flush of its \<open>CBB\<close> followed by the
  element of the contents would.\<close>

definition writes_element :: "(bool \<times> cbb) \<Rightarrow> cbb \<Rightarrow> cbb_ref \<Rightarrow> u32 \<Rightarrow> u8 list \<Rightarrow> bool" where
  "writes_element res cbb r tag bs \<longleftrightarrow> (\<forall>w. represents cbb w \<longrightarrow>
     (\<forall>cbb'. res = (True, cbb') \<longrightarrow>
        (\<exists>w'. close_at r w = Some w' \<and> represents cbb' (append_inner (der_element tag bs) w') \<and> extends cbb cbb')) \<and>
     (\<forall>w'. close_at r w = Some w' \<longrightarrow> has_room cbb (extent w' + length (der_element tag bs)) \<longrightarrow> fst res))"

lemma writes_elementI:
  assumes "appends body (Child p) bs" "p = fresh_ptr cbb" "length bs \<le> 0xfffffffe"
    and "\<And>c. res = (True, c) \<longleftrightarrow> add_element cbb r p tag body = (True, c)"
  shows "writes_element res cbb r tag bs"
proof -
  have f: "fst res = fst (add_element cbb r p tag body)"
    using assms(4) by (metis (full_types) prod.collapse)
  have p: "p \<notin> fst ` set (chain cbb)" using fresh_ptr_fresh assms(2) by simp
  show ?thesis
    unfolding writes_element_def f
    using add_element_refines [OF _ p assms(1)] assms(3,4) by blast
qed

lemma then_ok_assoc: "then_ok (then_ok x f) g = then_ok x (\<lambda>s. then_ok (f s) g)"
  by (cases x; cases "fst x") auto

lemma or_on_error_then: "then_ok (or_on_error r x) f = (True, c) \<longleftrightarrow> then_ok x f = (True, c)"
  by (cases x; cases "fst x") (auto simp: or_on_error_def cbb_on_error_def)

lemma add_uint64_writes: "writes_element (CBB_add_asn1_uint64_with_tag cbb r v tag) cbb r tag (uint_bytes v)"
  by (rule writes_elementI [OF appends_emit refl])
    (use length_uint_bytes [of v] in \<open>simp_all add: CBB_add_asn1_uint64_with_tag_def Let_def or_on_error_then
       then_ok_assoc uint64_bytes add_element_def\<close>)

lemma add_int64_writes: "writes_element (CBB_add_asn1_int64_with_tag cbb r v tag) cbb r tag (sint_bytes v)"
proof (cases "0 \<le> sint v")
  case True
  then show ?thesis using add_uint64_writes [of cbb r v tag] by (simp add: CBB_add_asn1_int64_with_tag_def sint_bytes_def)
next
  case False
  show ?thesis
    by (rule writes_elementI [OF appends_emit refl])
      (use length_sint_bytes [of v] False in \<open>simp_all add: CBB_add_asn1_int64_with_tag_def Let_def or_on_error_then
         then_ok_assoc int64_bytes_emit add_element_def sint_bytes_def\<close>)
qed

lemma add_octets_writes:
  "length data \<le> 0xfffffffe \<Longrightarrow> writes_element (CBB_add_asn1_octet_string cbb r data) cbb r CBS_ASN1_OCTETSTRING data"
  by (rule writes_elementI [OF appends_bytes refl])
    (simp_all add: CBB_add_asn1_octet_string_def Let_def add_element_def)

lemma add_bool_writes:
  "writes_element (CBB_add_asn1_bool cbb r v) cbb r CBS_ASN1_BOOLEAN [if v then 0xff else 0]"
  by (rule writes_elementI [OF appends_u8 refl])
    (simp_all add: CBB_add_asn1_bool_def Let_def add_element_def)

end
