(* ===== verification/CbbInvariant.thy ===== *)
theory CbbInvariant
  imports CbbChildren
begin

text \<open>
  The invariant of a \<open>CBB\<close> over all calls, the failing ones included: the buffer is within its
  capacity, the offsets of the pending children are in order and within the buffer, and without an error
  the state represents an abstract writer. \<open>cbb_step\<close> is one call of the interface.
\<close>

section \<open>Whatever happens\<close>

text \<open>A failed call leaves the buffer marked, whole and at least as long.\<close>

definition failed_from :: "cbb_buffer \<Rightarrow> cbb_buffer \<Rightarrow> bool" where
  "failed_from b b' \<longleftrightarrow> buf_ok b' \<and> b_error b' \<and> b_len b \<le> b_len b'"

lemma failed_error: "buf_ok b \<Longrightarrow> failed_from b (b\<lparr>b_error := True\<rparr>)"
  by (simp add: failed_from_def)

lemma failed_trans: "b_len a \<le> b_len b \<Longrightarrow> failed_from b c \<Longrightarrow> failed_from a c"
  by (auto simp: failed_from_def)

lemma flush_length_fails:
  assumes "buf_ok b" "off + n \<le> b_len b" "flush_length b off n len = (False, b')"
  shows "failed_from b b'"
proof -
  have l: "off + n \<le> length (b_buf b)" using assms by (simp add: buf_ok_def)
  have "b' = b\<lparr>b_buf := patch (b_buf b) off (be_bytes n len), b_error := True\<rparr>"
    using assms(3) by (simp add: flush_length_def put_be_patch [OF l] buf_error_def Let_def split: if_splits)
  then show ?thesis using assms(1) l by (auto simp: failed_from_def buf_ok_def)
qed

lemma flush_prefix_fails:
  assumes b: "buf_ok b" "\<not> b_error b" "content b = A @ p @ ws" "length A = c_offset c"
    "length p = c_pending_len_len c" "child_ok c" "flush_prefix h b c = (False, b')"
  shows "failed_from b b'"
proof -
  have bl: "b_len b = length A + length p + length ws" using length_content [OF b(1)] b(3) by simp
  show ?thesis
  proof (cases "c_is_asn1 c")
    case False
    have "flush_length b (length A) (length p) (length ws) = (False, b')"
      using b False by (simp add: flush_prefix_def Let_def bl)
    then show ?thesis by (rule flush_length_fails [OF b(1), rotated]) (simp add: bl)
  next
    case True
    then obtain x where p: "p = [x]" "c_pending_len_len c = 1" using b(5,6) by (cases p) (auto simp: child_ok_def)
    have c: "content b = A @ [x] @ ws" using b(3) p by simp
    show ?thesis
    proof (cases "length ws \<le> 0xfffffffe")
      case False
      then have "b' = b\<lparr>b_error := True\<rparr>"
        using b(7) True b(4) p by (simp add: flush_prefix_def Let_def bl buf_error_def)
      then show ?thesis using failed_error [OF b(1)] by simp
    next
      case l: True
      show ?thesis
      proof (cases "length ws < 128")
        case True
        then show ?thesis using flush_short [OF b(1,2) c b(4) p(2) \<open>c_is_asn1 c\<close> True, of h] b(7) by auto
      next
        case False
        obtain ok b1 where a: "cbb_buffer_add h b (length_octets (length ws)) = (ok, b1)"
          by (cases "cbb_buffer_add h b (length_octets (length ws))")
        show ?thesis
        proof (cases ok)
          case True
          then show ?thesis
            using flush_long(2) [OF b(1,2) c b(4) p(2) \<open>c_is_asn1 c\<close> False l, of h b1] a b(7) by auto
        next
          case False
          note fl = flush_long(1) [OF b(1,2) c b(4) p(2) \<open>c_is_asn1 c\<close> \<open>\<not> length ws < 128\<close> l, of h]
          have "b1 = b\<lparr>b_error := True\<rparr>" using add_fail a False by auto
          then have "b' = b\<lparr>b_error := True\<rparr>" using b(7) unfolding fl by (simp add: a False buf_error_def)
          then show ?thesis using failed_error [OF b(1)] by simp
        qed
      qed
    qed
  qed
qed

lemma layout_close_length:
  "layout off xs fs cs ys \<Longrightarrow> close_frames xs fs = Some zs \<Longrightarrow> length ys \<le> length zs"
proof (induction off xs fs cs ys arbitrary: zs rule: layout.induct)
  case (2 off xs p k ws fs q c cs ys)
  then obtain us s where us: "close_frames ws fs = Some us" "seal (kind_of c) us = Some s" "zs = xs @ s" "child_ok c"
    by (auto simp: bind_eq_Some_conv)
  obtain res rest where r: "length res = c_pending_len_len c" "ys = xs @ res @ rest"
    "layout (off + length xs + c_pending_len_len c) ws fs cs rest" using 2(2) by auto
  have "length rest \<le> length us" using 2(1) r(3) us(1) by blast
  then show ?case using seal_pending [OF us(4,2)] us(3) r by simp
qed auto

lemma flush_chain_fails:
  assumes "buf_ok b" "\<not> b_error b" "content b = pre @ ys" "layout (length pre) xs fs cs ys"
    "flush_chain h b (map snd cs) = (False, b')"
  shows "failed_from b b'"
  using assms
proof (induction cs arbitrary: b pre ys xs fs b')
  case (Cons qc cs)
  obtain q c where qc: "qc = (q, c)" by (cases qc)
  obtain ws fs' res rest where L: "fs = (q, kind_of c, ws) # fs'" "child_ok c" "c_offset c = length pre + length xs"
    "length res = c_pending_len_len c" "ys = xs @ res @ rest"
    "layout (length pre + length xs + c_pending_len_len c) ws fs' cs rest"
    using Cons.prems(4) unfolding qc by (rule layout_Cons)
  have p: "length (pre @ xs @ res) = length pre + length xs + c_pending_len_len c" using L by simp
  have ct: "content b = (pre @ xs @ res) @ rest" using Cons.prems(3) L(5) by simp
  obtain ok b1 where f: "flush_chain h b (map snd cs) = (ok, b1)" by (cases "flush_chain h b (map snd cs)")
  show ?case
  proof (cases ok)
    case False
    then have b1: "failed_from b b1" using Cons.IH [OF Cons.prems(1,2) ct] L(6) f unfolding p by simp
    then have "b' = b1\<lparr>b_error := True\<rparr>" using Cons.prems(2,5) f False by (simp add: qc Let_def buf_error_def)
    then show ?thesis using b1 by (simp add: failed_from_def)
  next
    case True
    note fc = flush_chain_refines(1) [OF Cons.prems(1,2) ct, of ws fs' cs h b1]
    obtain zs where zs: "grown b b1" "content b1 = (pre @ xs) @ res @ zs" "close_frames ws fs' = Some zs"
      using fc L(6) f True unfolding p by auto
    have g: "buf_ok b1" "\<not> b_error b1" using zs(1) by (simp_all add: grown_def)
    have len1: "b_len b1 = c_offset c + c_pending_len_len c + length zs"
      using length_content [OF g(1)] zs(2) L by simp
    moreover have "b_len b1 < 2 ^ 64" using g(1) by (auto simp: buf_ok_def)
    ultimately have "(c_offset c + c_pending_len_len c) mod 2 ^ 64 = c_offset c + c_pending_len_len c" by simp
    then have "flush_prefix h b1 c = (False, b')" using Cons.prems(2,5) f True len1 by (simp add: qc Let_def)
    moreover have "length (pre @ xs) = c_offset c" using L by simp
    ultimately have fb: "failed_from b1 b'" using flush_prefix_fails [OF g zs(2) _ L(4) L(2)] by blast
    have "length rest \<le> length zs" by (rule layout_close_length [OF L(6) zs(3)])
    moreover have "b_len b = length (pre @ xs @ res) + length rest"
      using length_content [OF Cons.prems(1)] ct by simp
    ultimately have "b_len b \<le> b_len b1" using len1 L by simp
    then show ?thesis using failed_trans fb by blast
  qed
qed simp

section \<open>The invariant\<close>

definition cbb_inv :: "cbb \<Rightarrow> bool" where
  "cbb_inv cbb \<longleftrightarrow> buf_ok (base cbb) \<and>
    sorted (map (\<lambda>pc. c_offset (snd pc)) (chain cbb) @ [b_len (base cbb)]) \<and>
    (\<not> b_error (base cbb) \<longrightarrow> (\<exists>w. represents cbb w))"

lemma layout_sorted:
  "layout off xs fs cs ys \<Longrightarrow> sorted (off # map (\<lambda>pc. c_offset (snd pc)) cs @ [off + length ys])"
proof (induction off xs fs cs ys rule: layout.induct)
  case (2 off xs p k zs fs q c cs ys)
  then obtain res rest where r: "length res = c_pending_len_len c" "ys = xs @ res @ rest"
    "layout (off + length xs + c_pending_len_len c) zs fs cs rest" "c_offset c = off + length xs" by auto
  have "sorted ((off + length xs + c_pending_len_len c) # map (\<lambda>pc. c_offset (snd pc)) cs
      @ [off + length xs + c_pending_len_len c + length rest])"
    using 2(1) r(3) by blast
  then show ?case using r by (auto simp: ac_simps)
qed auto

lemma represents_inv: "represents cbb w \<Longrightarrow> cbb_inv cbb"
  using layout_sorted [of 0 "fst w" "snd w" "chain cbb" "content (base cbb)"]
  by (auto simp: cbb_inv_def represents_def)

lemma inv_represents: "cbb_inv cbb \<Longrightarrow> \<not> b_error (base cbb) \<Longrightarrow> \<exists>w. represents cbb w"
  by (simp add: cbb_inv_def)

lemma inv_failed:
  assumes "cbb_inv cbb" "failed_from (base cbb) b"
  shows "cbb_inv (cbb\<lparr>base := b, chain := take k (chain cbb)\<rparr>)"
proof -
  let ?o = "map (\<lambda>pc. c_offset (snd pc)) (chain cbb)"
  have s: "sorted ?o" "\<forall>x \<in> set ?o. x \<le> b_len (base cbb)"
    using assms(1) unfolding cbb_inv_def by (auto simp: sorted_append)
  then have "\<forall>x \<in> set (take k ?o). x \<le> b_len b"
    using assms(2) by (meson failed_from_def in_set_takeD le_trans)
  moreover have "sorted (take k ?o)" using s(1) by (rule sorted_wrt_take)
  ultimately show ?thesis
    using assms(2) by (simp add: cbb_inv_def failed_from_def sorted_append flip: take_map)
qed

lemma inv_failed_base: "cbb_inv cbb \<Longrightarrow> failed_from (base cbb) b \<Longrightarrow> cbb_inv (cbb\<lparr>base := b\<rparr>)"
  using inv_failed [of cbb b "length (chain cbb)"] by simp

lemma inv_then:
  "cbb_inv (snd r) \<Longrightarrow> (\<And>s. r = (True, s) \<Longrightarrow> cbb_inv (snd (g s))) \<Longrightarrow> cbb_inv (snd (then_ok r g))"
  by (cases r; cases "fst r") auto

lemma layout_drop:
  "layout off xs fs cs ys \<Longrightarrow> k \<le> length cs \<Longrightarrow>
    \<exists>pre xs' fs' ys'. ys = pre @ ys' \<and> layout (off + length pre) xs' fs' (drop k cs) ys'"
proof (induction k arbitrary: off xs fs cs ys)
  case 0
  then have "ys = [] @ ys \<and> layout (off + length []) xs fs (drop 0 cs) ys" by simp
  then show ?case by blast
next
  case (Suc k)
  then obtain q c cs' where cs: "cs = (q, c) # cs'" by (cases cs) auto
  obtain ws fs' res rest where L: "fs = (q, kind_of c, ws) # fs'" "length res = c_pending_len_len c"
    "ys = xs @ res @ rest" "layout (off + length xs + c_pending_len_len c) ws fs' cs' rest"
    using Suc.prems(1) unfolding cs by (rule layout_Cons)
  obtain pre xs' fs'' ys' where "rest = pre @ ys'"
    "layout (off + length xs + c_pending_len_len c + length pre) xs' fs'' (drop k cs') ys'"
    using Suc.IH [OF L(4)] Suc.prems(2) cs by auto
  then have "ys = (xs @ res @ pre) @ ys' \<and> layout (off + length (xs @ res @ pre)) xs' fs'' (drop (Suc k) cs) ys'"
    using L(2,3) cs by (simp add: add.assoc)
  then show ?case by blast
qed

lemma flush_inv:
  assumes I: "cbb_inv cbb"
  shows "cbb_inv (snd (CBB_flush cbb r))"
proof (cases "b_error (base cbb)")
  case True
  then show ?thesis using I by (simp add: CBB_flush_def split: option.split)
next
  case False
  then obtain w where R: "represents cbb w" using I inv_represents by blast
  show ?thesis
  proof (cases "fst (CBB_flush cbb r)")
    case True
    then show ?thesis using flush_refines(1) [OF R, of r "snd (CBB_flush cbb r)"] represents_inv
      by (metis prod.collapse)
  next
    case failed: False
    show ?thesis
    proof (cases "cbb_level cbb r")
      case None
      then show ?thesis using I by (simp add: CBB_flush_def)
    next
      case (Some k)
      have k: "k \<le> length (chain cbb)"
        using level_bound represents_level [OF R, of r] represents_chain [OF R] Some by metis
      obtain pre xs' fs' ys' where L: "content (base cbb) = pre @ ys'" "layout (length pre) xs' fs' (drop k (chain cbb)) ys'"
        using layout_drop [OF _ k, of 0 "fst w" "snd w" "content (base cbb)"] R by (auto simp: represents_def)
      obtain b where b: "flush_chain (heap cbb) (base cbb) (map snd (drop k (chain cbb))) = (False, b)"
        using failed Some False by (auto simp: CBB_flush_def split: prod.splits)
      have "failed_from (base cbb) b"
        by (rule flush_chain_fails [OF _ _ L b]) (use R in \<open>simp_all add: represents_def\<close>)
      then show ?thesis using inv_failed [OF I] Some False b by (simp add: CBB_flush_def)
    qed
  qed
qed

lemma flush_True_represents:
  assumes "cbb_inv cbb" "CBB_flush cbb r = (True, c)"
  obtains w where "represents c w" "writer_level w r = Some (length (snd w))"
proof -
  have "\<not> b_error (base cbb)" using assms(2) by (auto simp: CBB_flush_def split: option.splits if_splits)
  then obtain w where "represents cbb w" using assms(1) inv_represents by blast
  from flush_refines(1) [OF this assms(2)] show thesis using that close_at_level by blast
qed

lemma patch_self: "p + n \<le> length m \<Longrightarrow> patch m p (take n (drop p m)) = m"
  by (simp add: patch_def min_def) (metis add.commute append_take_drop_id drop_drop)

lemma buffer_add_inv:
  assumes R: "represents c w" and n: "n < 2 ^ 64"
  shows "cbb_inv (snd (with_buffer c (cbb_buffer_add (heap c) (base c) n)))"
proof -
  note I = R [unfolded represents_def]
  obtain ok b where b: "cbb_buffer_add (heap c) (base c) n = (ok, b)" by (cases "cbb_buffer_add (heap c) (base c) n")
  show ?thesis
  proof (cases ok)
    case False
    then have "b = (base c)\<lparr>b_error := True\<rparr>" using add_fail b by auto
    then show ?thesis using inv_failed_base [OF represents_inv [OF R]] failed_error I b by (simp add: with_buffer_def)
  next
    case True
    have bt: "cbb_buffer_add (heap c) (base c) n = (True, b)" using b True by simp
    note a = add_ok [OF conjunct1 [OF I] _ n bt]
    define d where "d = take n (drop (b_len (base c)) (b_buf b))"
    have gb: "b_len b \<le> length (b_buf b)" using a I by (auto simp: grown_def buf_ok_def)
    have d: "length d = n" using a(2) gb I by (simp add: d_def)
    have "patch (b_buf b) (b_len (base c)) d = b_buf b"
      unfolding d_def by (rule patch_self) (use a(2) gb I in simp)
    then have "represents (c\<lparr>base := b\<rparr>) (append_inner d w)"
      using represents_append(1) [OF R, of d b] b True d n a(2) I by simp
    then show ?thesis using represents_inv b True by (simp add: with_buffer_def)
  qed
qed

lemma add_space_inv: "cbb_inv cbb \<Longrightarrow> n < 2 ^ 64 \<Longrightarrow> cbb_inv (snd (CBB_add_space cbb r n))"
  unfolding CBB_add_space_def
  by (rule inv_then [OF flush_inv]) (auto elim!: flush_True_represents intro: buffer_add_inv)

lemma add_space_True_represents:
  assumes "cbb_inv cbb" "n < 2 ^ 64" "CBB_add_space cbb r n = (True, c)"
  obtains w where "b_len (base c) \<le> length (b_buf (base c))" "n \<le> b_len (base c)"
    "\<And>d. length d = n \<Longrightarrow> represents (write_added c d) (append_inner d w)"
proof -
  have "\<not> b_error (base cbb)"
    using assms(3) by (auto simp: CBB_add_space_def CBB_flush_def then_ok_def split: option.splits if_splits)
  then obtain w where "represents cbb w" using assms(1) inv_represents by blast
  from add_space_refines(1) [OF this assms(2,3)] obtain w' where
    "\<forall>d. length d = n \<longrightarrow> represents (write_added c d) (append_inner d w')"
    "b_len (base c) = extent w' + n" "b_len (base c) \<le> length (b_buf (base c))" by blast
  then show thesis using that [of w'] by simp
qed

lemma add_space_True_written:
  "cbb_inv cbb \<Longrightarrow> n < 2 ^ 64 \<Longrightarrow> CBB_add_space cbb r n = (True, c) \<Longrightarrow> length d = n \<Longrightarrow> cbb_inv (write_added c d)"
  by (erule (2) add_space_True_represents) (rule represents_inv)

lemma add_bytes_inv: "cbb_inv cbb \<Longrightarrow> length d < 2 ^ 64 \<Longrightarrow> cbb_inv (snd (CBB_add_bytes cbb r d))"
  unfolding CBB_add_bytes_def
  by (rule inv_then [OF add_space_inv]) (auto intro: add_space_True_written)

lemma add_zeros_inv: "cbb_inv cbb \<Longrightarrow> n < 2 ^ 64 \<Longrightarrow> cbb_inv (snd (CBB_add_zeros cbb r n))"
  unfolding CBB_add_zeros_def
  by (rule inv_then [OF add_space_inv]) (auto intro: add_space_True_written)

lemma on_error_inv: "cbb_inv cbb \<Longrightarrow> cbb_inv (snd (cbb_on_error cbb r))"
  using inv_failed [of cbb "(base cbb)\<lparr>b_error := True\<rparr>"] inv_failed_base [of cbb "(base cbb)\<lparr>b_error := True\<rparr>"]
    failed_error [of "base cbb"]
  by (auto simp: cbb_on_error_def cbb_inv_def split: option.split)

lemma add_u_inv:
  assumes "cbb_inv cbb" "n < 2 ^ 64"
  shows "cbb_inv (snd (cbb_add_u cbb r v n))"
  unfolding cbb_add_u_def
proof (rule inv_then [OF add_space_inv [OF assms]])
  fix c
  assume c: "CBB_add_space cbb r n = (True, c)"
  obtain w where w: "b_len (base c) \<le> length (b_buf (base c))" "n \<le> b_len (base c)"
    "\<And>d. length d = n \<Longrightarrow> represents (write_added c d) (append_inner d w)"
    using add_space_True_represents [OF assms c] by metis
  have p: "put_be (b_buf (base c)) (b_len (base c) - n) n (unat v) =
      (patch (b_buf (base c)) (b_len (base c) - n) (be_bytes n (unat v)), unat v div 256 ^ n)"
    using w by (intro put_be_patch) simp
  have "cbb_inv (write_added c (be_bytes n (unat v)))" by (rule represents_inv [OF w(3)]) simp
  then show "cbb_inv (snd (let (buf, left) = put_be (b_buf (base c)) (b_len (base c) - n) n (unat v);
       cbb = c\<lparr>base := base c\<lparr>b_buf := buf\<rparr>\<rparr> in if left \<noteq> 0 then cbb_on_error cbb r else (True, cbb)))"
    using on_error_inv by (simp add: p Let_def write_added_def)
qed

lemma reserve_inv:
  assumes "cbb_inv cbb" "n < 2 ^ 64"
  shows "cbb_inv (snd (CBB_reserve cbb r n))"
  unfolding CBB_reserve_def
proof (rule inv_then [OF flush_inv [OF assms(1)]])
  fix c
  assume "CBB_flush cbb r = (True, c)"
  then obtain w where R: "represents c w" using flush_True_represents [OF assms(1)] by metis
  obtain ok b where b: "cbb_buffer_reserve (heap c) (base c) n = (ok, b)"
    by (cases "cbb_buffer_reserve (heap c) (base c) n")
  have I: "buf_ok (base c)" "\<not> b_error (base c)" using R by (simp_all add: represents_def)
  have "cbb_inv (c\<lparr>base := b\<rparr>)"
  proof (cases ok)
    case True
    have bt: "cbb_buffer_reserve (heap c) (base c) n = (True, b)" using b True by simp
    have "represents (c\<lparr>base := b\<rparr>) w"
      using R reserve_ok [OF I assms(2) bt] by (simp add: represents_def grown_def)
    then show ?thesis by (rule represents_inv)
  next
    case False
    then have "b = (base c)\<lparr>b_error := True\<rparr>" using reserve_fail b by auto
    then show ?thesis using inv_failed_base [OF represents_inv [OF R]] failed_error [OF I(1)] by simp
  qed
  then show "cbb_inv (snd (with_buffer c (cbb_buffer_reserve (heap c) (base c) n)))"
    by (simp add: with_buffer_def b)
qed

text \<open>\<open>CBB_did_write\<close> appends whatever the caller has stored in the reserved space.\<close>

lemma did_write_represents:
  assumes R: "represents cbb w" and "CBB_did_write cbb r n = Some (True, cbb')" "n < 2 ^ 64"
  shows "writer_level w r = Some (length (snd w))"
    and "represents cbb' (append_inner (take n (drop (b_len (base cbb)) (b_buf (base cbb)))) w)"
proof -
  note I = R [unfolded represents_def]
  obtain k where k: "writer_level w r = Some k" "k = length (chain cbb)"
    "\<not> (b_len (base cbb) + n) mod 2 ^ 64 < b_len (base cbb)" "(b_len (base cbb) + n) mod 2 ^ 64 \<le> b_cap (base cbb)"
    "cbb' = cbb\<lparr>base := (base cbb)\<lparr>b_len := (b_len (base cbb) + n) mod 2 ^ 64\<rparr>\<rparr>"
    using assms(2) by (auto simp: CBB_did_write_def represents_level [OF R] Let_def split: option.splits if_splits)
  show "writer_level w r = Some (length (snd w))" using k represents_chain [OF R] by simp
  have "b_len (base cbb) < 2 ^ 64" using I by (auto simp: buf_ok_def)
  then have "b_len (base cbb) + n < 2 ^ 64" using mod_less_self k(3) assms(3) by blast
  then have m: "(b_len (base cbb) + n) mod 2 ^ 64 = b_len (base cbb) + n" by (rule mod_less)
  define d where "d = take n (drop (b_len (base cbb)) (b_buf (base cbb)))"
  have "content (base cbb') = content (base cbb) @ d"
    unfolding k(5) m by (simp add: content_def d_def take_add)
  then show "represents cbb' (append_inner d w)"
    using layout_append [of 0 "fst w" "snd w" "chain cbb" "content (base cbb)" d] I k(4)
    unfolding k(5) m by (simp add: represents_def buf_ok_def)
qed

lemma did_write_inv:
  assumes I: "cbb_inv cbb" and ok: "CBB_did_write cbb r n = Some (ok, cbb')" and "n < 2 ^ 64"
  shows "cbb_inv cbb'"
proof (cases ok)
  case False
  then have "cbb' = cbb" using ok by (auto simp: CBB_did_write_def Let_def split: option.splits if_splits)
  then show ?thesis using I by simp
next
  case True
  then have okT: "CBB_did_write cbb r n = Some (True, cbb')" using ok by simp
  show ?thesis
  proof (cases "b_error (base cbb)")
    case False
    then obtain w where "represents cbb w" using I inv_represents by blast
    from did_write_represents(2) [OF this okT assms(3)] show ?thesis by (rule represents_inv)
  next
    case err: True
    have "(b_len (base cbb) + n) mod 2 ^ 64 \<le> b_cap (base cbb)" "b_len (base cbb) \<le> (b_len (base cbb) + n) mod 2 ^ 64"
      and c: "cbb' = cbb\<lparr>base := (base cbb)\<lparr>b_len := (b_len (base cbb) + n) mod 2 ^ 64\<rparr>\<rparr>"
      using okT by (auto simp: CBB_did_write_def Let_def split: option.splits if_splits)
    then have "failed_from (base cbb) ((base cbb)\<lparr>b_len := (b_len (base cbb) + n) mod 2 ^ 64\<rparr>)"
      using I err by (simp add: failed_from_def cbb_inv_def buf_ok_def)
    then show ?thesis unfolding c by (rule inv_failed_base [OF I])
  qed
qed

lemma add_child_inv:
  assumes R: "represents c w" and n: "n \<le> 8" "asn1 \<longrightarrow> n = 1"
  shows "cbb_inv (snd (cbb_add_child c r p n asn1))"
proof (cases "fst (cbb_add_child c r p n asn1)")
  case True
  then show ?thesis using add_child_refines(1) [OF R n, of r p "snd (cbb_add_child c r p n asn1)"] represents_inv
    by (metis prod.collapse)
next
  case False
  have "n < 2 ^ 64" using n(1) by simp
  from buffer_add_inv [OF R this] show ?thesis
    using False unfolding cbb_add_child_def Let_def then_ok_def by (simp split: if_splits)
qed

lemma add_length_prefixed_inv:
  "cbb_inv cbb \<Longrightarrow> n \<le> 8 \<Longrightarrow> cbb_inv (snd (cbb_add_length_prefixed cbb r p n))"
  unfolding cbb_add_length_prefixed_def
  by (rule inv_then [OF flush_inv]) (auto elim!: flush_True_represents intro: add_child_inv)

lemma emit_inv: "cbb_inv cbb \<Longrightarrow> cbb_inv (snd (emit_bytes (\<lambda>s b. CBB_add_u8 s r b) cbb bs))"
proof (induction bs arbitrary: cbb)
  case (Cons b bs)
  have u: "cbb_inv (snd (CBB_add_u8 cbb r b))" using add_u_inv [OF Cons.prems, of 1] by (simp add: CBB_add_u8_def)
  then show ?case unfolding emit_bytes.simps by (rule inv_then) (use Cons.IH u in auto)
qed simp

lemma emit_True_represents:
  assumes "represents c w" "writer_level w r = Some (length (snd w))"
    "emit_bytes (\<lambda>s b. CBB_add_u8 s r b) c bs = (True, d)"
  shows "\<exists>w. represents d w"
  using emit_refines(1) [OF assms] by blast

lemma add_asn1_inv: "cbb_inv cbb \<Longrightarrow> cbb_inv (snd (CBB_add_asn1 cbb r p tag))"
  unfolding add_asn1_unfold
proof (rule inv_then [OF flush_inv])
  fix c
  assume "cbb_inv cbb" "CBB_flush cbb r = (True, c)"
  then obtain w where w: "represents c w" "writer_level w r = Some (length (snd w))"
    using flush_True_represents by metis
  show "cbb_inv (snd (then_ok (emit_bytes (\<lambda>s b. CBB_add_u8 s r b) c (der_tag tag))
       (\<lambda>cbb. cbb_add_child cbb r p 1 True)))"
  proof (rule inv_then [OF emit_inv [OF represents_inv [OF w(1)]]])
    fix d
    assume "emit_bytes (\<lambda>s b. CBB_add_u8 s r b) c (der_tag tag) = (True, d)"
    from emit_True_represents [OF w this] obtain w' where "represents d w'" ..
    then show "cbb_inv (snd (cbb_add_child d r p 1 True))" by (rule add_child_inv) simp_all
  qed
qed simp

lemma layout_take:
  "layout off xs fs cs ys \<Longrightarrow> k < length cs \<Longrightarrow>
    layout off xs (take k fs) (take k cs) (take (c_offset (snd (cs ! k)) - off) ys)"
proof (induction k arbitrary: off xs fs cs ys)
  case 0
  then obtain q c cs' where cs: "cs = (q, c) # cs'" by (cases cs) auto
  from 0(1) [unfolded cs] show ?case by (rule layout_Cons) (simp add: cs)
next
  case (Suc k)
  then obtain q c cs' where cs: "cs = (q, c) # cs'" by (cases cs) auto
  obtain ws fs' res rest where L: "fs = (q, kind_of c, ws) # fs'" "child_ok c" "c_offset c = off + length xs"
    "length res = c_pending_len_len c"
    "ys = xs @ res @ rest" "layout (off + length xs + c_pending_len_len c) ws fs' cs' rest"
    using Suc.prems(1) unfolding cs by (rule layout_Cons)
  have k: "k < length cs'" using Suc.prems(2) cs by simp
  define o' where "o' = c_offset (snd (cs' ! k))"
  have IH: "layout (off + length xs + c_pending_len_len c) ws (take k fs') (take k cs')
      (take (o' - (off + length xs + c_pending_len_len c)) rest)"
    unfolding o'_def by (rule Suc.IH [OF L(6) k])
  have "o' \<in> set (map (\<lambda>pc. c_offset (snd pc)) cs')" using k by (simp add: o'_def)
  then have le: "off + length xs + c_pending_len_len c \<le> o'"
    using layout_sorted [OF L(6)] by auto
  then have t: "take (o' - off) ys = xs @ res @ take (o' - (off + length xs + c_pending_len_len c)) rest"
    using L(4,5) by simp
  have "layout off xs ((q, kind_of c, ws) # take k fs') ((q, c) # take k cs')
      (xs @ res @ take (o' - (off + length xs + c_pending_len_len c)) rest)"
    using L(2-4) IH by auto
  then show ?case unfolding t [symmetric] by (simp add: L(1) cs o'_def)
qed

lemma discard_represents:
  assumes R: "represents cbb w" and k: "writer_level w r = Some k" "k < length (snd w)"
  shows "represents (CBB_discard_child cbb r) (fst w, take k (snd w))"
proof -
  note I = R [unfolded represents_def]
  have k': "k < length (chain cbb)" using k represents_chain [OF R] by simp
  have le: "c_offset (snd (chain cbb ! k)) \<le> b_len (base cbb)"
    using represents_inv [OF R] k' unfolding cbb_inv_def by (auto simp: sorted_append)
  have L: "layout 0 (fst w) (take k (snd w)) (take k (chain cbb)) (take (c_offset (snd (chain cbb ! k))) (content (base cbb)))"
    using layout_take [OF _ k', of 0 "fst w" "snd w" "content (base cbb)"] I by simp
  show ?thesis
    using L I k k' le
    by (simp add: CBB_discard_child_def represents_level [OF R] represents_def buf_ok_def content_def min_def)
qed

lemma discard_inv:
  assumes I: "cbb_inv cbb"
  shows "cbb_inv (CBB_discard_child cbb r)"
proof (cases "\<exists>k. cbb_level cbb r = Some k \<and> k < length (chain cbb)")
  case False
  then show ?thesis using I by (auto simp: CBB_discard_child_def split: option.split)
next
  case True
  then obtain k where k: "cbb_level cbb r = Some k" "k < length (chain cbb)" by blast
  show ?thesis
  proof (cases "b_error (base cbb)")
    case False
    then obtain w where R: "represents cbb w" using I inv_represents by blast
    have "represents (CBB_discard_child cbb r) (fst w, take k (snd w))"
      by (rule discard_represents [OF R]) (use k represents_level [OF R] represents_chain [OF R] in simp_all)
    then show ?thesis by (rule represents_inv)
  next
    case True
    let ?o = "map (\<lambda>pc. c_offset (snd pc)) (chain cbb)"
    have s: "sorted ?o" "\<forall>x \<in> set ?o. x \<le> b_len (base cbb)"
      using I unfolding cbb_inv_def by (auto simp: sorted_append)
    have "take k ?o @ [?o ! k] = take (Suc k) ?o" using k(2) by (simp add: take_Suc_conv_app_nth)
    then have "sorted (take k ?o @ [?o ! k])" using s(1) by (metis sorted_wrt_take)
    moreover have "?o ! k \<le> b_len (base cbb)" using s(2) k(2) by (simp add: list_all_length)
    ultimately show ?thesis
      using I k True by (simp add: CBB_discard_child_def cbb_inv_def buf_ok_def take_map)
  qed
qed

section \<open>Calls\<close>

lemma then_ok_True [simp]: "then_ok x (\<lambda>s. (True, s)) = x"
  by (cases x; cases "fst x") auto

lemma on_error_res_inv: "cbb_inv (snd res) \<Longrightarrow> cbb_inv (snd (or_on_error r res))"
  using on_error_inv by (simp add: or_on_error_def)

lemma inv_thenI:
  "cbb_inv (snd r) \<Longrightarrow> (\<And>s. cbb_inv s \<Longrightarrow> cbb_inv (snd (g s))) \<Longrightarrow> cbb_inv (snd (then_ok r g))"
  by (cases r; cases "fst r") auto

lemma add_u8_inv: "cbb_inv cbb \<Longrightarrow> cbb_inv (snd (CBB_add_u8 cbb r b))"
  unfolding CBB_add_u8_def by (rule add_u_inv) simp_all

lemma add_uint64_inv: "cbb_inv cbb \<Longrightarrow> cbb_inv (snd (CBB_add_asn1_uint64_with_tag cbb r v tag))"
  unfolding CBB_add_asn1_uint64_with_tag_def Let_def uint64_bytes
  by (intro inv_thenI on_error_res_inv add_asn1_inv emit_inv flush_inv)

lemma add_int64_inv: "cbb_inv cbb \<Longrightarrow> cbb_inv (snd (CBB_add_asn1_int64_with_tag cbb r v tag))"
  unfolding CBB_add_asn1_int64_with_tag_def Let_def int64_bytes_emit
  using add_uint64_inv [of cbb r v tag]
  by (cases "0 \<le> sint v") (simp, simp only: if_False, intro inv_thenI on_error_res_inv add_asn1_inv emit_inv flush_inv)

lemma add_octets_inv: "cbb_inv cbb \<Longrightarrow> length d < 2 ^ 64 \<Longrightarrow> cbb_inv (snd (CBB_add_asn1_octet_string cbb r d))"
  unfolding CBB_add_asn1_octet_string_def Let_def
  by (intro inv_thenI on_error_res_inv add_asn1_inv add_bytes_inv flush_inv)

lemma add_bool_inv: "cbb_inv cbb \<Longrightarrow> cbb_inv (snd (CBB_add_asn1_bool cbb r v))"
  unfolding CBB_add_asn1_bool_def Let_def
  by (intro inv_thenI on_error_res_inv add_asn1_inv add_u8_inv flush_inv)

text \<open>One call of the interface, whether it succeeds or not.\<close>

inductive cbb_step :: "cbb \<Rightarrow> cbb \<Rightarrow> bool" where
  step_flush: "cbb_step c (snd (CBB_flush c r))"
| step_bytes: "length d < 2 ^ 64 \<Longrightarrow> cbb_step c (snd (CBB_add_bytes c r d))"
| step_zeros: "n < 2 ^ 64 \<Longrightarrow> cbb_step c (snd (CBB_add_zeros c r n))"
| step_space: "n < 2 ^ 64 \<Longrightarrow> cbb_step c (snd (CBB_add_space c r n))"
| step_reserve: "n < 2 ^ 64 \<Longrightarrow> cbb_step c (snd (CBB_reserve c r n))"
| step_did_write: "n < 2 ^ 64 \<Longrightarrow> CBB_did_write c r n = Some (ok, c') \<Longrightarrow> cbb_step c c'"
| step_u8: "cbb_step c (snd (CBB_add_u8 c r b))"
| step_u16: "cbb_step c (snd (CBB_add_u16 c r v16))"
| step_u24: "cbb_step c (snd (CBB_add_u24 c r v32))"
| step_u32: "cbb_step c (snd (CBB_add_u32 c r v32))"
| step_u64: "cbb_step c (snd (CBB_add_u64 c r v))"
| step_u8_prefixed: "cbb_step c (snd (CBB_add_u8_length_prefixed c r p))"
| step_u16_prefixed: "cbb_step c (snd (CBB_add_u16_length_prefixed c r p))"
| step_u24_prefixed: "cbb_step c (snd (CBB_add_u24_length_prefixed c r p))"
| step_asn1: "cbb_step c (snd (CBB_add_asn1 c r p tag))"
| step_discard: "cbb_step c (CBB_discard_child c r)"
| step_uint64: "cbb_step c (snd (CBB_add_asn1_uint64_with_tag c r v tag))"
| step_int64: "cbb_step c (snd (CBB_add_asn1_int64_with_tag c r v tag))"
| step_octets: "length d < 2 ^ 64 \<Longrightarrow> cbb_step c (snd (CBB_add_asn1_octet_string c r d))"
| step_bool: "cbb_step c (snd (CBB_add_asn1_bool c r v1))"

lemma step_inv: "cbb_step c c' \<Longrightarrow> cbb_inv c \<Longrightarrow> cbb_inv c'"
  by (induction rule: cbb_step.induct)
    (auto intro: flush_inv add_bytes_inv add_zeros_inv add_space_inv reserve_inv did_write_inv add_asn1_inv
      discard_inv add_uint64_inv add_int64_inv add_octets_inv add_bool_inv add_u_inv add_length_prefixed_inv
      simp: CBB_add_u8_def CBB_add_u16_def CBB_add_u24_def CBB_add_u32_def CBB_add_u64_def
        CBB_add_u8_length_prefixed_def CBB_add_u16_length_prefixed_def CBB_add_u24_length_prefixed_def)

lemma steps_inv: "cbb_step\<^sup>*\<^sup>* c c' \<Longrightarrow> cbb_inv c \<Longrightarrow> cbb_inv c'"
  by (induction rule: rtranclp_induct) (auto intro: step_inv)

section \<open>A fixed buffer stays the caller's\<close>

definition fixed :: "nat \<Rightarrow> cbb_buffer \<Rightarrow> bool" where
  "fixed n b \<longleftrightarrow> \<not> b_resize b \<and> b_cap b = n"

named_theorems keeps_fixed

lemma fixed_updates [simp]:
  "fixed n (b\<lparr>b_buf := m\<rparr>) = fixed n b" "fixed n (b\<lparr>b_len := l\<rparr>) = fixed n b" "fixed n (b\<lparr>b_error := e\<rparr>) = fixed n b"
  by (simp_all add: fixed_def)

lemma fixed_reserve [keeps_fixed]: "fixed n b \<Longrightarrow> fixed n (snd (cbb_buffer_reserve h b k))"
  unfolding reserve_unfold by (auto simp: fixed_def)

lemma fixed_add [keeps_fixed]: "fixed n b \<Longrightarrow> fixed n (snd (cbb_buffer_add h b k))"
  using fixed_reserve [of n b h k] by (auto simp: cbb_buffer_add_def then_ok_def)

lemma fixed_flush_length [keeps_fixed]: "fixed n b \<Longrightarrow> fixed n (snd (flush_length b off k len))"
  by (auto simp: flush_length_def buf_error_def Let_def split: prod.split)

lemma fixed_flush_prefix [keeps_fixed]: "fixed n b \<Longrightarrow> fixed n (snd (flush_prefix h b c))"
proof -
  assume b: "fixed n b"
  have a: "fixed n b'" if "cbb_buffer_add h b k = (ok, b')" for k ok b'
    using fixed_add [OF b, of h k] that by simp
  show ?thesis using b
    by (auto simp: flush_prefix_def buf_error_def Let_def then_ok_def intro!: fixed_flush_length fixed_add
        dest: a split: prod.splits bool.splits if_splits)
qed

lemma fixed_flush_chain [keeps_fixed]: "fixed n b \<Longrightarrow> fixed n (snd (flush_chain h b cs))"
proof (induction cs arbitrary: b)
  case (Cons c cs)
  obtain ok b1 where f: "flush_chain h b cs = (ok, b1)" by (cases "flush_chain h b cs")
  then have "fixed n b1" using Cons.IH [OF Cons.prems] by simp
  then show ?case using Cons.prems fixed_flush_prefix [of n b1 h c] f by (simp add: Let_def buf_error_def)
qed simp

lemma fixed_then:
  "fixed n (base (snd r)) \<Longrightarrow> (\<And>s. fixed n (base s) \<Longrightarrow> fixed n (base (snd (g s)))) \<Longrightarrow>
    fixed n (base (snd (then_ok r g)))"
  by (cases r; cases "fst r") auto

lemma fixed_flush [keeps_fixed]: "fixed n (base c) \<Longrightarrow> fixed n (base (snd (CBB_flush c r)))"
  using fixed_flush_chain [of n "base c"] by (auto simp: CBB_flush_def split: option.split prod.split) (metis snd_conv)

lemma fixed_on_error [keeps_fixed]: "fixed n (base c) \<Longrightarrow> fixed n (base (snd (cbb_on_error c r)))"
  by (simp add: cbb_on_error_def)

lemma fixed_or_on_error [keeps_fixed]: "fixed n (base (snd x)) \<Longrightarrow> fixed n (base (snd (or_on_error r x)))"
  using fixed_on_error by (simp add: or_on_error_def)

lemma fixed_space [keeps_fixed]: "fixed n (base c) \<Longrightarrow> fixed n (base (snd (CBB_add_space c r k)))"
  unfolding CBB_add_space_def by (rule fixed_then [OF fixed_flush]) (auto simp: with_buffer_def intro: fixed_add)

lemma fixed_CBB_reserve [keeps_fixed]: "fixed n (base c) \<Longrightarrow> fixed n (base (snd (CBB_reserve c r k)))"
  unfolding CBB_reserve_def by (rule fixed_then [OF fixed_flush]) (auto simp: with_buffer_def intro: fixed_reserve)

lemma fixed_bytes [keeps_fixed]: "fixed n (base c) \<Longrightarrow> fixed n (base (snd (CBB_add_bytes c r d)))"
  unfolding CBB_add_bytes_def by (rule fixed_then [OF fixed_space]) (auto simp: write_added_def)

lemma fixed_zeros [keeps_fixed]: "fixed n (base c) \<Longrightarrow> fixed n (base (snd (CBB_add_zeros c r k)))"
  unfolding CBB_add_zeros_def by (rule fixed_then [OF fixed_space]) (auto simp: write_added_def)

lemma fixed_add_u [keeps_fixed]: "fixed n (base c) \<Longrightarrow> fixed n (base (snd (cbb_add_u c r v k)))"
  unfolding cbb_add_u_def
  by (rule fixed_then [OF fixed_space]) (auto simp: Let_def cbb_on_error_def split: prod.split)

lemma fixed_add_u8 [keeps_fixed]: "fixed n (base c) \<Longrightarrow> fixed n (base (snd (CBB_add_u8 c r b)))"
  unfolding CBB_add_u8_def by (rule fixed_add_u)

lemma fixed_did_write [keeps_fixed]:
  "fixed n (base c) \<Longrightarrow> CBB_did_write c r k = Some (ok, c') \<Longrightarrow> fixed n (base c')"
  by (auto simp: CBB_did_write_def Let_def split: option.splits if_splits)

lemma fixed_add_child [keeps_fixed]: "fixed n (base c) \<Longrightarrow> fixed n (base (snd (cbb_add_child c r p k a)))"
  unfolding cbb_add_child_def Let_def
  by (rule fixed_then) (auto simp: with_buffer_def write_added_def intro: fixed_add)

lemma fixed_prefixed [keeps_fixed]: "fixed n (base c) \<Longrightarrow> fixed n (base (snd (cbb_add_length_prefixed c r p k)))"
  unfolding cbb_add_length_prefixed_def by (rule fixed_then [OF fixed_flush]) (auto intro: fixed_add_child)

lemma fixed_emit [keeps_fixed]: "fixed n (base c) \<Longrightarrow> fixed n (base (snd (emit_bytes (\<lambda>s b. CBB_add_u8 s r b) c bs)))"
proof (induction bs arbitrary: c)
  case (Cons b bs)
  then show ?case unfolding emit_bytes.simps by (intro fixed_then [OF fixed_add_u8]) auto
qed simp

lemma fixed_asn1 [keeps_fixed]: "fixed n (base c) \<Longrightarrow> fixed n (base (snd (CBB_add_asn1 c r p tag)))"
  unfolding add_asn1_unfold by (intro fixed_then fixed_flush fixed_emit fixed_add_child)

lemma fixed_discard [keeps_fixed]: "fixed n (base c) \<Longrightarrow> fixed n (base (CBB_discard_child c r))"
  by (simp add: CBB_discard_child_def split: option.split)

lemma fixed_uint64 [keeps_fixed]: "fixed n (base c) \<Longrightarrow> fixed n (base (snd (CBB_add_asn1_uint64_with_tag c r v tag)))"
  unfolding CBB_add_asn1_uint64_with_tag_def Let_def uint64_bytes
  by (intro fixed_then fixed_or_on_error fixed_asn1 fixed_emit fixed_flush)

lemma fixed_int64 [keeps_fixed]: "fixed n (base c) \<Longrightarrow> fixed n (base (snd (CBB_add_asn1_int64_with_tag c r v tag)))"
  unfolding CBB_add_asn1_int64_with_tag_def Let_def int64_bytes_emit
  using fixed_uint64 [of n c r v tag]
  by (cases "0 \<le> sint v") (simp, simp only: if_False, intro fixed_then fixed_or_on_error fixed_asn1 fixed_emit fixed_flush)

lemma fixed_octets [keeps_fixed]: "fixed n (base c) \<Longrightarrow> fixed n (base (snd (CBB_add_asn1_octet_string c r d)))"
  unfolding CBB_add_asn1_octet_string_def Let_def
  by (intro fixed_then fixed_or_on_error fixed_asn1 fixed_bytes fixed_flush)

lemma fixed_bool [keeps_fixed]: "fixed n (base c) \<Longrightarrow> fixed n (base (snd (CBB_add_asn1_bool c r v)))"
  unfolding CBB_add_asn1_bool_def Let_def
  by (intro fixed_then fixed_or_on_error fixed_asn1 fixed_add_u8 fixed_flush)

lemma step_fixed: "cbb_step c c' \<Longrightarrow> fixed n (base c) \<Longrightarrow> fixed n (base c')"
  by (induction rule: cbb_step.induct)
    (auto intro: keeps_fixed
      simp: CBB_add_u8_def CBB_add_u16_def CBB_add_u24_def CBB_add_u32_def CBB_add_u64_def
        CBB_add_u8_length_prefixed_def CBB_add_u16_length_prefixed_def CBB_add_u24_length_prefixed_def)

lemma steps_fixed: "cbb_step\<^sup>*\<^sup>* c c' \<Longrightarrow> fixed n (base c) \<Longrightarrow> fixed n (base c')"
  by (induction rule: rtranclp_induct) (auto intro: step_fixed)

section \<open>Finishing\<close>

lemma close_Top: "close_at Top w = map_option (\<lambda>ys. (ys, [])) (close_frames (fst w) (snd w))"
  by (cases w) (simp add: close_at_def writer_level_def)

lemma represents_flat: "represents c (ys, []) \<Longrightarrow> content (base c) = ys \<and> chain c = []"
proof -
  assume "represents c (ys, [])"
  then have "layout 0 ys [] (chain c) (content (base c))" by (simp add: represents_def)
  then show ?thesis by (cases "chain c") auto
qed

lemma finish_refines:
  assumes R: "represents cbb w"
  shows "fst (CBB_finish cbb Top want) = Some ys \<Longrightarrow> close_frames (fst w) (snd w) = Some ys"
    and "close_frames (fst w) (snd w) = Some ys \<Longrightarrow> has_room cbb (length ys) \<Longrightarrow> want \<Longrightarrow>
      fst (CBB_finish cbb Top want) = Some ys"
proof -
  obtain ok c where f: "CBB_flush cbb Top = (ok, c)" by (cases "CBB_flush cbb Top")
  have c: "\<exists>ys. close_frames (fst w) (snd w) = Some ys \<and> content (base c) = ys" if ok
    using flush_refines(1) [OF R, of Top c] f that represents_flat by (auto simp: close_Top)
  show "fst (CBB_finish cbb Top want) = Some ys \<Longrightarrow> close_frames (fst w) (snd w) = Some ys"
    using c f by (cases ok) (auto simp: CBB_finish_def content_def split: if_splits)
  show "fst (CBB_finish cbb Top want) = Some ys"
    if "close_frames (fst w) (snd w) = Some ys" "has_room cbb (length ys)" want
  proof -
    have "fst (CBB_flush cbb Top)" by (rule flush_refines(2) [OF R, of Top "(ys, [])"]) (use that in \<open>simp_all add: close_Top\<close>)
    then show ?thesis using c f that by (auto simp: CBB_finish_def content_def)
  qed
qed

lemma init_fixed_represents: "length buf < 2 ^ 64 \<Longrightarrow> represents (CBB_init_fixed h buf) ([], [])"
  by (simp add: represents_def CBB_init_fixed_def cbb_init_def buf_ok_def content_def)

lemma init_fixed_room: "length buf < 2 ^ 64 \<Longrightarrow> has_room (CBB_init_fixed h buf) n \<longleftrightarrow> n \<le> length buf"
  by (auto simp: has_room_def fits_def CBB_init_fixed_def cbb_init_def)

lemma init_represents: "n < 2 ^ 64 \<Longrightarrow> CBB_init h n = Some c \<Longrightarrow> represents c ([], [])"
  by (auto simp: represents_def CBB_init_def cbb_init_def buf_ok_def content_def split: option.splits if_splits)

section \<open>Errors stick\<close>

lemma error_flush: "b_error (base c) \<Longrightarrow> CBB_flush c r = (False, c)"
  by (simp add: CBB_flush_def split: option.split)

lemma error_asn1: "b_error (base c) \<Longrightarrow> CBB_add_asn1 c r p tag = (False, c)"
  by (simp add: CBB_add_asn1_def error_flush)

lemma error_or_on_error: "b_error (base c) \<Longrightarrow> b_error (base (snd (or_on_error r (False, c))))"
  by (simp add: or_on_error_def cbb_on_error_def)

lemma error_or_on_error_fst: "fst (or_on_error r (False, c)) = False"
  by (simp add: or_on_error_def cbb_on_error_def)

lemma step_error: "cbb_step c c' \<Longrightarrow> b_error (base c) \<Longrightarrow> b_error (base c')"
proof (induction rule: cbb_step.induct)
  case (step_did_write n c r ok c')
  then show ?case by (auto simp: CBB_did_write_def Let_def split: option.splits if_splits)
next
  case (step_uint64 c r v tag)
  then show ?case
    using error_or_on_error [of c r] error_or_on_error_fst [of r c]
    by (simp add: CBB_add_asn1_uint64_with_tag_def Let_def error_asn1 then_ok_def)
next
  case (step_int64 c r v tag)
  then show ?case
    using error_or_on_error [of c r] error_or_on_error_fst [of r c]
    by (simp add: CBB_add_asn1_int64_with_tag_def CBB_add_asn1_uint64_with_tag_def Let_def error_asn1 then_ok_def)
qed (auto simp: error_flush error_asn1 error_or_on_error CBB_add_bytes_def CBB_add_zeros_def CBB_add_space_def
      CBB_reserve_def CBB_add_u8_def CBB_add_u16_def CBB_add_u24_def CBB_add_u32_def CBB_add_u64_def cbb_add_u_def
      CBB_add_u8_length_prefixed_def CBB_add_u16_length_prefixed_def CBB_add_u24_length_prefixed_def
      cbb_add_length_prefixed_def CBB_discard_child_def CBB_add_asn1_octet_string_def CBB_add_asn1_bool_def
      Let_def split: option.split)

lemma steps_error: "cbb_step\<^sup>*\<^sup>* c c' \<Longrightarrow> b_error (base c) \<Longrightarrow> b_error (base c')"
  by (induction rule: rtranclp_induct) (auto intro: step_error)

section \<open>Elements lie in the input\<close>

lemma element_at_safe:
  "element_at tag len h br ind cbs = (Some e, rest) \<Longrightarrow> h \<le> len \<Longrightarrow>
    cbs = el_bytes e @ rest \<and> el_header_len e \<le> length (el_bytes e)"
  by (auto simp: element_at_Some)

lemma element_at_None: "element_at tag len h br ind cbs = (None, rest) \<Longrightarrow> rest = cbs"
  by (auto simp: element_at_def split: if_splits)

lemma any_element_safe:
  assumes "cbs_get_any_asn1_element ber_ok cbs = (r, rest)"
  shows "case r of None \<Rightarrow> rest = cbs | Some e \<Rightarrow> cbs = el_bytes e @ rest \<and> el_header_len e \<le> length (el_bytes e)"
proof (cases "\<exists>tag b header. parse_asn1_tag cbs = (Some tag, b # header)")
  case True
  then obtain tag b header where p: "parse_asn1_tag cbs = (Some tag, b # header)" by blast
  show ?thesis
    using assms unfolding any_element_unfold [OF p] Let_def
    by (auto split: option.split if_splits dest: element_at_None element_at_safe)
next
  case False
  then have "r = None" using assms any_element_Some_parts [of ber_ok cbs] by (cases r) blast+
  moreover have "rest = cbs" using assms False
    by (cases "parse_asn1_tag cbs"; cases "fst (parse_asn1_tag cbs)"; cases "snd (parse_asn1_tag cbs)")
      (auto simp: cbs_get_any_asn1_element_def)
  ultimately show ?thesis by simp
qed

end
