(* ===== verification/ByteStringProps.thy ===== *)
theory ByteStringProps
  imports CbbInvariant
begin

text \<open>
  The properties of the byte-string reader and writer.
\<close>

text \<open>
  C8. The DER reader accepts exactly the canonical encodings: \<open>CBS_get_any_asn1\<close> returns tag
  \<open>t\<close> and contents \<open>xs\<close> and leaves \<open>rest\<close> if and only if \<open>t\<close> has a nonzero class or
  number, the contents are shorter than \<open>2 ^ 32\<close> and the input is the one DER encoding of them
  (minimal identifier octets, minimal length octets) followed by \<open>rest\<close>.
\<close>
theorem der_element_exact:
  "CBS_get_any_asn1 cbs = (Some (xs, t), rest) \<longleftrightarrow>
    valid_tag t \<and> length xs < 2 ^ 32 \<and> cbs = der_element t xs @ rest"
  by (rule get_any_asn1_iff)

text \<open>
  C22. INTEGERs are read exactly: \<open>CBS_get_asn1_int64\<close> returns \<open>v\<close> if and only if the input
  starts with the INTEGER whose contents are the shortest two's complement encoding of \<open>v\<close>. There is
  just one such encoding, so every other encoding of a number is refused.
\<close>
theorem int64_exact:
  "(CBS_get_asn1_int64 cbs = (Some v, rest) \<longleftrightarrow>
      (\<exists>bs. shortest_int bs \<and> int_be bs = sint v \<and> cbs = der_element CBS_ASN1_INTEGER bs @ rest)) \<and>
   (\<exists>!bs. shortest_int bs \<and> int_be bs = sint v)"
  using get_int64_iff [of cbs v rest] sint_bytes [of v] shortest_int_unique by metis



text \<open>
  C5. \<open>CBB_flush\<close> refines the abstract writer: from a state that represents the writer
  \<open>w\<close>, a flush of \<open>r\<close> that succeeds leaves the state of \<open>w\<close> with all frames above
  \<open>r\<close> closed, each with its length in front; and it only fails when \<open>r\<close> is detached, a prefix
  is too small for its contents, or the buffer cannot grow to the size of the result.
\<close>
theorem cbb_flush_refines:
  assumes "represents cbb w" "CBB_flush cbb r = (ok, cbb')"
  shows "if ok then \<exists>w'. close_at r w = Some w' \<and> represents cbb' w'
    else \<forall>w'. close_at r w = Some w' \<longrightarrow> \<not> has_room cbb (extent w')"
  using flush_refines(1) [OF assms(1), of r cbb'] flush_refines(2) [OF assms(1), of r] assms(2) by auto

theorem cbb_flush_refines_witness:
  "represents (snd (CBB_flush (CBB_init_fixed (\<lambda>_. None) [0, 0]) Top)) ([], [])"
proof -
  let ?c = "CBB_init_fixed (\<lambda>_. None) [0, 0 :: u8]"
  have r: "represents ?c ([], [])" by (rule init_fixed_represents) simp
  have f: "CBB_flush ?c Top = (True, ?c)"
    by (simp add: CBB_flush_def cbb_level_def CBB_init_fixed_def cbb_init_def)
  show ?thesis using cbb_flush_refines [OF r f] by (simp add: close_Top f)
qed

text \<open>
  C31. Appending bytes refines the abstract writer: \<open>CBB_add_bytes\<close> on \<open>r\<close> first closes the
  children of \<open>r\<close> and then appends exactly the given bytes to \<open>r\<close>, and it succeeds whenever
  the buffer can grow to the size of the result.
\<close>
theorem cbb_add_bytes_refines:
  assumes "represents cbb w" "length d < 2 ^ 64" "CBB_add_bytes cbb r d = (ok, cbb')"
  shows "if ok then \<exists>w'. close_at r w = Some w' \<and> represents cbb' (append_inner d w')
    else \<forall>w'. close_at r w = Some w' \<longrightarrow> \<not> has_room cbb (extent w' + length d)"
  using add_bytes_refines(1) [OF assms(1,2), of r cbb'] add_bytes_refines(2) [OF assms(1,2), of r] assms(3)
  by auto

theorem cbb_add_bytes_refines_witness:
  "represents (snd (CBB_add_bytes (CBB_init_fixed (\<lambda>_. None) [0, 0]) Top [7])) ([7], [])"
proof -
  let ?c = "CBB_init_fixed (\<lambda>_. None) [0, 0 :: u8]"
  have r: "represents ?c ([], [])" by (rule init_fixed_represents) simp
  have f: "fst (CBB_add_bytes ?c Top [7])"
    by (simp add: CBB_add_bytes_def CBB_add_space_def CBB_flush_def cbb_level_def CBB_init_fixed_def cbb_init_def
        with_buffer_def cbb_buffer_add_def cbb_buffer_reserve_def)
  have eq: "CBB_add_bytes ?c Top [7] = (True, snd (CBB_add_bytes ?c Top [7]))" using f by (metis prod.collapse)
  show ?thesis using cbb_add_bytes_refines [OF r _ eq] by (simp add: close_Top)
qed

text \<open>
  C33. What is written is read back: a signed number written with \<open>CBB_add_asn1_int64\<close> into a fixed
  buffer of at least 11 bytes succeeds, \<open>CBB_finish\<close> yields the bytes, and
  \<open>CBS_get_asn1_int64\<close> reads the same number from them and leaves nothing.
\<close>
theorem int64_written_read:
  assumes "11 \<le> length buf" "length buf < 2 ^ 64"
  shows "\<exists>c bs. CBB_add_asn1_int64 (CBB_init_fixed h buf) Top v = (True, c) \<and>
    fst (CBB_finish c Top True) = Some bs \<and> length bs \<le> 11 \<and> CBS_get_asn1_int64 bs = (Some v, [])"
proof -
  let ?c = "CBB_init_fixed h buf" and ?bs = "der_element CBS_ASN1_INTEGER (sint_bytes v)"
  have R: "represents ?c ([], [])" by (rule init_fixed_represents [OF assms(2)])
  have tag: "der_tag 2 = [2]" by (simp add: der_tag_def byte_of_def)
  have l: "length ?bs \<le> 11"
    using length_sint_bytes [of v] by (simp add: length_der_element tag length_der_length)
  note W = add_int64_writes [of ?c Top v CBS_ASN1_INTEGER, unfolded writes_element_def, rule_format, OF R]
  have cl: "close_at Top ([], []) = Some ([], [])" by (simp add: close_Top)
  have "has_room ?c (extent ([], []) + length ?bs)" using l assms by (simp add: init_fixed_room)
  then have "fst (CBB_add_asn1_int64 ?c Top v)"
    using W cl unfolding CBB_add_asn1_int64_def by blast
  then obtain c where c: "CBB_add_asn1_int64 ?c Top v = (True, c)" by (cases "CBB_add_asn1_int64 ?c Top v") auto
  then have r: "represents c (?bs, [])" "extends ?c c"
    using W cl unfolding CBB_add_asn1_int64_def by auto
  have "has_room c (length ?bs)" using has_room_extends [OF r(2)] l assms by (simp add: init_fixed_room)
  then have "fst (CBB_finish c Top True) = Some ?bs" by (intro finish_refines(2) [OF r(1)]) simp_all
  moreover have "CBS_get_asn1_int64 ?bs = (Some v, [])" using get_int64_iff [of ?bs v "[]"] sint_bytes [of v] by auto
  ultimately show ?thesis using c l by blast
qed

theorem int64_written_read_witness:
  "\<exists>c bs. CBB_add_asn1_int64 (CBB_init_fixed (\<lambda>_. None) (replicate 11 0)) Top (- 300) = (True, c) \<and>
    fst (CBB_finish c Top True) = Some bs \<and> length bs \<le> 11 \<and> CBS_get_asn1_int64 bs = (Some (- 300), [])"
  by (rule int64_written_read) simp_all





text \<open>
  C35. Errors are never lost: once a call has recorded an error, no sequence of further calls (not even
  discarding the child at fault) makes \<open>CBB_finish\<close> hand out bytes.
\<close>
theorem cbb_error_sticks:
  assumes "b_error (base c)" "cbb_step\<^sup>*\<^sup>* c c'"
  shows "CBB_finish c' r want = (None, c')"
  using steps_error [OF assms(2,1)] by (simp add: CBB_finish_def error_flush)

theorem cbb_error_sticks_witness:
  "let c = snd (CBB_add_bytes (CBB_init_fixed (\<lambda>_. None) [0]) Top [1, 2])
   in CBB_finish (snd (CBB_add_u8 c Top 1)) Top True = (None, snd (CBB_add_u8 c Top 1))"
proof -
  let ?c = "snd (CBB_add_bytes (CBB_init_fixed (\<lambda>_. None) [0 :: u8]) Top [1, 2])"
  have "b_error (base ?c)"
    by (simp add: CBB_add_bytes_def CBB_add_space_def CBB_flush_def cbb_level_def CBB_init_fixed_def cbb_init_def
        with_buffer_def cbb_buffer_add_def cbb_buffer_reserve_def)
  moreover have "cbb_step\<^sup>*\<^sup>* ?c (snd (CBB_add_u8 ?c Top 1))" by (rule r_into_rtranclp, rule step_u8)
  ultimately show ?thesis unfolding Let_def by (rule cbb_error_sticks)
qed

text \<open>
  C36. \<open>CBB_discard_child\<close> undoes a child: it drops the frames above \<open>r\<close> with everything
  written to them, and the bytes of \<open>r\<close> itself and of the frames below stay as they were.
\<close>
theorem cbb_discard_restores:
  assumes "represents cbb w" "writer_level w r = Some k" "k < length (snd w)"
  shows "represents (CBB_discard_child cbb r) (fst w, take k (snd w))"
  using assms by (rule discard_represents)

theorem cbb_discard_restores_witness:
  "\<exists>c. represents c ([], [(1, Prefixed 1, [])]) \<and> represents (CBB_discard_child c Top) ([], [])"
proof -
  let ?c = "CBB_init_fixed (\<lambda>_. None) [0 :: u8, 0]"
  have R: "represents ?c ([], [])" by (rule init_fixed_represents) simp
  have "fst (cbb_add_length_prefixed ?c Top 1 1)"
    by (rule add_length_prefixed_refines(2) [OF R _ close_at_inner])
      (simp_all add: writer_level_def init_fixed_room)
  then obtain c where c: "cbb_add_length_prefixed ?c Top 1 1 = (True, c)"
    by (cases "cbb_add_length_prefixed ?c Top 1 1") auto
  have w: "represents c ([], [(1, Prefixed 1, [])])"
    using add_length_prefixed_refines(1) [OF R _ c] by (auto simp: close_Top)
  show ?thesis using cbb_discard_restores [OF w, of Top 0] w by (auto simp: writer_level_def)
qed

end
