(* ===== verification/OidText.thy ===== *)
theory OidText
  imports CbbInvariant
begin

text \<open>
  Object identifiers as text: \<open>CBS_asn1_oid_to_text\<close> of \<open>cbs.c\<close> and
  \<open>CBB_add_asn1_oid_from_text\<close> of \<open>cbb.c\<close>, with the facts on decimal numbers that they need.
\<close>

section \<open>Reading text\<close>

text \<open>A dot is byte 46.\<close>

definition parse_dotted_decimal :: "cbs \<Rightarrow> u64 option \<times> cbs" where
  "parse_dotted_decimal cbs =
    get_then (CBS_get_u64_decimal cbs) (\<lambda>v cbs.
      case CBS_get_u8 cbs of
        (None, cbs) \<Rightarrow> (Some v, cbs)
      | (Some dot, cbs) \<Rightarrow> if dot = 46 \<and> length cbs > 0 then (Some v, cbs) else (None, cbs))"

lemma decimal_loop_length: "length (snd (u64_decimal_loop v seen cbs)) \<le> length cbs"
  by (induction v seen cbs rule: u64_decimal_loop.induct) (auto simp: Let_def)

lemma decimal_shorter:
  assumes "CBS_get_u64_decimal cbs = (Some v, rest)"
  shows "length rest < length cbs"
proof (cases cbs)
  case (Cons c xs)
  obtain v' where "u64_decimal_loop v' True xs = (Some v, rest)"
    using assms Cons by (auto simp: CBS_get_u64_decimal_def Let_def split: if_splits)
  then show ?thesis using decimal_loop_length [of v' True xs] Cons by simp
qed (use assms in \<open>simp add: CBS_get_u64_decimal_def\<close>)

lemma dotted_decimal_shorter:
  assumes "parse_dotted_decimal cbs = (Some v, rest)"
  shows "length rest < length cbs"
proof -
  obtain y where y: "CBS_get_u64_decimal cbs = (Some v, y)" "length rest \<le> length y"
    using assms unfolding parse_dotted_decimal_def
  proof (rule get_then_SomeE)
    fix x s
    assume "CBS_get_u64_decimal cbs = (Some x, s)"
      "(case CBS_get_u8 s of (None, cbs) \<Rightarrow> (Some x, cbs)
        | (Some dot, cbs) \<Rightarrow> if dot = 46 \<and> length cbs > 0 then (Some x, cbs) else (None, cbs)) = (Some v, rest)"
    then show thesis using that by (cases s) (auto split: if_splits)
  qed
  then show ?thesis using decimal_shorter [OF y(1)] by simp
qed

function oid_components :: "cbb \<Rightarrow> cbb_ref \<Rightarrow> cbs \<Rightarrow> bool \<times> cbb" where
  "oid_components cbb r cbs =
    (if cbs = [] then (True, cbb)
     else
       case parse_dotted_decimal cbs of
         (None, _) \<Rightarrow> (False, cbb)
       | (Some a, cbs) \<Rightarrow> then_ok (add_base128_integer cbb r a) (\<lambda>cbb. oid_components cbb r cbs))"
  by pat_completeness auto
termination
  by (relation "measure (\<lambda>(cbb, r, cbs). length cbs)") (auto dest: dotted_decimal_shorter [OF sym])

declare oid_components.simps [simp del]

definition CBB_add_asn1_oid_from_text :: "cbb \<Rightarrow> cbb_ref \<Rightarrow> u8 list \<Rightarrow> bool \<times> cbb" where
  "CBB_add_asn1_oid_from_text cbb r txt =
    then_ok (CBB_flush cbb r) (\<lambda>cbb.
      case parse_dotted_decimal txt of
        (None, _) \<Rightarrow> (False, cbb)
      | (Some a, cbs) \<Rightarrow>
      (case parse_dotted_decimal cbs of
        (None, _) \<Rightarrow> (False, cbb)
      | (Some b, cbs) \<Rightarrow>
        if a > 2 \<or> (a < 2 \<and> b > 39) \<or> b > UINT64_MAX - 80 then (False, cbb)
        else then_ok (add_base128_integer cbb r (40 * a + b)) (\<lambda>cbb. oid_components cbb r cbs)))"

section \<open>Writing text\<close>

text \<open>The output of \<open>snprintf\<close> for a \<open>PRIu64\<close> value.\<close>

fun decimal_digits :: "nat \<Rightarrow> u8 list" where
  "decimal_digits n = (if n < 10 then [byte_of (48 + n)] else decimal_digits (n div 10) @ [byte_of (48 + n mod 10)])"

declare decimal_digits.simps [simp del]

definition add_decimal :: "cbb \<Rightarrow> cbb_ref \<Rightarrow> u64 \<Rightarrow> bool \<times> cbb" where
  "add_decimal out r v = CBB_add_bytes out r (decimal_digits (unat v))"

lemma base128_loop_shorter: "parse_base128_loop v cbs = (Some w, rest) \<Longrightarrow> length rest < length cbs"
proof (induction v cbs rule: parse_base128_loop.induct)
  case (2 v b cbs)
  then show ?case by (auto simp: parse_base128_loop.simps(2) Let_def split: if_splits)
qed simp

lemma base128_shorter: "parse_base128_integer cbs = (Some v, rest) \<Longrightarrow> length rest < length cbs"
  using base128_loop_shorter by (simp add: parse_base128_integer_def)

function oid_text_loop :: "cbb \<Rightarrow> cbs \<Rightarrow> bool \<times> cbb" where
  "oid_text_loop cbb copy =
    (if copy = [] then (True, cbb)
     else
       case parse_base128_integer copy of
         (None, _) \<Rightarrow> (False, cbb)
       | (Some v, copy) \<Rightarrow>
           then_ok (CBB_add_u8 cbb Top 46) (\<lambda>cbb.
             then_ok (add_decimal cbb Top v) (\<lambda>cbb. oid_text_loop cbb copy)))"
  by pat_completeness auto
termination
  by (relation "measure (\<lambda>(cbb, copy). length copy)") (auto dest: base128_shorter [OF sym])

declare oid_text_loop.simps [simp del]

text \<open>The text with its NUL, or nothing.\<close>

definition CBS_asn1_oid_to_text :: "(nat \<Rightarrow> u8 option) \<Rightarrow> cbs \<Rightarrow> u8 list option" where
  "CBS_asn1_oid_to_text h cbs =
    (case CBB_init h 32 of
       None \<Rightarrow> None
     | Some cbb \<Rightarrow>
       (case parse_base128_integer cbs of
          (None, _) \<Rightarrow> None
        | (Some v, copy) \<Rightarrow>
          let res =
            then_ok
              (if v \<ge> 80 then
                 then_ok (CBB_add_bytes cbb Top [50, 46]) (\<lambda>cbb. add_decimal cbb Top (v - 80))
               else
                 then_ok (add_decimal cbb Top (v div 40)) (\<lambda>cbb.
                   then_ok (CBB_add_u8 cbb Top 46) (\<lambda>cbb. add_decimal cbb Top (v mod 40))))
              (\<lambda>cbb. then_ok (oid_text_loop cbb copy) (\<lambda>cbb. CBB_add_u8 cbb Top 0))
          in if fst res then fst (CBB_finish (snd res) Top True) else None))"

section \<open>Decimal numbers\<close>

lemma decimal_step:
  assumes "unat (v :: u64) * 10 + d < 2 ^ 64" "d < 10" "\<not> (v = 0 \<and> seen)"
  shows "u64_decimal_loop v seen (byte_of (48 + d) # cbs) = u64_decimal_loop (word_of_nat (unat v * 10 + d)) True cbs"
proof -
  have dig: "OPENSSL_isdigit (byte_of (48 + d))"
    using assms(2) by (simp add: OPENSSL_isdigit_def word_le_nat_alt)
  have ud: "unat (to_u64 (byte_of (48 + d)) - 48) = d"
    using unat_minus_word_of_nat [of 48 "to_u64 (byte_of (48 + d))"] assms(2) by simp
  have m: "unat (UINT64_MAX :: u64) = 2 ^ 64 - 1" by (simp add: unsigned_minus_1_eq_mask mask_eq_exp_minus_1)
  have le1: "unat v \<le> (2 ^ 64 - 1) div 10" using assms(1) by linarith
  have "unat (UINT64_MAX div 10 :: u64) = (2 ^ 64 - 1) div 10" by (simp only: unat_div m) simp
  then have c1: "\<not> v > UINT64_MAX div 10" using le1 by (simp add: word_less_nat_alt)
  have v10: "unat (v * 10) = unat v * 10" using assms(1) by (simp add: unat_word_ariths)
  have md: "unat (UINT64_MAX - (to_u64 (byte_of (48 + d)) - 48)) = 2 ^ 64 - 1 - d"
    using unat_minus_word_of_nat [of d "UINT64_MAX :: u64"] assms(2) by (simp add: m word_of_unatI [OF ud])
  have c2: "\<not> v * 10 > UINT64_MAX - (to_u64 (byte_of (48 + d)) - 48)"
    unfolding word_less_nat_alt v10 md using assms(1) by simp
  have "unat (v * 10 + (to_u64 (byte_of (48 + d)) - 48)) = unat v * 10 + d"
    using assms(1) unat_add_lem [of "v * 10" "to_u64 (byte_of (48 + d)) - 48"] unfolding v10 ud by simp
  then have w: "v * 10 + (to_u64 (byte_of (48 + d)) - 48) = word_of_nat (unat v * 10 + d)" by (rule word_of_unatI)
  show ?thesis
    using dig c1 c2 assms(3) unfolding u64_decimal_loop.simps Let_def w by (simp only: if_False if_True simp_thms)
qed

lemma decimal_loop_digits:
  "n < 2 ^ 64 \<Longrightarrow> u64_decimal_loop 0 False (decimal_digits n @ cbs) = u64_decimal_loop (word_of_nat n) True cbs"
proof (induction n arbitrary: cbs rule: decimal_digits.induct)
  case (1 n)
  show ?case
  proof (cases "n < 10")
    case True
    then have "decimal_digits n @ cbs = byte_of (48 + n) # cbs" by (subst decimal_digits.simps) simp
    then show ?thesis using decimal_step [of 0 n False cbs] True by simp
  next
    case False
    then have d: "decimal_digits n @ cbs = decimal_digits (n div 10) @ byte_of (48 + n mod 10) # cbs"
      by (subst decimal_digits.simps) simp
    have q: "n div 10 < 2 ^ 64" using 1(2) by simp
    have u: "unat (word_of_nat (n div 10) :: u64) = n div 10" using q by simp
    have nz: "(word_of_nat (n div 10) :: u64) \<noteq> 0"
      using u False by (metis div_greater_zero_iff less_irrefl linorder_not_less unat_0 zero_less_numeral)
    show ?thesis
      unfolding d 1(1) [OF False q]
      using decimal_step [of "word_of_nat (n div 10)" "n mod 10" True cbs] nz 1(2) unfolding u by simp
  qed
qed

lemma get_decimal_digits:
  assumes "n < 2 ^ 64" "cbs = [] \<or> \<not> OPENSSL_isdigit (hd cbs)"
  shows "CBS_get_u64_decimal (decimal_digits n @ cbs) = (Some (word_of_nat n), cbs)"
  using assms decimal_loop_digits [OF assms(1), of cbs]
  by (cases cbs) (simp_all add: CBS_get_u64_decimal_def)

section \<open>Dotted text\<close>

fun dotted :: "nat list \<Rightarrow> u8 list" where
  "dotted [] = []"
| "dotted [n] = decimal_digits n"
| "dotted (n # ns) = decimal_digits n @ 46 # dotted ns"

lemma digits_not_Nil [simp]: "decimal_digits n \<noteq> []"
  by (subst decimal_digits.simps) simp

lemma dotted_not_Nil: "ns \<noteq> [] \<Longrightarrow> dotted ns \<noteq> []"
  by (induction ns rule: dotted.induct) simp_all

lemma parse_dotted:
  assumes "n < 2 ^ 64"
  shows "parse_dotted_decimal (dotted (n # ns)) = (Some (word_of_nat n), dotted ns)"
proof (cases ns)
  case Nil
  then show ?thesis using get_decimal_digits [OF assms, of "[]"] by (simp add: parse_dotted_decimal_def)
next
  case (Cons m ms)
  have "\<not> OPENSSL_isdigit 46" by (simp add: OPENSSL_isdigit_def)
  then show ?thesis
    using get_decimal_digits [OF assms, of "46 # dotted ns"] dotted_not_Nil [of ns] Cons
    by (simp add: parse_dotted_decimal_def)
qed

lemma oid_components_emit:
  "\<forall>n \<in> set ns. n < 2 ^ 64 \<Longrightarrow>
    oid_components cbb r (dotted ns) = emit_bytes (\<lambda>s b. CBB_add_u8 s r b) cbb (concat (map b128 ns))"
proof (induction ns arbitrary: cbb)
  case Nil
  then show ?case by (subst oid_components.simps) simp
next
  case (Cons n ns)
  have p: "parse_dotted_decimal (dotted (n # ns)) = (Some (word_of_nat n), dotted ns)"
    by (rule parse_dotted) (use Cons.prems in simp)
  have u: "unat (word_of_nat n :: u64) = n" using Cons.prems by simp
  have IH: "(\<lambda>cbb. oid_components cbb r (dotted ns)) = (\<lambda>cbb. emit_bytes (\<lambda>s b. CBB_add_u8 s r b) cbb (concat (map b128 ns)))"
    using Cons by auto
  show ?case
    unfolding oid_components.simps [of cbb r "dotted (n # ns)"] p option.case prod.case add_base128_b128 u IH
    using dotted_not_Nil [of "n # ns"] by (simp add: emit_bytes_append)
qed

section \<open>Composed writers\<close>

lemma appends_then:
  assumes f: "appends f r xs" and g: "appends g r ys"
  shows "appends (\<lambda>s. then_ok (f s) g) r (xs @ ys)"
  unfolding appends_def
proof (intro allI impI)
  fix s w
  assume R: "represents s w" and l: "writer_level w r = Some (length (snd w))"
  note F = f [unfolded appends_def, rule_format, OF R l]
  have G: "(\<forall>s'. g t = (True, s') \<longrightarrow> represents s' (append_inner ys (append_inner xs w)) \<and> extends t s') \<and>
      (has_room t (extent (append_inner xs w) + length ys) \<longrightarrow> fst (g t))" if "f s = (True, t)" for t
  proof -
    have "represents t (append_inner xs w)" using F that by blast
    moreover have "writer_level (append_inner xs w) r = Some (length (snd (append_inner xs w)))" using l by simp
    ultimately show ?thesis using g [unfolded appends_def] by blast
  qed
  show "(\<forall>s'. then_ok (f s) g = (True, s') \<longrightarrow> represents s' (append_inner (xs @ ys) w) \<and> extends s s') \<and>
      (has_room s (extent w + length (xs @ ys)) \<longrightarrow> fst (then_ok (f s) g))"
  proof (intro conjI allI impI)
    fix s'
    assume "then_ok (f s) g = (True, s')"
    then obtain t where t: "f s = (True, t)" "g t = (True, s')" by (rule then_ok_TrueE)
    have "represents s' (append_inner ys (append_inner xs w))" using G [OF t(1)] t(2) by blast
    then show "represents s' (append_inner (xs @ ys) w)" by (simp only: append_inner_append)
    show "extends s s'" using F G [OF t(1)] t extends_trans by blast
  next
    assume room: "has_room s (extent w + length (xs @ ys))"
    then have "has_room s (extent w + length xs)" by (rule has_room_mono) simp
    then have "fst (f s)" using F by blast
    then obtain t where t: "f s = (True, t)" by (cases "f s") auto
    then have "extends s t" using F by blast
    then have "has_room t (extent (append_inner xs w) + length ys)"
      using room has_room_extends by (simp add: add.assoc)
    then show "fst (then_ok (f s) g)" using G [OF t] t by simp
  qed
qed

lemma appends_ok: "appends (\<lambda>s. (True, s)) r []"
  by (simp add: appends_def)

lemma length_decimal: "n < 10 ^ k \<Longrightarrow> 1 \<le> k \<Longrightarrow> length (decimal_digits n) \<le> k"
proof (induction k arbitrary: n)
  case (Suc k)
  show ?case
  proof (cases "n < 10")
    case True
    then show ?thesis by (subst decimal_digits.simps) simp
  next
    case False
    then have "1 \<le> k" using Suc.prems(1) by (cases k) simp_all
    moreover have "n div 10 < 10 ^ k" using Suc.prems(1) by (simp add: less_mult_imp_div_less mult.commute)
    ultimately show ?thesis using Suc.IH [of "n div 10"] False by (subst decimal_digits.simps) simp
  qed
qed simp

lemma appends_decimal: "appends (\<lambda>s. add_decimal s r v) r (decimal_digits (unat v))"
proof -
  have "unat v < 10 ^ 20" using unat_lt_u64 [of v] by simp
  then have "length (decimal_digits (unat v)) \<le> 20" by (rule length_decimal) simp
  then show ?thesis unfolding add_decimal_def by (intro appends_bytes) simp
qed

lemma oid_text_loop_appends:
  "\<forall>n \<in> set ns. n < 2 ^ 64 \<Longrightarrow>
    appends (\<lambda>s. oid_text_loop s (concat (map b128 ns))) Top (concat (map (\<lambda>n. 46 # decimal_digits n) ns))"
proof (induction ns)
  case Nil
  have "(\<lambda>s. oid_text_loop s []) = (\<lambda>s. (True, s))" by (simp add: oid_text_loop.simps)
  then show ?case using appends_ok by simp
next
  case (Cons n ns)
  have p: "parse_base128_integer (b128 n @ concat (map b128 ns)) = (Some (word_of_nat n), concat (map b128 ns))"
    by (rule parse_base128_b128) (use Cons.prems in simp)
  have nn: "b128 n \<noteq> []" by (simp add: b128_def)
  have u: "unat (word_of_nat n :: u64) = n" using Cons.prems by simp
  have l: "(\<lambda>s. oid_text_loop s (b128 n @ concat (map b128 ns))) =
     (\<lambda>s. then_ok (CBB_add_u8 s Top 46) (\<lambda>s. then_ok (add_decimal s Top (word_of_nat n))
        (\<lambda>s. oid_text_loop s (concat (map b128 ns)))))"
    by (rule ext, subst oid_text_loop.simps) (simp add: p nn)
  have "appends (\<lambda>s. then_ok (CBB_add_u8 s Top 46) (\<lambda>s. then_ok (add_decimal s Top (word_of_nat n))
        (\<lambda>s. oid_text_loop s (concat (map b128 ns))))) Top
      ([46] @ decimal_digits (unat (word_of_nat n :: u64)) @ concat (map (\<lambda>n. 46 # decimal_digits n) ns))"
    by (intro appends_then appends_u8 appends_decimal) (use Cons in simp)
  then show ?case unfolding list.map concat.simps l u by simp
qed

lemma oid_text_loop_parsed:
  "oid_text_loop cbb copy = (True, c) \<Longrightarrow> \<exists>ns. (\<forall>n \<in> set ns. n < 2 ^ 64) \<and> copy = concat (map b128 ns)"
proof (induction cbb copy rule: oid_text_loop.induct)
  case (1 cbb copy)
  show ?case
  proof (cases "copy = []")
    case True
    then show ?thesis by (intro exI [of _ "[]"]) simp
  next
    case False
    then obtain v rest s t where p: "parse_base128_integer copy = (Some v, rest)"
      "CBB_add_u8 cbb Top 46 = (True, s)" "add_decimal s Top v = (True, t)" "oid_text_loop t rest = (True, c)"
      using 1(2) by (subst (asm) oid_text_loop.simps) (auto split: prod.splits option.splits elim!: then_ok_TrueE)
    obtain ns where ns: "\<forall>n \<in> set ns. n < 2 ^ 64" "rest = concat (map b128 ns)"
      using 1(1) [OF False _ _ p(4)] p by auto
    have "copy = concat (map b128 (unat v # ns))" using parse_base128_canonical [OF p(1)] ns(2) by simp
    moreover have "\<forall>n \<in> set (unat v # ns). n < 2 ^ 64" using ns(1) unat_lt_u64 by simp
    ultimately show ?thesis by blast
  qed
qed

section \<open>Round trip\<close>

definition first_components :: "nat \<Rightarrow> nat list" where
  "first_components v = (if v \<ge> 80 then [2, v - 80] else [v div 40, v mod 40])"

lemma dotted_concat: "dotted (n # ns) = decimal_digits n @ concat (map (\<lambda>n. 46 # decimal_digits n) ns)"
  by (induction ns arbitrary: n) simp_all

lemma digits_2: "decimal_digits 2 = [50]"
  by (subst decimal_digits.simps) (simp add: byte_of_def)

lemma u64_less_80: "v \<ge> 80 \<longleftrightarrow> 80 \<le> unat (v :: u64)"
  by (simp add: word_le_nat_alt)

lemma first_text_appends:
  "appends (\<lambda>s. if v \<ge> 80 then then_ok (CBB_add_bytes s Top [50, 46]) (\<lambda>s. add_decimal s Top (v - 80))
      else then_ok (add_decimal s Top (v div 40)) (\<lambda>s. then_ok (CBB_add_u8 s Top 46) (\<lambda>s. add_decimal s Top (v mod 40))))
    Top (dotted (first_components (unat v)))"
proof (cases "v \<ge> 80")
  case True
  have "unat (v - 80) = unat v - 80" using unat_minus_word_of_nat [of 80 v] True by (simp add: u64_less_80)
  then have d: "dotted (first_components (unat v)) = [50, 46] @ decimal_digits (unat (v - 80))"
    using True by (simp add: first_components_def u64_less_80 digits_2)
  show ?thesis
    unfolding d if_P [OF True] by (intro appends_then appends_bytes appends_decimal) simp
next
  case False
  have "unat (v div 40) = unat v div 40" "unat (v mod 40) = unat v mod 40" by (simp_all add: unat_div unat_mod)
  then have d: "dotted (first_components (unat v)) = decimal_digits (unat (v div 40)) @ [46] @ decimal_digits (unat (v mod 40))"
    using False by (simp add: first_components_def u64_less_80)
  show ?thesis
    unfolding d if_not_P [OF False] by (intro appends_then appends_decimal appends_u8)
qed

lemma oid_to_text_dotted:
  assumes "CBS_asn1_oid_to_text h oid = Some t"
  shows "\<exists>v ns. v < 2 ^ 64 \<and> (\<forall>n \<in> set ns. n < 2 ^ 64) \<and> oid = concat (map b128 (v # ns)) \<and>
    t = dotted (first_components v @ ns) @ [0]"
proof -
  let ?first = "\<lambda>v s. if v \<ge> 80 then then_ok (CBB_add_bytes s Top [50, 46]) (\<lambda>s. add_decimal s Top (v - 80))
      else then_ok (add_decimal s Top (v div 40)) (\<lambda>s. then_ok (CBB_add_u8 s Top 46) (\<lambda>s. add_decimal s Top (v mod 40)))"
  obtain c v copy where c: "CBB_init h 32 = Some c" "parse_base128_integer oid = (Some v, copy)"
    using assms by (auto simp: CBS_asn1_oid_to_text_def split: option.splits prod.splits)
  obtain d where d: "then_ok (?first v c) (\<lambda>s. then_ok (oid_text_loop s copy) (\<lambda>s. CBB_add_u8 s Top 0)) = (True, d)"
    "fst (CBB_finish d Top True) = Some t"
  proof -
    let ?r = "then_ok (?first v c) (\<lambda>s. then_ok (oid_text_loop s copy) (\<lambda>s. CBB_add_u8 s Top 0))"
    have "(if fst ?r then fst (CBB_finish (snd ?r) Top True) else None) = Some t"
      using assms unfolding CBS_asn1_oid_to_text_def c option.case prod.case Let_def .
    then show thesis using that [of "snd ?r"] by (cases ?r) (simp split: if_splits)
  qed
  obtain s s' where s: "?first v c = (True, s)" "oid_text_loop s copy = (True, s')"
    using d(1) by (auto elim!: then_ok_TrueE)
  obtain ns where ns: "\<forall>n \<in> set ns. n < 2 ^ 64" "copy = concat (map b128 ns)"
    using oid_text_loop_parsed [OF s(2)] by blast
  let ?t = "dotted (first_components (unat v)) @ concat (map (\<lambda>n. 46 # decimal_digits n) ns) @ [0]"
  have a: "appends (\<lambda>c. then_ok (?first v c) (\<lambda>s. then_ok (oid_text_loop s copy) (\<lambda>s. CBB_add_u8 s Top 0))) Top ?t"
    unfolding ns(2) by (intro appends_then first_text_appends oid_text_loop_appends ns(1) appends_u8)
  have R: "represents c ([], [])" by (rule init_represents [OF _ c(1)]) simp
  have "represents d (append_inner ?t ([], []))"
    using a [unfolded appends_def, rule_format, OF R] d(1) by (auto simp: writer_level_def)
  then have "t = ?t" using finish_refines(1) [OF _ d(2)] by fastforce
  also have "?t = dotted (first_components (unat v) @ ns) @ [0]"
    by (simp add: first_components_def dotted_concat)
  finally have "t = dotted (first_components (unat v) @ ns) @ [0]" .
  moreover have "oid = concat (map b128 (unat v # ns))" using parse_base128_canonical [OF c(2)] ns(2) by simp
  ultimately show ?thesis using ns(1) unat_lt_u64 [of v] by blast
qed

lemma first_components_word:
  assumes "v < 2 ^ 64" "first_components v = [a, b]"
  shows "a < 2 ^ 64" "b < 2 ^ 64" "unat (40 * word_of_nat a + word_of_nat b :: u64) = v"
    "\<not> (word_of_nat a > (2 :: u64) \<or> (word_of_nat a < (2 :: u64) \<and> word_of_nat b > (39 :: u64)) \<or>
        word_of_nat b > (UINT64_MAX - 80 :: u64))"
proof -
  have ab: "a \<le> 2" "40 * a + b = v" "a < 2 \<longrightarrow> b \<le> 39" "b + 80 < 2 ^ 64"
    using assms by (auto simp: first_components_def less_mult_imp_div_less div_le_mono split: if_splits)
  show a: "a < 2 ^ 64" and b: "b < 2 ^ 64" using ab by simp_all
  have u: "unat (word_of_nat a :: u64) = a" "unat (word_of_nat b :: u64) = b" using a b by simp_all
  have m: "unat (UINT64_MAX - 80 :: u64) = 2 ^ 64 - 81"
    using unat_minus_word_of_nat [of 80 "UINT64_MAX :: u64"]
    by (simp add: unsigned_minus_1_eq_mask mask_eq_exp_minus_1)
  show "unat (40 * word_of_nat a + word_of_nat b :: u64) = v"
  proof -
    have "(40 * word_of_nat a + word_of_nat b :: u64) = word_of_nat (40 * a + b)" by simp
    then show ?thesis using ab assms(1) unat_word_of_nat_u64 [of v] by metis
  qed
  show "\<not> (word_of_nat a > (2 :: u64) \<or> (word_of_nat a < (2 :: u64) \<and> word_of_nat b > (39 :: u64)) \<or>
        word_of_nat b > (UINT64_MAX - 80 :: u64))"
    unfolding word_less_nat_alt m u using ab by auto
qed

lemma oid_from_dotted:
  assumes "v < 2 ^ 64" "\<forall>n \<in> set ns. n < 2 ^ 64"
  shows "CBB_add_asn1_oid_from_text cbb r (dotted (first_components v @ ns)) =
    then_ok (CBB_flush cbb r) (\<lambda>c. emit_bytes (\<lambda>s b. CBB_add_u8 s r b) c (concat (map b128 (v # ns))))"
proof -
  obtain a b where ab: "first_components v = [a, b]" by (cases "v \<ge> 80") (auto simp: first_components_def)
  note w = first_components_word [OF assms(1) ab]
  have p1: "parse_dotted_decimal (dotted (a # b # ns)) = (Some (word_of_nat a), dotted (b # ns))"
    by (rule parse_dotted [OF w(1)])
  have p2: "parse_dotted_decimal (dotted (b # ns)) = (Some (word_of_nat b), dotted ns)"
    by (rule parse_dotted [OF w(2)])
  have l: "(\<lambda>cbb. oid_components cbb r (dotted ns)) = (\<lambda>cbb. emit_bytes (\<lambda>s b. CBB_add_u8 s r b) cbb (concat (map b128 ns)))"
    using oid_components_emit [OF assms(2)] by blast
  show ?thesis
    unfolding CBB_add_asn1_oid_from_text_def ab append_Cons append_Nil p1 option.case prod.case p2 if_not_P [OF w(4)]
      add_base128_b128 w(3) l
    by (simp add: emit_bytes_append)
qed

text \<open>With an allocator that does not fail there is always a text.\<close>

lemma oid_to_text_succeeds:
  assumes "v < 2 ^ 64" "\<forall>n \<in> set ns. n < 2 ^ 64" "\<forall>m < 2 ^ 64. h m \<noteq> None"
    and "length (dotted (first_components v @ ns)) + 1 < 2 ^ 64"
  shows "\<exists>t. CBS_asn1_oid_to_text h (concat (map b128 (v # ns))) = Some t"
proof -
  obtain x where x: "h 32 = Some x" using assms(3) [rule_format, of 32] by auto
  then obtain c where c: "CBB_init h 32 = Some c" "b_resize (base c)" "heap c = h"
    by (auto simp: CBB_init_def cbb_init_def)
  have R: "represents c ([], [])" by (rule init_represents [OF _ c(1)]) simp
  have room: "has_room c n \<longleftrightarrow> n < 2 ^ 64" for n using c assms(3) by (auto simp: has_room_def fits_def)
  have u: "unat (word_of_nat v :: u64) = v" using assms(1) by simp
  have p: "parse_base128_integer (concat (map b128 (v # ns))) = (Some (word_of_nat v), concat (map b128 ns))"
    using parse_base128_b128 [OF assms(1)] by simp
  let ?v = "word_of_nat v :: u64"
  let ?body = "\<lambda>s. then_ok (if ?v \<ge> 80 then then_ok (CBB_add_bytes s Top [50, 46]) (\<lambda>s. add_decimal s Top (?v - 80))
      else then_ok (add_decimal s Top (?v div 40)) (\<lambda>s. then_ok (CBB_add_u8 s Top 46) (\<lambda>s. add_decimal s Top (?v mod 40))))
    (\<lambda>s. then_ok (oid_text_loop s (concat (map b128 ns))) (\<lambda>s. CBB_add_u8 s Top 0))"
  let ?t = "dotted (first_components v) @ concat (map (\<lambda>n. 46 # decimal_digits n) ns) @ [0]"
  have "appends ?body Top ?t"
    using first_text_appends [of ?v] unfolding u
    by (intro appends_then oid_text_loop_appends assms(2) appends_u8)
  note a = this [unfolded appends_def, rule_format, OF R]
  have len: "length ?t = length (dotted (first_components v @ ns)) + 1" by (simp add: first_components_def dotted_concat)
  have "has_room c (extent ([], []) + length ?t)" unfolding room using assms(4) len by simp
  then have "fst (?body c)" using a by (simp add: writer_level_def)
  then obtain d where d: "?body c = (True, d)" by (cases "?body c") auto
  have dw: "represents d (?t, [])" "extends c d" using a d by (simp_all add: writer_level_def)
  have "has_room d (length ?t)" unfolding has_room_extends [OF dw(2)] room using assms(4) len by simp
  then have "fst (CBB_finish d Top True) = Some ?t" by (intro finish_refines(2) [OF dw(1)]) simp_all
  then show ?thesis using d unfolding CBS_asn1_oid_to_text_def c(1) p option.case prod.case Let_def by auto
qed

text \<open>
  C19. Object identifiers round trip through text: whenever \<open>CBS_asn1_oid_to_text\<close> turns the contents
  \<open>oid\<close> into text, the text is NUL-terminated and \<open>CBB_add_asn1_oid_from_text\<close> on it (without
  the NUL) appends exactly \<open>oid\<close> to its \<open>CBB\<close>, and succeeds whenever there is room.
\<close>
theorem oid_text_roundtrip:
  assumes "CBS_asn1_oid_to_text h oid = Some t" "represents cbb w"
    "CBB_add_asn1_oid_from_text cbb r (butlast t) = (ok, cbb')"
  shows "last t = 0 \<and> (if ok then \<exists>w'. close_at r w = Some w' \<and> represents cbb' (append_inner oid w')
    else \<forall>w'. close_at r w = Some w' \<longrightarrow> \<not> has_room cbb (extent w' + length oid))"
proof -
  obtain v ns where v: "v < 2 ^ 64" "\<forall>n \<in> set ns. n < 2 ^ 64" "oid = concat (map b128 (v # ns))"
    "t = dotted (first_components v @ ns) @ [0]"
    using oid_to_text_dotted [OF assms(1)] by blast
  have eq: "then_ok (CBB_flush cbb r) (\<lambda>c. emit_bytes (\<lambda>s b. CBB_add_u8 s r b) c oid) = (ok, cbb')"
    using oid_from_dotted [OF v(1,2), of cbb r] assms(3) v(3,4) by simp
  have "if ok then \<exists>w'. close_at r w = Some w' \<and> represents cbb' (append_inner oid w')
    else \<forall>w'. close_at r w = Some w' \<longrightarrow> \<not> has_room cbb (extent w' + length oid)"
  proof (cases ok)
    case True
    then obtain c where c: "CBB_flush cbb r = (True, c)" "emit_bytes (\<lambda>s b. CBB_add_u8 s r b) c oid = (True, cbb')"
      using eq by (auto elim!: then_ok_TrueE)
    obtain w' where w': "close_at r w = Some w'" "represents c w'"
      using flush_refines(1) [OF assms(2) c(1)] by blast
    from emit_refines(1) [OF w'(2) close_at_level [OF w'(1)] c(2)] show ?thesis using True w'(1) by auto
  next
    case False
    have "\<not> has_room cbb (extent w' + length oid)" if w': "close_at r w = Some w'" for w'
    proof
      assume room: "has_room cbb (extent w' + length oid)"
      have "fst (CBB_flush cbb r)" by (rule flush_refines(2) [OF assms(2) w']) (rule has_room_mono [OF room], simp)
      then obtain c where c: "CBB_flush cbb r = (True, c)" by (cases "CBB_flush cbb r") auto
      have cw: "represents c w'" "extends cbb c" using flush_refines(1) [OF assms(2) c] w' by auto
      have "fst (emit_bytes (\<lambda>s b. CBB_add_u8 s r b) c oid)"
        by (rule emit_refines(2) [OF cw(1) close_at_level [OF w']]) (use room has_room_extends [OF cw(2)] in simp)
      then show False using eq c False by simp
    qed
    then show ?thesis using False by simp
  qed
  then show ?thesis by (simp add: v(4))
qed

theorem oid_text_roundtrip_witness:
  "\<exists>t ok c. CBS_asn1_oid_to_text (\<lambda>_. Some 0) [42] = Some t \<and>
    CBB_add_asn1_oid_from_text (CBB_init_fixed (\<lambda>_. None) [0]) Top (butlast t) = (ok, c) \<and> last t = 0"
proof -
  have d: "length (dotted (first_components 42)) \<le> 4"
    using length_decimal [of 1 1] length_decimal [of 2 1] by (simp add: first_components_def)
  have "concat (map b128 [42]) = [42]" by (simp add: b128_def byte_of_def)
  then obtain t where t: "CBS_asn1_oid_to_text (\<lambda>_. Some 0) [42] = Some t"
    using oid_to_text_succeeds [of 42 "[]" "\<lambda>_. Some 0"] d by fastforce
  have R: "represents (CBB_init_fixed (\<lambda>_. None) [0 :: u8]) ([], [])" by (rule init_fixed_represents) simp
  obtain ok c where f: "CBB_add_asn1_oid_from_text (CBB_init_fixed (\<lambda>_. None) [0]) Top (butlast t) = (ok, c)"
    by (cases "CBB_add_asn1_oid_from_text (CBB_init_fixed (\<lambda>_. None) [0]) Top (butlast t)")
  show ?thesis using oid_text_roundtrip [OF t R f] t f by blast
qed

end
