(* ===== verification/SetOf.thy ===== *)
theory SetOf
  imports CbbInvariant "HOL-Library.List_Lexorder" "HOL-Library.Multiset"
begin

text \<open>
  \<open>CBB_flush_asn1_set_of\<close> of \<open>cbb.c\<close>: the children of a SET OF are put into the
  ascending order of their encodings. \<open>qsort\<close> is insertion sort by the comparator; elements that
  compare as equal are equal byte strings, so any sorting algorithm gives the same result. The order is
  the lexicographic one of the library.
\<close>

section \<open>The operation\<close>

text \<open>The sign of \<open>memcmp\<close>.\<close>

fun OPENSSL_memcmp :: "u8 list \<Rightarrow> u8 list \<Rightarrow> int" where
  "OPENSSL_memcmp (x # xs) (y # ys) = (if x = y then OPENSSL_memcmp xs ys else if x < y then -1 else 1)"
| "OPENSSL_memcmp _ _ = 0"

definition compare_set_of_element :: "cbs \<Rightarrow> cbs \<Rightarrow> int" where
  "compare_set_of_element a b =
    (let a_len = length a; b_len = length b;
         min_len = (if a_len < b_len then a_len else b_len);
         ret = OPENSSL_memcmp (take min_len a) (take min_len b)
     in if ret \<noteq> 0 then ret else if a_len = b_len then 0 else if a_len < b_len then -1 else 1)"

fun set_of_insert :: "cbs \<Rightarrow> cbs list \<Rightarrow> cbs list" where
  "set_of_insert x [] = [x]"
| "set_of_insert x (y # ys) =
    (if compare_set_of_element x y \<le> 0 then x # y # ys else y # set_of_insert x ys)"

definition set_of_sort :: "cbs list \<Rightarrow> cbs list" where
  "set_of_sort cs = foldr set_of_insert cs []"

text \<open>The elements of the contents, one after the other.\<close>

function asn1_elements :: "cbs \<Rightarrow> cbs list option" where
  "asn1_elements cbs =
    (if cbs = [] then Some []
     else
       case CBS_get_any_asn1_element cbs of
         (None, _) \<Rightarrow> None
       | (Some e, cbs) \<Rightarrow> map_option ((#) (el_bytes e)) (asn1_elements cbs))"
  by pat_completeness auto
termination
proof (relation "measure length")
  fix cbs r e rest
  assume "(r, rest) = CBS_get_any_asn1_element cbs" "r = Some (e :: asn1_element)"
  then have g: "CBS_get_any_asn1_element cbs = (Some e, rest)" by simp
  obtain t xs where "cbs = der_element t xs @ rest" using get_element_canonical [OF g] by blast
  moreover have "0 < length (der_element t xs)" by (simp add: der_element_def)
  ultimately show "(rest, cbs) \<in> measure length" by simp
qed simp

declare asn1_elements.simps [simp del]

fun write_children :: "u8 list \<Rightarrow> nat \<Rightarrow> cbs list \<Rightarrow> u8 list" where
  "write_children buf offset [] = buf"
| "write_children buf offset (c # cs) = write_children (patch buf offset c) (offset + length c) cs"

text \<open>\<open>sizeof(CBS)\<close> is 16. The copy of the contents only serves to keep the children alive
  while the buffer is rewritten.\<close>

definition CBB_flush_asn1_set_of :: "cbb \<Rightarrow> cbb_ref \<Rightarrow> bool \<times> cbb" where
  "CBB_flush_asn1_set_of cbb r =
    then_ok (CBB_flush cbb r) (\<lambda>cbb.
      case (CBB_data cbb r, CBB_len cbb r) of
        (Some data, Some len) \<Rightarrow>
          (case asn1_elements (take len (drop data (b_buf (base cbb)))) of
             None \<Rightarrow> (False, cbb)
           | Some children \<Rightarrow>
               if length children < 2 then (True, cbb)
               else if heap cbb len = None \<or> heap cbb (16 * length children) = None then (False, cbb)
               else (True, cbb\<lparr>base := (base cbb)\<lparr>b_buf :=
                        write_children (b_buf (base cbb)) data (set_of_sort children)\<rparr>\<rparr>))
      | _ \<Rightarrow> (False, cbb))"

section \<open>The order\<close>

lemma compare_Nil: "compare_set_of_element [] [] = 0" "compare_set_of_element [] (y # ys) = -1"
  "compare_set_of_element (x # xs) [] = 1"
  by (simp_all add: compare_set_of_element_def)

lemma compare_Cons:
  "compare_set_of_element (x # xs) (y # ys) =
    (if x = y then compare_set_of_element xs ys else if x < y then -1 else 1)"
  by (simp add: compare_set_of_element_def Let_def)

lemma compare_le: "compare_set_of_element a b \<le> 0 \<longleftrightarrow> a \<le> b"
proof (induction a arbitrary: b)
  case Nil
  then show ?case by (cases b) (simp_all add: compare_Nil)
next
  case (Cons x xs)
  then show ?case by (cases b) (auto simp: compare_Nil compare_Cons)
qed

lemma set_of_insert_insort: "set_of_insert x ys = insort x ys"
  by (induction ys) (simp_all add: compare_le)

lemma set_of_sort_sort: "set_of_sort cs = sort cs"
  by (induction cs) (simp_all add: set_of_sort_def set_of_insert_insort)

section \<open>The contents of a \<open>CBB\<close>\<close>

fun inner_bytes :: "writer \<Rightarrow> u8 list" where
  "inner_bytes (xs, []) = xs"
| "inner_bytes (xs, (p, k, zs) # fs) = inner_bytes (zs, fs)"

fun with_inner :: "u8 list \<Rightarrow> writer \<Rightarrow> writer" where
  "with_inner d (xs, []) = (d, [])"
| "with_inner d (xs, (p, kd, zs) # fs) =
    (case with_inner d (zs, fs) of (zs', fs') \<Rightarrow> (xs, (p, kd, zs') # fs'))"

lemma with_inner_same [simp]: "with_inner (inner_bytes w) w = w"
  by (induction w rule: inner_bytes.induct) auto

fun inner_start :: "nat \<Rightarrow> (nat \<times> cbb_child) list \<Rightarrow> nat" where
  "inner_start off [] = off"
| "inner_start off ((p, c) # cs) = inner_start (c_offset c + c_pending_len_len c) cs"

lemma inner_start_last:
  "inner_start off cs = (if cs = [] then off else c_offset (snd (last cs)) + c_pending_len_len (snd (last cs)))"
  by (induction off cs rule: inner_start.induct) auto

lemma layout_inner:
  "layout off xs fs cs ys \<Longrightarrow>
    \<exists>pre. ys = pre @ inner_bytes (xs, fs) \<and> off + length pre = inner_start off cs \<and>
      (\<forall>d. layout off (fst (with_inner d (xs, fs))) (snd (with_inner d (xs, fs))) cs (pre @ d))"
proof (induction off xs fs cs ys rule: layout.induct)
  case (2 off xs p k zs fs q c cs ys)
  then obtain res rest where r: "length res = c_pending_len_len c" "ys = xs @ res @ rest"
    "layout (off + length xs + c_pending_len_len c) zs fs cs rest" by auto
  obtain pre where pre: "rest = pre @ inner_bytes (zs, fs)"
    "off + length xs + c_pending_len_len c + length pre = inner_start (off + length xs + c_pending_len_len c) cs"
    "\<forall>d. layout (off + length xs + c_pending_len_len c) (fst (with_inner d (zs, fs)))
       (snd (with_inner d (zs, fs))) cs (pre @ d)"
    using 2(1) r(3) by blast
  have "layout off xs ((p, k, fst (with_inner d (zs, fs))) # snd (with_inner d (zs, fs))) ((q, c) # cs) (xs @ res @ pre @ d)" for d
    using 2(2) r pre(3) by auto
  then show ?case using 2(2) r pre by (intro exI [of _ "xs @ res @ pre"]) (auto simp: case_prod_beta)
qed (auto intro: exI [of _ "[]"])

lemma asn1_elements_concat: "asn1_elements cbs = Some es \<Longrightarrow> concat es = cbs"
proof (induction cbs arbitrary: es rule: asn1_elements.induct)
  case (1 cbs)
  show ?case
  proof (cases "cbs = []")
    case True
    then show ?thesis using 1(2) by (simp add: asn1_elements.simps)
  next
    case False
    then obtain e rest es' where e: "CBS_get_any_asn1_element cbs = (Some e, rest)" "asn1_elements rest = Some es'"
      "es = el_bytes e # es'"
      using 1(2) by (subst (asm) asn1_elements.simps) (auto split: prod.splits option.splits)
    have "cbs = el_bytes e @ rest"
      using any_element_safe [of False cbs "Some e" rest] e(1) by (simp add: CBS_get_any_asn1_element_def)
    then show ?thesis using 1(1) [OF False _ _ e(2)] e by simp
  qed
qed

text \<open>An element that is read on its own.\<close>

definition one_element :: "cbs \<Rightarrow> bool" where
  "one_element b \<longleftrightarrow> (\<exists>t xs. valid_tag t \<and> length xs < 2 ^ 32 \<and> b = der_element t xs)"

lemma asn1_elements_iff: "asn1_elements cbs = Some es \<longleftrightarrow> concat es = cbs \<and> (\<forall>b \<in> set es. one_element b)"
proof (induction es arbitrary: cbs)
  case Nil
  show ?case by (subst asn1_elements.simps) (auto split: option.splits prod.splits)
next
  case (Cons b es)
  show ?case
  proof
    assume a: "asn1_elements cbs = Some (b # es)"
    then obtain e rest where e: "CBS_get_any_asn1_element cbs = (Some e, rest)" "asn1_elements rest = Some es" "b = el_bytes e"
      by (subst (asm) asn1_elements.simps) (auto split: prod.splits option.splits if_splits)
    then obtain t xs where "valid_tag t" "length xs < 2 ^ 32" "b = der_element t xs" by (auto simp: get_element_iff)
    then have "one_element b" unfolding one_element_def by blast
    then show "concat (b # es) = cbs \<and> (\<forall>x \<in> set (b # es). one_element x)"
      using Cons e asn1_elements_concat [OF a] by auto
  next
    assume a: "concat (b # es) = cbs \<and> (\<forall>x \<in> set (b # es). one_element x)"
    then obtain t xs where b: "valid_tag t" "length xs < 2 ^ 32" "b = der_element t xs"
      by (auto simp: one_element_def)
    have "cbs \<noteq> []" using a b by (auto simp: der_element_def)
    then show "asn1_elements cbs = Some (b # es)"
      using a b get_element_der [OF b(1,2), of "concat es"] Cons by (subst asn1_elements.simps) auto
  qed
qed

lemma write_children_patch:
  "offset + length (concat cs) \<le> length buf \<Longrightarrow> write_children buf offset cs = patch buf offset (concat cs)"
proof (induction buf offset cs rule: write_children.induct)
  case (2 buf offset c cs)
  then show ?case using patch_append [of offset c "concat cs" buf "offset + length c"] by simp
qed simp

lemma length_concat_sort: "length (concat (sort (es :: u8 list list))) = length (concat es)"
proof -
  have "mset (map length (sort es)) = mset (map length es)" by simp
  then have "sum_list (map length (sort es)) = sum_list (map length es)" by (metis sum_mset_sum_list)
  then show ?thesis by (simp add: length_concat)
qed

lemma set_of_refines:
  assumes R: "represents cbb w" and ok: "CBB_flush_asn1_set_of cbb r = (True, cbb')"
  shows "\<exists>w' es. close_at r w = Some w' \<and> asn1_elements (inner_bytes w') = Some es \<and>
    represents cbb' (with_inner (concat (sort es)) w')"
proof -
  obtain c where c: "CBB_flush cbb r = (True, c)" using ok unfolding CBB_flush_asn1_set_of_def by (rule then_ok_TrueE)
  obtain w' where w: "close_at r w = Some w'" "represents c w'" using flush_refines(1) [OF R c] by blast
  note I = w(2) [unfolded represents_def]
  have lev: "cbb_level c r = Some (length (chain c))"
    using close_at_level [OF w(1)] represents_level [OF w(2)] represents_chain [OF w(2)] by simp
  obtain pre where pre: "content (base c) = pre @ inner_bytes w'" "length pre = inner_start 0 (chain c)"
    "\<And>d. layout 0 (fst (with_inner d w')) (snd (with_inner d w')) (chain c) (pre @ d)"
    using layout_inner [of 0 "fst w'" "snd w'" "chain c" "content (base c)"] I by auto
  have data: "CBB_data c r = Some (length pre)"
    using lev pre(2) by (simp add: CBB_data_def inner_start_last Let_def)
  have bl: "b_len (base c) = length pre + length (inner_bytes w')"
    using I pre(1) by (metis length_append length_content)
  have len: "CBB_len c r = Some (length (inner_bytes w'))" by (simp add: CBB_len_def data bl)
  have "take (length (inner_bytes w')) (drop (length pre) (b_buf (base c))) = drop (length pre) (content (base c))"
    by (simp add: content_def bl drop_take)
  then have td: "take (length (inner_bytes w')) (drop (length pre) (b_buf (base c))) = inner_bytes w'"
    by (simp add: pre(1))
  note u = ok [unfolded CBB_flush_asn1_set_of_def c then_ok_simps data len prod.case option.case td]
  obtain es where es: "asn1_elements (inner_bytes w') = Some es" using u by (cases "asn1_elements (inner_bytes w')") auto
  have conc: "concat es = inner_bytes w'" by (rule asn1_elements_concat [OF es])
  show ?thesis
  proof (cases "length es < 2")
    case True
    then have "sort es = es" by (cases es) auto
    then have "represents cbb' (with_inner (concat (sort es)) w')" using u es True w(2) conc by simp
    then show ?thesis using w(1) es by blast
  next
    case False
    then have cbb': "cbb' = c\<lparr>base := (base c)\<lparr>b_buf := write_children (b_buf (base c)) (length pre) (sort es)\<rparr>\<rparr>"
      using u es by (simp add: set_of_sort_sort split: if_splits)
    have l: "length pre + length (concat (sort es)) \<le> b_len (base c)"
      using bl conc length_concat_sort [of es] by simp
    then have wp: "write_children (b_buf (base c)) (length pre) (sort es) = patch (b_buf (base c)) (length pre) (concat (sort es))"
      using I by (intro write_children_patch) (auto simp: buf_ok_def)
    have "content ((base c)\<lparr>b_buf := patch (b_buf (base c)) (length pre) (concat (sort es))\<rparr>)
        = patch (pre @ inner_bytes w') (length pre) (concat (sort es))"
      using content_patch [OF conjunct1 [OF I] l] pre(1) by simp
    also have "\<dots> = pre @ concat (sort es)"
      using length_concat_sort [of es] conc by (simp add: patch_def)
    finally have ct: "content ((base c)\<lparr>b_buf := patch (b_buf (base c)) (length pre) (concat (sort es))\<rparr>) = pre @ concat (sort es)" .
    have "grown (base c) (base c)" using I by (simp add: grown_def)
    from grown_patch [OF this l] have "represents cbb' (with_inner (concat (sort es)) w')"
      using pre(3) [of "concat (sort es)"] ct by (simp add: represents_def cbb' wp grown_def)
    then show ?thesis using w(1) es by blast
  qed
qed

text \<open>
  C9. SET OF contents are canonical: when \<open>CBB_flush_asn1_set_of\<close> succeeds, the contents of
  \<open>r\<close> (after its children are closed) are a sequence of DER elements, and afterwards they are the
  same elements, each as often as before, in ascending lexicographic order of their encodings. So two
  writers with the same elements in any order end with the same bytes.
\<close>
theorem set_of_canonical:
  assumes "represents cbb w" "CBB_flush_asn1_set_of cbb r = (True, cbb')"
  shows "\<exists>w' es ss. close_at r w = Some w' \<and> asn1_elements (inner_bytes w') = Some es \<and>
    represents cbb' (with_inner (concat ss) w') \<and> asn1_elements (concat ss) = Some ss \<and>
    mset ss = mset es \<and> sorted ss \<and>
    (\<forall>es'. mset es' = mset es \<longrightarrow> set_of_sort es' = ss)"
proof -
  obtain w' es where w: "close_at r w = Some w'" "asn1_elements (inner_bytes w') = Some es"
    "represents cbb' (with_inner (concat (sort es)) w')"
    using set_of_refines [OF assms] by blast
  have "asn1_elements (concat (sort es)) = Some (sort es)"
    using w(2) by (simp add: asn1_elements_iff)
  moreover have "\<forall>es'. mset es' = mset es \<longrightarrow> set_of_sort es' = sort es"
    unfolding set_of_sort_sort by (metis sorted_sort mset_sort properties_for_sort)
  ultimately show ?thesis using w by (metis sorted_sort mset_sort)
qed

theorem set_of_canonical_witness:
  "let c = \<lparr>base = \<lparr>b_buf = [4, 1, 9, 4, 1, 7], b_len = 6, b_cap = 6, b_resize = False, b_error = False\<rparr>,
            chain = [], heap = \<lambda>_. Some 0\<rparr>
   in \<exists>c'. CBB_flush_asn1_set_of c Top = (True, c') \<and> (\<exists>ss. represents c' (concat ss, []) \<and> sorted ss \<and>
     mset ss = {#[4, 1, 9], [4, 1, 7]#})"
proof -
  let ?c = "\<lparr>base = \<lparr>b_buf = [4, 1, 9, 4, 1, 7 :: u8], b_len = 6, b_cap = 6, b_resize = False, b_error = False\<rparr>,
            chain = [], heap = \<lambda>_. Some 0\<rparr>"
  have R: "represents ?c ([4, 1, 9, 4, 1, 7], [])" by (simp add: represents_def buf_ok_def content_def)
  have o: "one_element [4, 1, x]" for x
    by (intro exI [of _ 4] exI [of _ "[x]"] one_element_def [THEN iffD2])
      (simp add: valid_tag_def der_element_def der_tag_def der_length_def byte_of_def)
  have e: "asn1_elements [4, 1, 9, 4, 1, 7] = Some [[4, 1, 9], [4, 1, 7]]"
    unfolding asn1_elements_iff using o by simp
  obtain c' where f: "CBB_flush_asn1_set_of ?c Top = (True, c')"
    by (simp add: CBB_flush_asn1_set_of_def CBB_flush_def cbb_level_def CBB_data_def CBB_len_def e)
  obtain w' es ss where w: "close_at Top ([4, 1, 9, 4, 1, 7], []) = Some w'" "asn1_elements (inner_bytes w') = Some es"
    "represents c' (with_inner (concat ss) w')" "mset ss = mset es" "sorted ss"
    using set_of_canonical [OF R f] by blast
  have "w' = ([4, 1, 9, 4, 1, 7], [])" "es = [[4, 1, 9], [4, 1, 7]]" using w(1,2) e by (auto simp: close_Top)
  then have "represents c' (concat ss, []) \<and> sorted ss \<and> mset ss = {#[4, 1, 9], [4, 1, 7]#}" using w(3-5) by simp
  then show ?thesis using f unfolding Let_def by blast
qed

end
