(* ===== verification/Unicode.thy ===== *)
theory Unicode
  imports CbbInvariant
begin

text \<open>
  Code points in UTF-8, Latin-1, UCS-2 and UTF-32: \<open>crypto/bytestring/unicode.c\<close>. The UTF-8
  reader and writer are tied to \<open>utf8\<close>, the shortest encoding of a code point.
\<close>

section \<open>Operations\<close>

definition is_valid_code_point :: "u32 \<Rightarrow> bool" where
  "is_valid_code_point v =
    (if v > 0x10ffff \<or> v AND 0xfffe = 0xfffe \<or> (v \<ge> 0xfdd0 \<and> v \<le> 0xfdef) \<or> (v \<ge> 0xd800 \<and> v \<le> 0xdfff)
     then False else True)"

definition BOTTOM_BITS :: "nat \<Rightarrow> u8" where
  "BOTTOM_BITS n = to_u8 (push_bit n (1 :: u32) - 1)"

definition TOP_BITS :: "nat \<Rightarrow> u8" where
  "TOP_BITS n = NOT (BOTTOM_BITS (8 - n))"

text \<open>The continuation bytes.\<close>

fun utf8_continue :: "nat \<Rightarrow> u32 \<Rightarrow> cbs \<Rightarrow> u32 option \<times> cbs" where
  "utf8_continue 0 v cbs = (Some v, cbs)"
| "utf8_continue (Suc n) v cbs =
    get_then (CBS_get_u8 cbs) (\<lambda>c cbs.
      if c AND TOP_BITS 2 \<noteq> TOP_BITS 1 then (None, cbs)
      else utf8_continue n (push_bit 6 v OR to_u32 (c AND BOTTOM_BITS 6)) cbs)"

definition CBS_get_utf8 :: "cbs \<Rightarrow> u32 option \<times> cbs" where
  "CBS_get_utf8 cbs =
    get_then (CBS_get_u8 cbs) (\<lambda>c cbs.
      if c \<le> 0x7f then (Some (to_u32 c), cbs)
      else
        case (if c AND TOP_BITS 3 = TOP_BITS 2 then Some (c AND BOTTOM_BITS 5, 1, 0x80)
              else if c AND TOP_BITS 4 = TOP_BITS 3 then Some (c AND BOTTOM_BITS 4, 2, 0x800)
              else if c AND TOP_BITS 5 = TOP_BITS 4 then Some (c AND BOTTOM_BITS 3, 3, 0x10000)
              else None) of
          None \<Rightarrow> (None, cbs)
        | Some (v, len, lower_bound) \<Rightarrow>
            get_then (utf8_continue len (to_u32 v) cbs) (\<lambda>v cbs.
              if \<not> is_valid_code_point v \<or> v < lower_bound then (None, cbs) else (Some v, cbs)))"

definition CBS_get_latin1 :: "cbs \<Rightarrow> u32 option \<times> cbs" where
  "CBS_get_latin1 cbs = get_then (CBS_get_u8 cbs) (\<lambda>c cbs. (Some (to_u32 c), cbs))"

definition CBS_get_ucs2_be :: "cbs \<Rightarrow> u32 option \<times> cbs" where
  "CBS_get_ucs2_be cbs =
    get_then (CBS_get_u16 cbs) (\<lambda>c cbs.
      if \<not> is_valid_code_point (to_u32 c) then (None, cbs) else (Some (to_u32 c), cbs))"

definition CBS_get_utf32_be :: "cbs \<Rightarrow> u32 option \<times> cbs" where
  "CBS_get_utf32_be cbs =
    get_then (CBS_get_u32 cbs) (\<lambda>v cbs. if is_valid_code_point v then (Some v, cbs) else (None, cbs))"

definition CBB_get_utf8_len :: "u32 \<Rightarrow> nat" where
  "CBB_get_utf8_len u = (if u \<le> 0x7f then 1 else if u \<le> 0x7ff then 2 else if u \<le> 0xffff then 3 else 4)"

definition add_continuation :: "cbb_ref \<Rightarrow> u32 \<Rightarrow> cbb \<Rightarrow> bool \<times> cbb" where
  "add_continuation r x cbb = CBB_add_u8 cbb r (TOP_BITS 1 OR to_u8 (x AND to_u32 (BOTTOM_BITS 6)))"

definition CBB_add_utf8 :: "cbb \<Rightarrow> cbb_ref \<Rightarrow> u32 \<Rightarrow> bool \<times> cbb" where
  "CBB_add_utf8 cbb r u =
    (if \<not> is_valid_code_point u then (False, cbb)
     else if u \<le> 0x7f then CBB_add_u8 cbb r (to_u8 u)
     else if u \<le> 0x7ff then
       then_ok (CBB_add_u8 cbb r (to_u8 (to_u32 (TOP_BITS 2) OR drop_bit 6 u))) (add_continuation r u)
     else if u \<le> 0xffff then
       then_ok (CBB_add_u8 cbb r (to_u8 (to_u32 (TOP_BITS 3) OR drop_bit 12 u))) (\<lambda>cbb.
         then_ok (add_continuation r (drop_bit 6 u) cbb) (add_continuation r u))
     else if u \<le> 0x10ffff then
       then_ok (CBB_add_u8 cbb r (to_u8 (to_u32 (TOP_BITS 4) OR drop_bit 18 u))) (\<lambda>cbb.
         then_ok (add_continuation r (drop_bit 12 u) cbb) (\<lambda>cbb.
           then_ok (add_continuation r (drop_bit 6 u) cbb) (add_continuation r u)))
     else (False, cbb))"

definition CBB_add_latin1 :: "cbb \<Rightarrow> cbb_ref \<Rightarrow> u32 \<Rightarrow> bool \<times> cbb" where
  "CBB_add_latin1 cbb r u = (if u \<le> 0xff then CBB_add_u8 cbb r (to_u8 u) else (False, cbb))"

definition CBB_add_ucs2_be :: "cbb \<Rightarrow> cbb_ref \<Rightarrow> u32 \<Rightarrow> bool \<times> cbb" where
  "CBB_add_ucs2_be cbb r u =
    (if u \<le> 0xffff \<and> is_valid_code_point u then CBB_add_u16 cbb r (to_u16 u) else (False, cbb))"

definition CBB_add_utf32_be :: "cbb \<Rightarrow> cbb_ref \<Rightarrow> u32 \<Rightarrow> bool \<times> cbb" where
  "CBB_add_utf32_be cbb r u = (if is_valid_code_point u then CBB_add_u32 cbb r u else (False, cbb))"

section \<open>UTF-8\<close>

definition cont_byte :: "nat \<Rightarrow> u8" where
  "cont_byte n = byte_of (128 + n mod 64)"

definition utf8 :: "nat \<Rightarrow> u8 list" where
  "utf8 n =
    (if n < 0x80 then [byte_of n]
     else if n < 0x800 then [byte_of (192 + n div 64), cont_byte n]
     else if n < 0x10000 then [byte_of (224 + n div 4096), cont_byte (n div 64), cont_byte n]
     else [byte_of (240 + n div 262144), cont_byte (n div 4096), cont_byte (n div 64), cont_byte n])"

text \<open>The masks, as fields of a byte.\<close>

lemma bottom_bits: "BOTTOM_BITS 6 = mask 6" "BOTTOM_BITS 5 = mask 5" "BOTTOM_BITS 4 = mask 4" "BOTTOM_BITS 3 = mask 3"
  by (simp_all add: BOTTOM_BITS_def mask_eq_exp_minus_1)

lemma top_bits:
  "TOP_BITS 1 = 128" "TOP_BITS 2 = push_bit 6 (mask 2)" "TOP_BITS 3 = push_bit 5 (mask 3)"
  "TOP_BITS 4 = push_bit 4 (mask 4)" "TOP_BITS 5 = push_bit 3 (mask 5)"
  by (simp_all add: TOP_BITS_def BOTTOM_BITS_def mask_eq_exp_minus_1 push_bit_eq_mult)

lemma and_mask_unat: "unat (c AND mask n :: 'a::len word) = unat c mod 2 ^ n"
proof -
  have "c AND mask n = take_bit n c" by (simp add: take_bit_eq_mask)
  then have "unat (c AND mask n) = take_bit n (unat c)" by (simp only: unsigned_take_bit_eq)
  then show ?thesis by (simp add: take_bit_eq_mod)
qed

lemma top_field:
  assumes "k + m = 8" "x < 2 ^ m"
  shows "c AND push_bit k (mask m) = byte_of (x * 2 ^ k) \<longleftrightarrow> unat c div 2 ^ k = x"
proof -
  have "unat c div 2 ^ k < 2 ^ m"
    using unat_u8_less [of c] assms(1) by (intro less_mult_imp_div_less) (simp add: add.commute flip: power_add)
  then have u: "unat (c AND push_bit k (mask m)) = unat c div 2 ^ k * 2 ^ k"
    using unat_and_field [of k m c] assms by simp
  have "x * 2 ^ k < 2 ^ m * 2 ^ k" using assms(2) by simp
  then have "x * 2 ^ k < 256" using assms(1) by (simp add: add.commute flip: power_add)
  then show ?thesis by (simp add: word_unat_eq_iff u)
qed

lemma utf8_classes:
  "c AND TOP_BITS 2 = TOP_BITS 1 \<longleftrightarrow> unat c div 64 = 2"
  "c AND TOP_BITS 3 = TOP_BITS 2 \<longleftrightarrow> unat c div 32 = 6"
  "c AND TOP_BITS 4 = TOP_BITS 3 \<longleftrightarrow> unat c div 16 = 14"
  "c AND TOP_BITS 5 = TOP_BITS 4 \<longleftrightarrow> unat c div 8 = 30"
proof -
  have e: "(128 :: u8) = byte_of (2 * 2 ^ 6)" "push_bit 6 (mask 2) = byte_of (6 * 2 ^ 5)"
    "push_bit 5 (mask 3) = byte_of (14 * 2 ^ 4)" "push_bit 4 (mask 4) = byte_of (30 * 2 ^ 3)"
    by (simp_all add: byte_of_def mask_eq_exp_minus_1 push_bit_eq_mult)
  show "c AND TOP_BITS 2 = TOP_BITS 1 \<longleftrightarrow> unat c div 64 = 2"
    unfolding top_bits e(1) using top_field [of 6 2 2 c] by simp
  show "c AND TOP_BITS 3 = TOP_BITS 2 \<longleftrightarrow> unat c div 32 = 6"
    unfolding top_bits(3) unfolding top_bits(2) e(2) using top_field [of 5 3 6 c] by simp
  show "c AND TOP_BITS 4 = TOP_BITS 3 \<longleftrightarrow> unat c div 16 = 14"
    unfolding top_bits(4) unfolding top_bits(3) e(3) using top_field [of 4 4 14 c] by simp
  show "c AND TOP_BITS 5 = TOP_BITS 4 \<longleftrightarrow> unat c div 8 = 30"
    unfolding top_bits(5) unfolding top_bits(4) e(4) using top_field [of 3 5 30 c] by simp
qed

lemmas utf8_cont_class = utf8_classes(1) [unfolded One_nat_def]

lemma field_split: "x < b \<Longrightarrow> (b * a + x) div b = a \<and> (b * a + x) mod b = (x :: nat)"
  by simp

lemma cont_split: "unat d div 64 = 2 \<Longrightarrow> d = byte_of (128 + unat d mod 64)"
  using div_mult_mod_eq [of "unat d" 64] by (intro byte_of_eqI) simp

lemma cont_class: "y < 64 \<Longrightarrow> unat (byte_of (128 + y)) div 64 = 2 \<and> unat (byte_of (128 + y)) mod 64 = y"
  using field_split [of y 64 2] by simp

lemma lead_class2: "x < 32 \<Longrightarrow> unat (byte_of (192 + x)) div 32 = 6 \<and> unat (byte_of (192 + x)) mod 32 = x"
  using field_split [of x 32 6] by simp

lemma lead_class3:
  assumes "x < 16"
  shows "unat (byte_of (224 + x)) div 16 = 14 \<and> unat (byte_of (224 + x)) mod 16 = x \<and> unat (byte_of (224 + x)) div 32 \<noteq> 6"
proof -
  have "unat (byte_of (224 + x)) = 224 + x" using assms by simp
  moreover have "(224 + x) div 32 = 7" using field_split [of x 32 7] assms by simp
  ultimately show ?thesis using field_split [of x 16 14] assms by simp
qed

lemma lead_class4:
  assumes "x < 8"
  shows "unat (byte_of (240 + x)) div 8 = 30 \<and> unat (byte_of (240 + x)) mod 8 = x \<and>
     unat (byte_of (240 + x)) div 32 \<noteq> 6 \<and> unat (byte_of (240 + x)) div 16 \<noteq> 14"
proof -
  have "unat (byte_of (240 + x)) = 240 + x" using assms by simp
  moreover have "(240 + x) div 32 = 7" using field_split [of "16 + x" 32 7] assms by simp
  moreover have "(240 + x) div 16 = 15" using field_split [of x 16 15] assms by simp
  ultimately show ?thesis using field_split [of x 8 30] assms by simp
qed

lemma lead_split:
  "unat c div 32 = 6 \<Longrightarrow> c = byte_of (192 + unat c mod 32)"
  "unat c div 16 = 14 \<Longrightarrow> c = byte_of (224 + unat c mod 16)"
  "unat c div 8 = 30 \<Longrightarrow> c = byte_of (240 + unat c mod 8)"
  using div_mult_mod_eq [of "unat c" 32] div_mult_mod_eq [of "unat c" 16] div_mult_mod_eq [of "unat c" 8]
  by (simp_all add: byte_of_eqI)

lemma continue_cont:
  assumes "y < 64" "unat v < 2 ^ 26"
  shows "utf8_continue (Suc n) v (byte_of (128 + y) # cbs) = utf8_continue n (word_of_nat (unat v * 64 + y)) cbs"
proof -
  have y: "unat (to_u32 (byte_of (128 + y) AND mask 6)) = y"
    using and_mask_unat [of "byte_of (128 + y)" 6] cont_class [OF assms(1)] by simp
  have "unat (push_bit 6 v OR to_u32 (byte_of (128 + y) AND mask 6)) = unat v * 64 + y"
    using or_push_bit_unat [of "to_u32 (byte_of (128 + y) AND mask 6)" 6 v] assms unfolding y by (simp add: or.commute)
  then have w: "push_bit 6 v OR to_u32 (byte_of (128 + y) AND mask 6) = word_of_nat (unat v * 64 + y)"
    by (rule word_of_unatI)
  show ?thesis using cont_class [OF assms(1)] by (simp add: utf8_classes utf8_cont_class bottom_bits w del: of_nat_add of_nat_mult)
qed

lemma continue_Some:
  "utf8_continue n v cbs = (Some w, rest) \<Longrightarrow>
    \<exists>ys. length ys = n \<and> (\<forall>y \<in> set ys. y < 64) \<and> cbs = map (\<lambda>y. byte_of (128 + y)) ys @ rest"
proof (induction n v cbs rule: utf8_continue.induct)
  case (2 n v cbs)
  then obtain d cbs' where d: "cbs = d # cbs'" by (cases cbs) auto
  then have c: "unat d div 64 = 2" using 2(2) by (simp add: utf8_cont_class split: if_splits)
  then obtain ys where "length ys = n" "\<forall>y \<in> set ys. y < 64" "cbs' = map (\<lambda>y. byte_of (128 + y)) ys @ rest"
    using 2 d by (auto simp: utf8_cont_class utf8_classes)
  then show ?case using cont_split [OF c] d by (intro exI [of _ "(unat d mod 64) # ys"]) simp
qed simp

lemma get_utf8_Cons:
  "CBS_get_utf8 (c # cbs) =
    (if unat c < 128 then (Some (word_of_nat (unat c)), cbs)
     else if unat c div 32 = 6 then get_then (utf8_continue 1 (word_of_nat (unat c mod 32)) cbs) (\<lambda>v cbs.
       if is_valid_code_point v \<and> 0x80 \<le> unat v then (Some v, cbs) else (None, cbs))
     else if unat c div 16 = 14 then get_then (utf8_continue 2 (word_of_nat (unat c mod 16)) cbs) (\<lambda>v cbs.
       if is_valid_code_point v \<and> 0x800 \<le> unat v then (Some v, cbs) else (None, cbs))
     else if unat c div 8 = 30 then get_then (utf8_continue 3 (word_of_nat (unat c mod 8)) cbs) (\<lambda>v cbs.
       if is_valid_code_point v \<and> 0x10000 \<le> unat v then (Some v, cbs) else (None, cbs))
     else (None, cbs))"
proof -
  have m: "to_u32 (c AND mask k) = word_of_nat (unat c mod 2 ^ k)" for k
    by (rule word_of_unatI) (simp add: and_mask_unat)
  have l: "c \<le> 0x7f \<longleftrightarrow> unat c < 128" by (simp add: word_le_nat_alt) linarith
  have b: "(if \<not> is_valid_code_point v \<or> v < word_of_nat k then (None, cbs) else (Some v, cbs)) =
      (if is_valid_code_point v \<and> k \<le> unat v then (Some v, cbs) else (None, cbs))" if "k < 2 ^ 32" for v :: u32 and k and cbs :: cbs
    using that by (auto simp: word_less_nat_alt unat_of_nat)
  show ?thesis
    using b [of 128] b [of "0x800"] b [of "0x10000"] m [of 5] m [of 4] m [of 3]
    by (simp add: CBS_get_utf8_def l utf8_classes bottom_bits cong: if_cong)
qed

lemma valid_range: "is_valid_code_point u \<Longrightarrow> unat u \<le> 0x10ffff"
  by (auto simp: is_valid_code_point_def word_less_nat_alt split: if_splits)

lemma valid_ascii:
  assumes "unat u < 128"
  shows "is_valid_code_point u"
proof -
  have "u AND 0xfffe \<noteq> 0xfffe"
  proof
    assume "u AND 0xfffe = 0xfffe"
    then have "unat (0xfffe :: u32) \<le> unat u" by (metis word_and_le2 word_le_nat_alt and.commute)
    then show False using assms by simp
  qed
  then show ?thesis using assms by (simp add: is_valid_code_point_def word_less_nat_alt word_le_nat_alt)
qed

lemma small_unat: "n < 2 ^ 32 \<Longrightarrow> unat (word_of_nat n :: u32) = n"
  by (simp add: unat_of_nat)

lemma continue_step:
  assumes "y < 64" "k < 2 ^ 26" "m = k * 64 + y"
  shows "utf8_continue (Suc n) (word_of_nat k) (byte_of (128 + y) # cbs) = utf8_continue n (word_of_nat m) cbs"
proof -
  have u: "unat (word_of_nat k :: u32) = k" using assms(2) by (intro small_unat) simp
  show ?thesis using continue_cont [OF assms(1), of "word_of_nat k"] assms(2) unfolding u assms(3) by simp
qed

lemma get_utf8_2:
  assumes "x < 32" "y < 64" "n = x * 64 + y"
  shows "CBS_get_utf8 (byte_of (192 + x) # byte_of (128 + y) # cbs) =
    (if is_valid_code_point (word_of_nat n) \<and> 0x80 \<le> n then (Some (word_of_nat n), cbs) else (None, cbs))"
proof -
  have u: "unat (word_of_nat n :: u32) = n" using assms by (intro small_unat) simp
  have "utf8_continue 1 (word_of_nat x) (byte_of (128 + y) # cbs) = (Some (word_of_nat n), cbs)"
    using continue_step [OF assms(2) _ assms(3), of 0] assms(1) by simp
  moreover have "\<not> unat (byte_of (192 + x)) < 128" using assms(1) by simp
  ultimately show ?thesis using lead_class2 [OF assms(1)] unfolding get_utf8_Cons by (simp add: u)
qed

lemma get_utf8_3:
  assumes "x < 16" "y < 64" "z < 64" "m = x * 64 + y" "n = m * 64 + z"
  shows "CBS_get_utf8 (byte_of (224 + x) # byte_of (128 + y) # byte_of (128 + z) # cbs) =
    (if is_valid_code_point (word_of_nat n) \<and> 0x800 \<le> n then (Some (word_of_nat n), cbs) else (None, cbs))"
proof -
  have m: "m < 2 ^ 10" using assms by simp
  have u: "unat (word_of_nat n :: u32) = n" using m assms(3,5) by (intro small_unat) simp
  have c: "utf8_continue 2 (word_of_nat x) (byte_of (128 + y) # byte_of (128 + z) # cbs) = (Some (word_of_nat n), cbs)"
  proof -
    have b: "x < 2 ^ 26" "m < 2 ^ 26" using assms(1) m by simp_all
    show ?thesis
      using continue_step [OF assms(2) b(1) assms(4), of 1] continue_step [OF assms(3) b(2) assms(5), of 0]
      by (simp only: Suc_1 One_nat_def [symmetric] utf8_continue.simps(1))
  qed
  have "\<not> unat (byte_of (224 + x)) < 128" using assms(1) by simp
  then show ?thesis using lead_class3 [OF assms(1)] c unfolding get_utf8_Cons by (simp add: u)
qed

lemma get_utf8_4:
  assumes "x < 8" "y < 64" "z < 64" "t < 64" "k = x * 64 + y" "m = k * 64 + z" "n = m * 64 + t"
  shows "CBS_get_utf8 (byte_of (240 + x) # byte_of (128 + y) # byte_of (128 + z) # byte_of (128 + t) # cbs) =
    (if is_valid_code_point (word_of_nat n) \<and> 0x10000 \<le> n then (Some (word_of_nat n), cbs) else (None, cbs))"
proof -
  have k: "k < 2 ^ 9" using assms(1,2,5) by simp
  have m: "m < 2 ^ 15" using k assms(3,6) by simp
  have u: "unat (word_of_nat n :: u32) = n" using m assms(4,7) by (intro small_unat) simp
  have c: "utf8_continue 3 (word_of_nat x) (byte_of (128 + y) # byte_of (128 + z) # byte_of (128 + t) # cbs) =
      (Some (word_of_nat n), cbs)"
  proof -
    have b: "x < 2 ^ 26" "k < 2 ^ 26" "m < 2 ^ 26" using assms(1) k m by simp_all
    have s3: "Suc 2 = 3" by simp
    show ?thesis
      using continue_step [OF assms(2) b(1) assms(5), of 2] continue_step [OF assms(3) b(2) assms(6), of 1]
        continue_step [OF assms(4) b(3) assms(7), of 0]
      by (simp only: s3 Suc_1 One_nat_def [symmetric] utf8_continue.simps(1))
  qed
  have "\<not> unat (byte_of (240 + x)) < 128" using assms(1) by simp
  then show ?thesis using lead_class4 [OF assms(1)] c unfolding get_utf8_Cons by (simp add: u)
qed

text \<open>The encoding from its fields.\<close>

lemma utf8_2:
  assumes "x < 32" "y < 64" "n = x * 64 + y" "0x80 \<le> n"
  shows "utf8 n = [byte_of (192 + x), byte_of (128 + y)]"
proof -
  have d: "n div 64 = x" "n mod 64 = y" "n < 0x800" using assms by simp_all
  show ?thesis using assms(4) d by (simp add: utf8_def cont_byte_def)
qed

lemma utf8_3:
  assumes "x < 16" "y < 64" "z < 64" "m = x * 64 + y" "n = m * 64 + z" "0x800 \<le> n"
  shows "utf8 n = [byte_of (224 + x), byte_of (128 + y), byte_of (128 + z)]"
proof -
  have m: "m div 64 = x" "m mod 64 = y" "m < 1024" using assms(1,2,4) by simp_all
  have n: "n div 64 = m" "n mod 64 = z" "n < 0x10000" using m(3) assms(3,5) by simp_all
  have "n div 4096 = x" using div_mult2_eq [of n 64 64] m n by simp
  then show ?thesis using assms(6) m n by (simp add: utf8_def cont_byte_def)
qed

lemma utf8_4:
  assumes "x < 8" "y < 64" "z < 64" "t < 64" "k = x * 64 + y" "m = k * 64 + z" "n = m * 64 + t" "0x10000 \<le> n"
  shows "utf8 n = [byte_of (240 + x), byte_of (128 + y), byte_of (128 + z), byte_of (128 + t)]"
proof -
  have k: "k div 64 = x" "k mod 64 = y" using assms(2,5) by simp_all
  have m: "m div 64 = k" "m mod 64 = z" using assms(3,6) by simp_all
  have n: "n div 64 = m" "n mod 64 = t" using assms(4,7) by simp_all
  have n2: "n div 4096 = k" using div_mult2_eq [of n 64 64] m n by simp
  have n3: "n div 262144 = x" using div_mult2_eq [of n 4096 64] k n2 by simp
  show ?thesis using assms(8) k m n n2 n3 by (simp add: utf8_def cont_byte_def)
qed

lemma split64: "n < b * 64 \<Longrightarrow> \<exists>x y. n = x * 64 + y \<and> x < b \<and> y < (64 :: nat)"
  by (intro exI [of _ "n div 64"] exI [of _ "n mod 64"]) (simp add: less_mult_imp_div_less)

lemma get_utf8_utf8:
  assumes "is_valid_code_point u"
  shows "CBS_get_utf8 (utf8 (unat u) @ rest) = (Some u, rest)"
proof -
  define n where "n = unat u"
  have u: "word_of_nat n = u" by (simp add: n_def)
  have n: "n < 8 * 64 * 64 * 64" using valid_range [OF assms] by (simp add: n_def)
  consider "n < 0x80" | "0x80 \<le> n" "n < 32 * 64" | "0x800 \<le> n" "n < 16 * 64 * 64" | "0x10000 \<le> n" by linarith
  then have "CBS_get_utf8 (utf8 n @ rest) = (Some u, rest)"
  proof cases
    case 1
    then show ?thesis by (simp add: utf8_def get_utf8_Cons u)
  next
    case 2
    obtain x y where xy: "n = x * 64 + y" "x < 32" "y < 64" using split64 [OF 2(2)] by blast
    show ?thesis unfolding utf8_2 [OF xy(2,3,1) 2(1)] using get_utf8_2 [OF xy(2,3,1), of rest] assms 2(1) u by simp
  next
    case 3
    obtain m z where m: "n = m * 64 + z" "m < 16 * 64" "z < 64" using split64 [OF 3(2)] by blast
    obtain x y where xy: "m = x * 64 + y" "x < 16" "y < 64" using split64 [OF m(2)] by blast
    show ?thesis unfolding utf8_3 [OF xy(2,3) m(3) xy(1) m(1) 3(1)]
      using get_utf8_3 [OF xy(2,3) m(3) xy(1) m(1), of rest] assms 3(1) u by simp
  next
    case 4
    obtain k t where k: "n = k * 64 + t" "k < 8 * 64 * 64" "t < 64" using split64 [OF n] by blast
    obtain m z where m: "k = m * 64 + z" "m < 8 * 64" "z < 64" using split64 [OF k(2)] by blast
    obtain x y where xy: "m = x * 64 + y" "x < 8" "y < 64" using split64 [OF m(2)] by blast
    show ?thesis unfolding utf8_4 [OF xy(2,3) m(3) k(3) xy(1) m(1) k(1) 4]
      using get_utf8_4 [OF xy(2,3) m(3) k(3) xy(1) m(1) k(1), of rest] assms 4 u by simp
  qed
  then show ?thesis by (simp only: n_def)
qed

lemma get_utf8_canonical:
  assumes "CBS_get_utf8 cbs = (Some u, rest)"
  shows "is_valid_code_point u \<and> cbs = utf8 (unat u) @ rest"
proof -
  obtain c xs where cbs: "cbs = c # xs" using assms by (cases cbs) (auto simp: CBS_get_utf8_def)
  note g = assms [unfolded cbs get_utf8_Cons]
  have fin: "is_valid_code_point u \<and> cbs = bs @ rest \<and> unat u = n"
    if "CBS_get_utf8 cbs = (if is_valid_code_point (word_of_nat n) \<and> b \<le> n then (Some (word_of_nat n), rest) else (None, rest))"
      "cbs = bs @ rest" "n < 2 ^ 32" for n b bs
    using that assms by (auto simp: small_unat split: if_splits)
  have low: "b \<le> n"
    if "CBS_get_utf8 cbs = (if is_valid_code_point (word_of_nat n) \<and> b \<le> n then (Some (word_of_nat n), rest) else (None, rest))" for n b
    using that assms by (auto split: if_splits)
  consider "unat c < 128" | "\<not> unat c < 128" "unat c div 32 = 6" | "\<not> unat c < 128" "unat c div 32 \<noteq> 6" "unat c div 16 = 14"
    | "\<not> unat c < 128" "unat c div 32 \<noteq> 6" "unat c div 16 \<noteq> 14" "unat c div 8 = 30"
    using g by (auto split: if_splits)
  then show ?thesis
  proof cases
    case 1
    then have "unat u = unat c" "xs = rest" using g by auto
    then show ?thesis using 1 valid_ascii [of u] by (simp add: utf8_def cbs)
  next
    case 2
    obtain w where w: "utf8_continue 1 (word_of_nat (unat c mod 32)) xs = (Some w, rest)"
      using g 2 by (auto elim!: get_then_SomeE split: if_splits)
    obtain y where y: "y < 64" "xs = byte_of (128 + y) # rest"
      using continue_Some [OF w] by (auto simp: length_Suc_conv)
    obtain x where x: "x < 32" "c = byte_of (192 + x)" using lead_split(1) [OF 2(2)] by (metis mod_less_divisor zero_less_numeral)
    have e: "cbs = byte_of (192 + x) # byte_of (128 + y) # rest" by (simp add: cbs x y)
    note G = get_utf8_2 [OF x(1) y(1) refl, of rest, folded e]
    show ?thesis
      using fin [OF G, of "[byte_of (192 + x), byte_of (128 + y)]"] e utf8_2 [OF x(1) y(1) refl low [OF G]] x(1) y(1) by simp
  next
    case 3
    obtain w where w: "utf8_continue 2 (word_of_nat (unat c mod 16)) xs = (Some w, rest)"
      using g 3 by (auto elim!: get_then_SomeE split: if_splits)
    obtain y z where y: "y < 64" "z < 64" "xs = byte_of (128 + y) # byte_of (128 + z) # rest"
      using continue_Some [OF w] by (auto simp: length_Suc_conv numeral_2_eq_2)
    obtain x where x: "x < 16" "c = byte_of (224 + x)" using lead_split(2) [OF 3(3)] by (metis mod_less_divisor zero_less_numeral)
    have e: "cbs = byte_of (224 + x) # byte_of (128 + y) # byte_of (128 + z) # rest" by (simp add: cbs x y)
    note G = get_utf8_3 [OF x(1) y(1,2) refl refl, of rest, folded e]
    show ?thesis
      using fin [OF G, of "[byte_of (224 + x), byte_of (128 + y), byte_of (128 + z)]"] e
        utf8_3 [OF x(1) y(1,2) refl refl low [OF G]] x(1) y(1,2) by simp
  next
    case 4
    obtain w where w: "utf8_continue 3 (word_of_nat (unat c mod 8)) xs = (Some w, rest)"
      using g 4 by (auto elim!: get_then_SomeE split: if_splits)
    obtain y z t where y: "y < 64" "z < 64" "t < 64" "xs = byte_of (128 + y) # byte_of (128 + z) # byte_of (128 + t) # rest"
      using continue_Some [OF w] by (auto simp: length_Suc_conv numeral_3_eq_3)
    obtain x where x: "x < 8" "c = byte_of (240 + x)" using lead_split(3) [OF 4(4)] by (metis mod_less_divisor zero_less_numeral)
    have e: "cbs = byte_of (240 + x) # byte_of (128 + y) # byte_of (128 + z) # byte_of (128 + t) # rest" by (simp add: cbs x y)
    note G = get_utf8_4 [OF x(1) y(1,2,3) refl refl refl, of rest, folded e]
    show ?thesis
      using fin [OF G, of "[byte_of (240 + x), byte_of (128 + y), byte_of (128 + z), byte_of (128 + t)]"] e
        utf8_4 [OF x(1) y(1,2,3) refl refl refl low [OF G]] x(1) y(1,2,3) by simp
  qed
qed

section \<open>The writer\<close>

lemma top_values: "TOP_BITS 1 = byte_of (4 * 32)" "TOP_BITS 2 = byte_of (6 * 32)" "TOP_BITS 3 = byte_of (7 * 32)"
  "TOP_BITS 4 = byte_of (7 * 32 + 16)"
  by (simp_all add: TOP_BITS_def BOTTOM_BITS_def byte_of_def)

lemma or_top:
  assumes "x < 2 ^ k" "k \<le> 8" "a * 2 ^ k + x < 256"
  shows "to_u8 (to_u32 (byte_of (a * 2 ^ k)) OR word_of_nat x) = byte_of (a * 2 ^ k + x)"
proof -
  have a: "a * 2 ^ k < 256" using assms(3) by simp
  have al: "a < 256"
    using a by (metis le_less_trans le_square mult.commute mult_le_mono1 nat_mult_1_right one_le_numeral one_le_power)
  have u: "unat (word_of_nat a :: u32) = a" using al by (simp add: unat_of_nat)
  have ux: "unat (word_of_nat x :: u32) = x" using assms(3) by (simp add: unat_of_nat)
  have p: "to_u32 (byte_of (a * 2 ^ k)) = push_bit k (word_of_nat a)"
  proof -
    have "unat (push_bit k (word_of_nat a :: u32)) = a * 2 ^ k"
      unfolding unsigned_push_bit_eq u using a by (simp add: push_bit_eq_mult take_bit_eq_mod)
    moreover have "unat (to_u32 (byte_of (a * 2 ^ k))) = a * 2 ^ k" using a by simp
    ultimately show ?thesis by (simp add: word_unat_eq_iff)
  qed
  have "unat (word_of_nat x OR push_bit k (word_of_nat a) :: u32) = x + a * 2 ^ k"
    using or_push_bit_unat [of "word_of_nat x :: u32" k "word_of_nat a"] assms a unfolding u ux by simp
  then have "unat (to_u32 (byte_of (a * 2 ^ k)) OR word_of_nat x) = a * 2 ^ k + x" unfolding p by (simp add: or.commute)
  then show ?thesis
    by (intro byte_of_eqI) (simp only: unsigned_ucast_eq, use assms(3) in \<open>simp add: take_bit_eq_mod\<close>)
qed

lemma drop_word: "drop_bit k (u :: u32) = word_of_nat (unat u div 2 ^ k)"
proof (rule word_of_unatI)
  have "unat u < 2 ^ 32" using unsigned_less [of u] by simp
  then have "take_bit 32 (unat u) = unat u" by (simp add: take_bit_eq_mod)
  then show "unat (drop_bit k u) = unat u div 2 ^ k"
    by (simp only: unsigned_drop_bit_eq) (simp add: drop_bit_eq_div)
qed

lemma add_continuation_u8: "add_continuation r x s = CBB_add_u8 s r (cont_byte (unat x))"
proof -
  let ?y = "unat x mod 64"
  have m: "x AND to_u32 (BOTTOM_BITS 6) = word_of_nat ?y"
  proof (rule word_of_unatI)
    have "to_u32 (BOTTOM_BITS 6) = mask 6" by (simp add: bottom_bits mask_eq_exp_minus_1)
    then show "unat (x AND to_u32 (BOTTOM_BITS 6)) = ?y" using and_mask_unat [of x 6] by simp
  qed
  have b: "to_u8 (word_of_nat ?y :: u32) = byte_of ?y"
    by (rule byte_of_eqI) (simp only: unsigned_ucast_eq, simp add: unat_of_nat take_bit_eq_mod)
  have "byte_of ?y OR push_bit 7 (byte_of 1) = byte_of (128 + ?y)"
    using or_push_bit_unat [of "byte_of ?y" 7 "byte_of 1"] by (intro byte_of_eqI) (simp add: add.commute)
  moreover have "TOP_BITS 1 = push_bit 7 (byte_of 1)" by (simp add: TOP_BITS_def BOTTOM_BITS_def byte_of_def)
  ultimately have "TOP_BITS 1 OR byte_of ?y = cont_byte (unat x)" by (simp add: or.commute cont_byte_def)
  then show ?thesis unfolding add_continuation_def m b by simp
qed

lemma add_utf8_emit:
  assumes "is_valid_code_point u"
  shows "CBB_add_utf8 cbb r u = emit_bytes (\<lambda>s b. CBB_add_u8 s r b) cbb (utf8 (unat u))"
proof -
  define n where "n = unat u"
  have n: "n \<le> 0x10ffff" using valid_range [OF assms] by (simp add: n_def)
  have le: "u \<le> 0x7f \<longleftrightarrow> n < 0x80" "u \<le> 0x7ff \<longleftrightarrow> n < 0x800" "u \<le> 0xffff \<longleftrightarrow> n < 0x10000" "u \<le> 0x10ffff"
    using n by (auto simp: word_le_nat_alt n_def)
  have n32: "n < 2 ^ 32" using n by simp
  have dd: "unat (drop_bit k u) = n div 2 ^ k" for k
    unfolding drop_word n_def [symmetric] using n32 by (intro small_unat) (metis div_le_dividend le_less_trans)
  have cont: "add_continuation r (drop_bit k u) = (\<lambda>s. CBB_add_u8 s r (cont_byte (n div 2 ^ k)))"
    "add_continuation r u = (\<lambda>s. CBB_add_u8 s r (cont_byte n))" for k
    by (simp_all add: fun_eq_iff add_continuation_u8 dd n_def [symmetric])
  have one: "to_u8 u = byte_of n" if "n < 0x80"
    by (rule byte_of_eqI) (simp only: unsigned_ucast_eq n_def [symmetric], use that in \<open>simp add: take_bit_eq_mod\<close>)
  have lead2: "to_u8 (to_u32 (TOP_BITS 2) OR drop_bit 6 u) = byte_of (192 + n div 64)" if "n < 0x800"
    using or_top [of "n div 64" 5 6] that unfolding top_values(2) drop_word n_def [symmetric] by (simp add: less_mult_imp_div_less)
  have lead3: "to_u8 (to_u32 (TOP_BITS 3) OR drop_bit 12 u) = byte_of (224 + n div 4096)" if "n < 0x10000"
    using or_top [of "n div 4096" 5 7] that unfolding top_values(3) drop_word n_def [symmetric] by (simp add: less_mult_imp_div_less)
  have lead4: "to_u8 (to_u32 (TOP_BITS 4) OR drop_bit 18 u) = byte_of (240 + n div 262144)"
    using or_top [of "n div 262144" 4 15] n unfolding top_values(4) drop_word n_def [symmetric] by (simp add: less_mult_imp_div_less)
  consider "n < 0x80" | "\<not> n < 0x80" "n < 0x800" | "\<not> n < 0x800" "n < 0x10000" | "\<not> n < 0x10000" by linarith
  then have "CBB_add_utf8 cbb r u = emit_bytes (\<lambda>s b. CBB_add_u8 s r b) cbb (utf8 n)"
  proof cases
    case 1
    then show ?thesis using assms by (simp add: CBB_add_utf8_def le one utf8_def)
  next
    case 2
    then show ?thesis using assms lead2 by (simp add: CBB_add_utf8_def le utf8_def cont)
  next
    case 3
    then show ?thesis using assms lead3 by (simp add: CBB_add_utf8_def le utf8_def cont)
  next
    case 4
    then show ?thesis using assms lead4 by (simp add: CBB_add_utf8_def le utf8_def cont)
  qed
  then show ?thesis by (simp only: n_def)
qed

lemma utf8_length: "length (utf8 (unat u)) = CBB_get_utf8_len u"
proof -
  have "u \<le> 0x7f \<longleftrightarrow> unat u < 0x80" "u \<le> 0x7ff \<longleftrightarrow> unat u < 0x800" "u \<le> 0xffff \<longleftrightarrow> unat u < 0x10000"
    by (auto simp: word_le_nat_alt)
  then show ?thesis by (simp add: utf8_def CBB_get_utf8_len_def)
qed

text \<open>
  C23. UTF-8 round trips and is canonical: for a valid code point \<open>u\<close>, \<open>CBB_add_utf8\<close> appends
  \<open>utf8\<close> of it, which has the length \<open>CBB_get_utf8_len\<close> says (and succeeds whenever there is
  room), and \<open>CBS_get_utf8\<close> returns \<open>u\<close> exactly on the inputs that start with these bytes, so
  over-long forms are refused. Nothing but valid code points is ever returned.
\<close>
theorem utf8_roundtrip:
  assumes "is_valid_code_point u"
  shows "appends (\<lambda>s. CBB_add_utf8 s r u) r (utf8 (unat u)) \<and> length (utf8 (unat u)) = CBB_get_utf8_len u \<and>
    (CBS_get_utf8 cbs = (Some u, rest) \<longleftrightarrow> cbs = utf8 (unat u) @ rest) \<and>
    (\<forall>v s. CBS_get_utf8 cbs = (Some v, s) \<longrightarrow> is_valid_code_point v)"
  using add_utf8_emit [OF assms] appends_emit [of r "utf8 (unat u)"] utf8_length get_utf8_utf8 [OF assms]
    get_utf8_canonical by auto

theorem utf8_roundtrip_witness: "CBS_get_utf8 [0xe2, 0x82, 0xac, 7] = (Some 0x20ac, [7])"
proof -
  have v: "is_valid_code_point 0x20ac" by (simp add: is_valid_code_point_def)
  have "utf8 (unat (0x20ac :: u32)) = [0xe2, 0x82, 0xac]" by (simp add: utf8_def cont_byte_def byte_of_def)
  then show ?thesis using utf8_roundtrip [OF v, of Top "[0xe2, 0x82, 0xac, 7]" "[7]"] by simp
qed

end
