(* ===== verification/Ber.thy ===== *)
theory Ber
  imports CbbInvariant
begin

text \<open>
  BER to DER: \<open>crypto/bytestring/ber.c\<close> and \<open>CBB_finish_i2d\<close> of
  \<open>asn1_compat.c\<close>. \<open>cbs_find_ber\<close> terminates because contents and rest are shorter than the
  input. \<open>cbs_convert_ber\<close> shares its input with the recursive call for an indefinite-length
  element, so it has fuel, and \<open>None\<close> is running out of it; more fuel than input bytes is enough.
\<close>

section \<open>Operations\<close>

definition kMaxDepth :: nat where "kMaxDepth = 128"

definition is_string_type :: "u32 \<Rightarrow> bool" where
  "is_string_type tag \<longleftrightarrow>
    tag AND NOT CBS_ASN1_CONSTRUCTED \<in> {0x4, 0xc, 0x12, 0x13, 0x14, 0x15, 0x16, 0x19, 0x1a, 0x1b, 0x1c, 0x1e}"

lemma ber_element_shorter:
  assumes "CBS_get_any_ber_asn1_element cbs = (Some e, rest)"
  shows "length rest < length cbs"
    and "CBS_skip (el_header_len e) (el_bytes e) = (Some (), contents) \<Longrightarrow> length contents < length cbs"
proof -
  have g: "cbs_get_any_asn1_element True cbs = (Some e, rest)"
    using assms by (simp add: CBS_get_any_ber_asn1_element_def)
  obtain tag b header where p: "parse_asn1_tag cbs = (Some tag, b # header)"
    using any_element_Some_parts [OF g] by blast
  have cbs: "cbs = der_tag tag @ b # header" by (rule parse_tag_canonical(1) [OF p])
  have h: "0 < length cbs - length header" by (simp add: cbs)
  have s: "cbs = el_bytes e @ rest" "el_header_len e \<le> length (el_bytes e)" using any_element_safe [OF g] by simp_all
  have "0 < el_header_len e"
    using g h unfolding any_element_unfold [OF p] by (auto simp: Let_def element_at_Some split: if_splits)
  then show "length rest < length cbs" "CBS_skip (el_header_len e) (el_bytes e) = (Some (), contents) \<Longrightarrow> length contents < length cbs"
    using s by (auto simp: CBS_skip_def cbs_get_def split: if_splits)
qed



text \<open>Whether an end of contents was consumed.\<close>

definition cbs_get_eoc :: "cbs \<Rightarrow> bool \<times> cbs" where
  "cbs_get_eoc cbs =
    (if length cbs \<ge> 2 \<and> cbs ! 0 = 0 \<and> cbs ! 1 = 0 then
       (case CBS_skip 2 cbs of (None, cbs) \<Rightarrow> (False, cbs) | (Some _, cbs) \<Rightarrow> (True, cbs))
     else (False, cbs))"

text \<open>The result is success, the input that is left and the writer. \<open>out\<close> is the \<open>CBB\<close>
  that is written to; \<open>out_contents_storage\<close> is a local of each call.\<close>

fun cbs_convert_ber ::
  "nat \<Rightarrow> cbs \<Rightarrow> cbb \<Rightarrow> cbb_ref \<Rightarrow> u32 \<Rightarrow> bool \<Rightarrow> nat \<Rightarrow> (bool \<times> cbs \<times> cbb) option" where
  "cbs_convert_ber 0 inp cbb out string_tag looking_for_eoc depth = None"
| "cbs_convert_ber (Suc fuel) inp cbb out string_tag looking_for_eoc depth =
    (if depth > kMaxDepth then Some (False, inp, cbb)
     else if inp = [] then Some (\<not> looking_for_eoc, inp, cbb)
     else if looking_for_eoc \<and> fst (cbs_get_eoc inp) then Some (True, snd (cbs_get_eoc inp), cbb)
     else
       case CBS_get_any_ber_asn1_element inp of
         (None, inp) \<Rightarrow> Some (False, inp, cbb)
       | (Some e, inp) \<Rightarrow>
         let tag = el_tag e;
             constructed_string = (tag AND CBS_ASN1_CONSTRUCTED \<noteq> 0 \<and> is_string_type tag);
             out_tag = (if constructed_string then tag AND NOT CBS_ASN1_CONSTRUCTED else tag);
             child_string_tag = (if string_tag = 0 \<and> constructed_string then out_tag else string_tag);
             p = fresh_ptr cbb;
             out_contents = (if string_tag \<noteq> 0 then out else Child p) in
         case (if string_tag \<noteq> 0 then (tag AND NOT CBS_ASN1_CONSTRUCTED = string_tag, cbb)
               else CBB_add_asn1 cbb out p out_tag) of
           (False, cbb) \<Rightarrow> Some (False, inp, cbb)
         | (True, cbb) \<Rightarrow>
           if el_indefinite e then
             (case cbs_convert_ber fuel inp cbb out_contents child_string_tag True (depth + 1) of
                None \<Rightarrow> None
              | Some (False, inp, cbb) \<Rightarrow> Some (False, inp, cbb)
              | Some (True, inp, cbb) \<Rightarrow>
                (case CBB_flush cbb out of
                   (False, cbb) \<Rightarrow> Some (False, inp, cbb)
                 | (True, cbb) \<Rightarrow> cbs_convert_ber fuel inp cbb out string_tag looking_for_eoc depth))
           else
             (case CBS_skip (el_header_len e) (el_bytes e) of
                (None, _) \<Rightarrow> Some (False, inp, cbb)
              | (Some _, contents) \<Rightarrow>
                (case (if tag AND CBS_ASN1_CONSTRUCTED \<noteq> 0 then
                         map_option (\<lambda>(ok, _, cbb). (ok, cbb))
                           (cbs_convert_ber fuel contents cbb out_contents child_string_tag False (depth + 1))
                       else Some (CBB_add_bytes cbb out_contents contents)) of
                   None \<Rightarrow> None
                 | Some (False, cbb) \<Rightarrow> Some (False, inp, cbb)
                 | Some (True, cbb) \<Rightarrow>
                   (case CBB_flush cbb out of
                      (False, cbb) \<Rightarrow> Some (False, inp, cbb)
                    | (True, cbb) \<Rightarrow> cbs_convert_ber fuel inp cbb out string_tag looking_for_eoc depth))))"

declare cbs_convert_ber.simps(2) [simp del]


function implicit_string_loop :: "cbs \<Rightarrow> u32 \<Rightarrow> cbb \<Rightarrow> bool \<times> cbb" where
  "implicit_string_loop child inner_tag result =
    (if child = [] then (True, result)
     else
       case CBS_get_asn1 inner_tag child of
         (None, _) \<Rightarrow> (False, result)
       | (Some chunk, child) \<Rightarrow>
           then_ok (CBB_add_bytes result Top chunk) (implicit_string_loop child inner_tag))"
  by pat_completeness auto
termination
proof (relation "measure (\<lambda>(child, inner_tag, result). length child)")
  fix child inner_tag result r chunk rest and x :: cbb
  assume "(r, rest) = CBS_get_asn1 inner_tag child" "r = Some (chunk :: cbs)"
  then have "child = der_element inner_tag chunk @ rest" using get_asn1_iff [of inner_tag child chunk rest] by simp
  moreover have "0 < length (der_element inner_tag chunk)" by (simp add: der_element_def)
  ultimately show "((rest, inner_tag, x), child, inner_tag, result) \<in> measure (\<lambda>(child, inner_tag, result). length child)"
    by simp
qed simp

declare implicit_string_loop.simps [simp del]

definition CBS_get_asn1_implicit_string ::
  "(nat \<Rightarrow> u8 option) \<Rightarrow> cbs \<Rightarrow> u32 \<Rightarrow> u32 \<Rightarrow> (cbs \<times> bool) option \<times> cbs" where
  "CBS_get_asn1_implicit_string h inp outer_tag inner_tag =
    (if CBS_peek_asn1_tag outer_tag inp then
       get_then (CBS_get_asn1 outer_tag inp) (\<lambda>v inp. (Some (v, False), inp))
     else
       case CBB_init h (length inp) of
         None \<Rightarrow> (None, inp)
       | Some result \<Rightarrow>
         get_then (CBS_get_asn1 (outer_tag OR CBS_ASN1_CONSTRUCTED) inp) (\<lambda>child inp.
           case implicit_string_loop child inner_tag result of
             (False, _) \<Rightarrow> (None, inp)
           | (True, result) \<Rightarrow> (map_option (\<lambda>data. (data, True)) (fst (CBB_finish result Top True)), inp)))"

text \<open>\<open>outp\<close> is NULL, a pointer to NULL (the result is handed over), or a pointer into the
  caller's buffer; no result when the bytes do not fit there.\<close>

datatype i2d_out = NoOut | OutNull | OutBuf "u8 list" nat

definition CBB_finish_i2d :: "cbb \<Rightarrow> i2d_out \<Rightarrow> (int \<times> i2d_out) option" where
  "CBB_finish_i2d cbb outp =
    (case fst (CBB_finish cbb Top True) of
       None \<Rightarrow> Some (-1, outp)
     | Some der \<Rightarrow>
       if length der > 2 ^ 31 - 1 then Some (-1, outp)
       else
         (case outp of
            NoOut \<Rightarrow> Some (int (length der), NoOut)
          | OutNull \<Rightarrow> Some (int (length der), OutBuf der 0)
          | OutBuf buf p \<Rightarrow> do { buf \<leftarrow> copy_to buf p der; Some (int (length der), OutBuf buf (p + length der)) }))"

section \<open>Termination\<close>

lemma get_eoc_shorter: "length (snd (cbs_get_eoc cbs)) \<le> length cbs"
  by (simp add: cbs_get_eoc_def CBS_skip_def cbs_get_def)

definition enough :: "nat \<Rightarrow> (bool \<times> cbs \<times> cbb) option \<Rightarrow> bool" where
  "enough n r \<longleftrightarrow> (case r of None \<Rightarrow> False | Some (ok, rest, cbb) \<Rightarrow> length rest \<le> n)"

lemma enough_simps [simp]: "\<not> enough n None" "enough n (Some (ok, rest, cbb)) \<longleftrightarrow> length rest \<le> n"
  by (simp_all add: enough_def)

lemma enough_mono: "enough m r \<Longrightarrow> m \<le> n \<Longrightarrow> enough n r"
  by (auto simp: enough_def split: option.splits)

lemma enoughE: "enough n r \<Longrightarrow> (\<And>ok rest cbb. r = Some (ok, rest, cbb) \<Longrightarrow> length rest \<le> n \<Longrightarrow> P) \<Longrightarrow> P"
  by (cases r) auto

lemma enough_then:
  assumes "enough m r" "m \<le> n" "\<And>rest cbb. length rest \<le> m \<Longrightarrow> enough n (f rest cbb)"
  shows "enough n (case r of None \<Rightarrow> None | Some (False, i, c) \<Rightarrow> Some (False, i, c) | Some (True, i, c) \<Rightarrow> f i c)"
  using assms(1)
proof (rule enoughE)
  fix ok rest cbb
  assume "r = Some (ok, rest, cbb)" "length rest \<le> m"
  then show ?thesis using assms(2,3) by (cases ok) auto
qed

lemma convert_ber_enough:
  "length inp < fuel \<Longrightarrow> enough (length inp) (cbs_convert_ber fuel inp cbb out st eoc depth)"
proof (induction fuel arbitrary: inp cbb out st eoc depth)
  case (Suc fuel)
  show ?case
  proof (cases "depth > kMaxDepth \<or> inp = [] \<or> (eoc \<and> fst (cbs_get_eoc inp))")
    case True
    then show ?thesis using get_eoc_shorter [of inp] by (auto simp: cbs_convert_ber.simps(2))
  next
    case False
    obtain r rest where g: "CBS_get_any_ber_asn1_element inp = (r, rest)" by (cases "CBS_get_any_ber_asn1_element inp")
    show ?thesis
    proof (cases r)
      case None
      then have "rest = inp" using any_element_safe [of True inp r rest] g by (simp add: CBS_get_any_ber_asn1_element_def)
      then show ?thesis using False None g by (auto simp: cbs_convert_ber.simps(2))
    next
      case (Some e)
      have g: "CBS_get_any_ber_asn1_element inp = (Some e, rest)" using g Some by simp
      have sh: "length rest < length inp" by (rule ber_element_shorter(1) [OF g])
      have IH: "enough (length inp) (cbs_convert_ber fuel rest' c o' st' eoc' d')" if "length rest' < length inp" for rest' c o' st' eoc' d'
        by (rule enough_mono [OF Suc.IH]) (use that Suc.prems in simp_all)
      have IHr: "enough (length rest) (cbs_convert_ber fuel rest c o' st' eoc' d')" for c o' st' eoc' d'
        by (rule Suc.IH) (use sh Suc.prems in simp)
      have go: "enough (length inp) (case CBB_flush c out of (False, c) \<Rightarrow> Some (False, rest', c)
          | (True, c) \<Rightarrow> cbs_convert_ber fuel rest' c out st eoc depth)" if "length rest' \<le> length rest" for c rest'
        using IH [of rest'] that sh by (auto split: prod.split bool.split)
      show ?thesis
      proof (cases "el_indefinite e")
        case True
        have "enough (length inp) (case cbs_convert_ber fuel rest c o' st' True (depth + 1) of None \<Rightarrow> None
            | Some (False, i, c) \<Rightarrow> Some (False, i, c)
            | Some (True, i, c) \<Rightarrow> (case CBB_flush c out of (False, c) \<Rightarrow> Some (False, i, c)
                | (True, c) \<Rightarrow> cbs_convert_ber fuel i c out st eoc depth))" for c o' st'
          by (rule enough_then [OF IHr _ go]) (use sh in simp_all)
        then show ?thesis
          using False g True sh
          by (auto simp: cbs_convert_ber.simps(2) Let_def split: prod.split bool.split)
      next
        case False2: False
        obtain k contents where sk: "CBS_skip (el_header_len e) (el_bytes e) = (k, contents)"
          by (cases "CBS_skip (el_header_len e) (el_bytes e)")
        have cs: "cbs_convert_ber fuel contents c o' st' eoc' d' \<noteq> None" if "k = Some u" for u c o' st' eoc' d'
          using IH [of contents] ber_element_shorter(2) [OF g, of contents] sk that by (metis (full_types) enough_simps(1) old.unit.exhaust)
        have body: "enough (length inp)
            (case (if con then map_option (\<lambda>(ok, _, cbb). (ok, cbb)) (cbs_convert_ber fuel contents c o' st' False (depth + 1))
                   else Some (CBB_add_bytes c o' contents)) of
               None \<Rightarrow> None
             | Some (False, c) \<Rightarrow> Some (False, rest, c)
             | Some (True, c) \<Rightarrow> (case CBB_flush c out of (False, c) \<Rightarrow> Some (False, rest, c)
                  | (True, c) \<Rightarrow> cbs_convert_ber fuel rest c out st eoc depth))" if "k = Some u" for u con c o' st'
        proof -
          obtain ok d where "(if con then map_option (\<lambda>(ok, _, cbb). (ok, cbb)) (cbs_convert_ber fuel contents c o' st' False (depth + 1))
                   else Some (CBB_add_bytes c o' contents)) = Some (ok, d)"
            using cs [OF \<open>k = Some u\<close>, of c o' st' False "depth + 1"] by (cases con; cases "CBB_add_bytes c o' contents") auto
          then show ?thesis using go [of rest d] sh by (cases ok) simp_all
        qed
        show ?thesis
        proof (cases k)
          case None
          then show ?thesis using False g False2 sh sk by (auto simp: cbs_convert_ber.simps(2) Let_def split: prod.split bool.split)
        next
          case (Some u)
          then have sk: "CBS_skip (el_header_len e) (el_bytes e) = (Some u, contents)" using sk by simp
          have "enough (length inp) (case A of (False, c) \<Rightarrow> Some (False, rest, c) | (True, c) \<Rightarrow>
             (case (if con then map_option (\<lambda>(ok, _, cbb). (ok, cbb)) (cbs_convert_ber fuel contents c o' st' False (depth + 1))
                   else Some (CBB_add_bytes c o' contents)) of
               None \<Rightarrow> None
             | Some (False, c) \<Rightarrow> Some (False, rest, c)
             | Some (True, c) \<Rightarrow> (case CBB_flush c out of (False, c) \<Rightarrow> Some (False, rest, c)
                  | (True, c) \<Rightarrow> cbs_convert_ber fuel rest c out st eoc depth)))" for A con o' st'
            using body [OF Some] sh by (cases A; cases "fst A") auto
          then show ?thesis
            unfolding cbs_convert_ber.simps(2) Let_def g prod.case option.case sk
            using False False2 by (simp only: if_False de_Morgan_disj simp_thms)
        qed
      qed
    qed
  qed
qed simp

section \<open>What counts as DER\<close>




section \<open>The output\<close>

definition child_writer :: "writer \<Rightarrow> nat \<Rightarrow> u32 \<Rightarrow> u8 list \<Rightarrow> writer" where
  "child_writer w p tag zs =
    (fst (append_inner (der_tag tag) w), snd (append_inner (der_tag tag) w) @ [(p, Asn1, zs)])"

lemma append_child [simp]: "append_inner d (child_writer w p tag zs) = child_writer w p tag (zs @ d)"
  by (simp add: child_writer_def)
















text \<open>
  C17. BER conversion terminates on every input: the fuel \<open>CBS_asn1_ber_to_der\<close> gives to
  \<open>cbs_convert_ber\<close>, one more than the number of input bytes, is always enough, whatever the
  nesting; the conversion ends with a verdict and an input that has not grown.
\<close>
theorem convert_ber_terminates:
  assumes "length inp < fuel"
  shows "\<exists>ok rest cbb'. cbs_convert_ber fuel inp cbb out st eoc depth = Some (ok, rest, cbb') \<and> length rest \<le> length inp"
  using convert_ber_enough [OF assms, of cbb out st eoc depth] by (elim enoughE) blast

theorem convert_ber_terminates_witness:
  "\<exists>ok rest c. cbs_convert_ber 6 [0x30, 0x80, 0, 0, 5] (CBB_init_fixed (\<lambda>_. None) [0, 0]) Top 0 False 0 = Some (ok, rest, c)"
  using convert_ber_terminates [of "[0x30, 0x80, 0, 0, 5]" 6 "CBB_init_fixed (\<lambda>_. None) [0, 0]" Top 0 False 0] by auto

end
