(* ===== verification/NanopbMem.thy ===== *)
theory NanopbMem
  imports NanopbWire "HOL-Library.Monad_Syntax"
begin

text \<open>
  What the message layer of nanopb works on: the memory of the process, the field descriptors of
  \<open>pb.h\<close> and the field iterator of \<open>pb_common.c\<close>.

  Memory maps the addresses that may be accessed to their bytes; an access to any other address is
  undefined behaviour, and has no result (\<open>None\<close>). Values are little-endian, a pointer has
  eight bytes and \<open>pb_size_t\<close> four, as on the targets of the application (which is built with
  \<open>PB_FIELD_32BIT\<close> and \<open>PB_ENABLE_MALLOC\<close>). Address arithmetic wraps. NULL is 0. An
  array of descriptors is the list of its entries before the terminator.
\<close>

section \<open>Memory\<close>

type_synonym addr = u64
type_synonym mem = "addr \<Rightarrow> u8 option"

fun load_bytes :: "mem \<Rightarrow> addr \<Rightarrow> nat \<Rightarrow> u8 list option" where
  "load_bytes m p 0 = Some []"
| "load_bytes m p (Suc n) = do { b \<leftarrow> m p; bs \<leftarrow> load_bytes m (p + 1) n; Some (b # bs) }"

fun le_nat :: "u8 list \<Rightarrow> nat" where
  "le_nat [] = 0"
| "le_nat (b # bs) = unat b + 256 * le_nat bs"

definition load_word :: "mem \<Rightarrow> addr \<Rightarrow> nat \<Rightarrow> 'a::len word option" where
  "load_word m p n = map_option (\<lambda>bs. word_of_nat (le_nat bs)) (load_bytes m p n)"

abbreviation load_ptr :: "mem \<Rightarrow> addr \<Rightarrow> addr option" where "load_ptr m p \<equiv> load_word m p 8"
abbreviation load_size :: "mem \<Rightarrow> addr \<Rightarrow> u32 option" where "load_size m p \<equiv> load_word m p 4"

fun store_bytes :: "mem \<Rightarrow> addr \<Rightarrow> u8 list \<Rightarrow> mem option" where
  "store_bytes m p [] = Some m"
| "store_bytes m p (b # bs) = (if m p = None then None else store_bytes (m(p \<mapsto> b)) (p + 1) bs)"

fun le_bytes :: "nat \<Rightarrow> nat \<Rightarrow> u8 list" where
  "le_bytes 0 v = []"
| "le_bytes (Suc n) v = byte_of (v mod 256) # le_bytes n (v div 256)"

definition store_word :: "mem \<Rightarrow> addr \<Rightarrow> nat \<Rightarrow> 'a::len word \<Rightarrow> mem option" where
  "store_word m p n v = store_bytes m p (le_bytes n (unat v))"

text \<open>\<open>safe_read_bool\<close>: a \<open>bool\<close> is one byte, true when it is not zero.\<close>

definition safe_read_bool :: "mem \<Rightarrow> addr \<Rightarrow> bool option" where
  "safe_read_bool m p = map_option (\<lambda>b. b \<noteq> 0) (m p)"

section \<open>Field descriptors\<close>

record pb_field =
  f_tag :: u32
  f_type :: u8
  f_data_offset :: u32
  f_size_offset :: u32 \<comment> \<open>two's complement\<close>
  f_data_size :: u32
  f_array_size :: u32
  f_ptr :: addr

definition PB_LAST_FIELD :: pb_field where
  "PB_LAST_FIELD = \<lparr>f_tag = 0, f_type = 0, f_data_offset = 0, f_size_offset = 0, f_data_size = 0,
     f_array_size = 0, f_ptr = 0\<rparr>"

abbreviation (input) PB_LTYPE_BOOL :: u8 where "PB_LTYPE_BOOL \<equiv> 0x00"
abbreviation (input) PB_LTYPE_VARINT :: u8 where "PB_LTYPE_VARINT \<equiv> 0x01"
abbreviation (input) PB_LTYPE_UVARINT :: u8 where "PB_LTYPE_UVARINT \<equiv> 0x02"
abbreviation (input) PB_LTYPE_SVARINT :: u8 where "PB_LTYPE_SVARINT \<equiv> 0x03"
abbreviation (input) PB_LTYPE_FIXED32 :: u8 where "PB_LTYPE_FIXED32 \<equiv> 0x04"
abbreviation (input) PB_LTYPE_FIXED64 :: u8 where "PB_LTYPE_FIXED64 \<equiv> 0x05"
abbreviation (input) PB_LTYPE_LAST_PACKABLE :: u8 where "PB_LTYPE_LAST_PACKABLE \<equiv> 0x05"
abbreviation (input) PB_LTYPE_BYTES :: u8 where "PB_LTYPE_BYTES \<equiv> 0x06"
abbreviation (input) PB_LTYPE_STRING :: u8 where "PB_LTYPE_STRING \<equiv> 0x07"
abbreviation (input) PB_LTYPE_SUBMESSAGE :: u8 where "PB_LTYPE_SUBMESSAGE \<equiv> 0x08"
abbreviation (input) PB_LTYPE_EXTENSION :: u8 where "PB_LTYPE_EXTENSION \<equiv> 0x09"
abbreviation (input) PB_LTYPE_FIXED_LENGTH_BYTES :: u8 where "PB_LTYPE_FIXED_LENGTH_BYTES \<equiv> 0x0A"
abbreviation (input) PB_HTYPE_REQUIRED :: u8 where "PB_HTYPE_REQUIRED \<equiv> 0x00"
abbreviation (input) PB_HTYPE_OPTIONAL :: u8 where "PB_HTYPE_OPTIONAL \<equiv> 0x10"
abbreviation (input) PB_HTYPE_REPEATED :: u8 where "PB_HTYPE_REPEATED \<equiv> 0x20"
abbreviation (input) PB_HTYPE_ONEOF :: u8 where "PB_HTYPE_ONEOF \<equiv> 0x30"
abbreviation (input) PB_ATYPE_STATIC :: u8 where "PB_ATYPE_STATIC \<equiv> 0x00"
abbreviation (input) PB_ATYPE_POINTER :: u8 where "PB_ATYPE_POINTER \<equiv> 0x80"
abbreviation (input) PB_ATYPE_CALLBACK :: u8 where "PB_ATYPE_CALLBACK \<equiv> 0x40"
abbreviation (input) PB_SIZE_MAX :: u32 where "PB_SIZE_MAX \<equiv> 0xffffffff"

definition PB_ATYPE :: "u8 \<Rightarrow> u8" where "PB_ATYPE x = x AND 0xC0"
definition PB_HTYPE :: "u8 \<Rightarrow> u8" where "PB_HTYPE x = x AND 0x30"
definition PB_LTYPE :: "u8 \<Rightarrow> u8" where "PB_LTYPE x = x AND 0x0F"

abbreviation ltype :: "pb_field \<Rightarrow> u8" where "ltype f \<equiv> PB_LTYPE (f_type f)"
abbreviation htype :: "pb_field \<Rightarrow> u8" where "htype f \<equiv> PB_HTYPE (f_type f)"
abbreviation atype :: "pb_field \<Rightarrow> u8" where "atype f \<equiv> PB_ATYPE (f_type f)"

text \<open>The offsets as they are added to an address; \<open>size_offset\<close> is signed.\<close>

abbreviation data_offset :: "pb_field \<Rightarrow> addr" where "data_offset f \<equiv> to_u64 (f_data_offset f)"
abbreviation size_offset :: "pb_field \<Rightarrow> addr" where "size_offset f \<equiv> scast (f_size_offset f)"
abbreviation data_size :: "pb_field \<Rightarrow> addr" where "data_size f \<equiv> to_u64 (f_data_size f)"

text \<open>The arrays of descriptors by their address, for the \<open>ptr\<close> of submessage fields.\<close>

type_synonym desc_table = "addr \<Rightarrow> pb_field list option"

definition fields_at :: "desc_table \<Rightarrow> addr \<Rightarrow> pb_field list option" where
  "fields_at D p = (if p = 0 then None else D p)"

definition field_at :: "pb_field list \<Rightarrow> nat \<Rightarrow> pb_field" where
  "field_at fs i = (if i < length fs then fs ! i else PB_LAST_FIELD)"

section \<open>The field iterator\<close>

text \<open>
  \<open>pos\<close> is an index into the array \<open>start\<close>. \<open>pSize\<close> is an address, except while the
  decoder lets it point at its own variable \<open>fixed_count_size\<close>: then it is the value of that
  variable.
\<close>

datatype size_ref = At addr | Fixed_count u32

record pb_field_iter =
  it_start :: "pb_field list"
  it_pos :: nat
  required_field_index :: nat
  dest_struct :: addr
  pData :: addr
  pSize :: size_ref

definition cur :: "pb_field_iter \<Rightarrow> pb_field" where
  "cur it = field_at (it_start it) (it_pos it)"

definition pb_field_iter_begin :: "pb_field list \<Rightarrow> addr \<Rightarrow> bool \<times> pb_field_iter" where
  "pb_field_iter_begin fs dest =
    (let pos = field_at fs 0;
         data = (if dest = 0 then 0 else dest + data_offset pos);
         sz = (if dest = 0 then 0 else data + size_offset pos)
     in (f_tag pos \<noteq> 0,
         \<lparr>it_start = fs, it_pos = 0, required_field_index = 0, dest_struct = dest, pData = data, pSize = At sz\<rparr>))"

definition pb_field_iter_next :: "pb_field_iter \<Rightarrow> bool \<times> pb_field_iter" where
  "pb_field_iter_next it =
    (let prev_field = cur it; pos = field_at (it_start it) (it_pos it + 1) in
     if f_tag prev_field = 0 then (False, it)
     else if f_tag pos = 0 then (False, snd (pb_field_iter_begin (it_start it) (dest_struct it)))
     else if htype prev_field = PB_HTYPE_ONEOF \<and> htype pos = PB_HTYPE_ONEOF \<and> f_data_offset pos = PB_SIZE_MAX then
       (True, it\<lparr>it_pos := it_pos it + 1\<rparr>)
     else
       let prev_size =
             (if atype prev_field = PB_ATYPE_STATIC \<and> htype prev_field = PB_HTYPE_REPEATED then
                data_size prev_field * to_u64 (f_array_size prev_field)
              else if atype prev_field = PB_ATYPE_POINTER then 8
              else data_size prev_field);
           data = pData it + prev_size + data_offset pos
       in (True, it\<lparr>it_pos := it_pos it + 1,
             required_field_index := required_field_index it + (if htype prev_field = PB_HTYPE_REQUIRED then 1 else 0),
             pData := data, pSize := At (data + size_offset pos)\<rparr>))"

text \<open>\<open>n\<close> is the number of steps after which the loop has come back to its start: the number
  of fields is enough.\<close>

fun iter_find_loop :: "nat \<Rightarrow> nat \<Rightarrow> (pb_field \<Rightarrow> bool) \<Rightarrow> pb_field_iter \<Rightarrow> bool \<times> pb_field_iter" where
  "iter_find_loop n start wanted it =
    (if wanted (cur it) then (True, it)
     else
       let it = snd (pb_field_iter_next it) in
       case n of
         0 \<Rightarrow> (False, it)
       | Suc n \<Rightarrow> if it_pos it \<noteq> start then iter_find_loop n start wanted it else (False, it))"

declare iter_find_loop.simps [simp del]

definition pb_field_iter_find :: "pb_field_iter \<Rightarrow> u32 \<Rightarrow> bool \<times> pb_field_iter" where
  "pb_field_iter_find it tag =
    iter_find_loop (length (it_start it)) (it_pos it)
      (\<lambda>f. f_tag f = tag \<and> ltype f \<noteq> PB_LTYPE_EXTENSION) it"

section \<open>Facts on the iterator\<close>

lemma field_at_tag: "f_tag (field_at fs i) \<noteq> 0 \<Longrightarrow> i < length fs"
  by (simp add: field_at_def PB_LAST_FIELD_def split: if_splits)

lemma iter_next_start [simp]: "it_start (snd (pb_field_iter_next it)) = it_start it"
  by (simp add: pb_field_iter_next_def pb_field_iter_begin_def Let_def)

lemma iter_next_less:
  assumes "pb_field_iter_next it = (True, it')"
  shows "it_start it' = it_start it" "it_pos it' = Suc (it_pos it)" "it_pos it' < length (it_start it)"
    "f_tag (cur it') \<noteq> 0"
  using assms field_at_tag [of "it_start it" "it_pos it + 1"]
  by (auto simp: pb_field_iter_next_def pb_field_iter_begin_def Let_def cur_def split: if_splits)

lemma iter_next_measure:
  assumes "(True, it') = pb_field_iter_next it"
  shows "length (it_start it') - it_pos it' < length (it_start it) - it_pos it"
  using iter_next_less [OF assms [symmetric]] by simp

lemma iter_find_wanted: "iter_find_loop n start wanted it = (True, it') \<Longrightarrow> wanted (cur it') \<and> it_start it' = it_start it"
proof (induction n arbitrary: it)
  case 0
  then show ?case by (auto simp: iter_find_loop.simps Let_def split: if_splits)
next
  case (Suc n)
  show ?case
    using Suc.prems Suc.IH [of "snd (pb_field_iter_next it)"]
    by (auto simp: iter_find_loop.simps [of "Suc n"] Let_def split: if_splits)
qed

text \<open>The number of fields is enough: the positions the search visits are distinct until it comes back.\<close>

lemma iter_next_pos:
  "it_pos (snd (pb_field_iter_next it)) =
    (if f_tag (cur it) = 0 then it_pos it
     else if f_tag (field_at (it_start it) (it_pos it + 1)) = 0 then 0 else it_pos it + 1)"
  by (simp add: pb_field_iter_next_def pb_field_iter_begin_def Let_def)

end
