(* ===== verification/NanopbEncode.thy ===== *)
theory NanopbEncode
  imports NanopbMem
begin

text \<open>
  The message encoder of nanopb: the rest of \<open>pb_encode.c\<close>. A message is a C struct in memory,
  described by an array of \<open>pb_field_t\<close>. The functions of the code that call each other in a
  cycle take the encoder of the messages inside as their argument \<open>enc\<close>; \<open>pb_encode\<close> closes
  the cycle, with fuel for the nesting of messages and the length of extension lists. \<open>None\<close> is
  undefined behaviour, or running out of fuel.

  User functions (callback fields, extension types) are the parameters \<open>e_callback\<close> and
  \<open>e_extension\<close>, by their address. They read the memory of the message and do not change it.
\<close>

record 's enc_env =
  e_fields :: desc_table
  e_callback :: "addr \<Rightarrow> mem \<Rightarrow> pb_field \<Rightarrow> addr \<Rightarrow> 's pb_ostream \<Rightarrow> (bool \<times> 's pb_ostream) option"
  e_extension :: "addr \<Rightarrow> mem \<Rightarrow> addr \<Rightarrow> 's pb_ostream \<Rightarrow> (bool \<times> 's pb_ostream) option"

type_synonym 's step = "'s pb_ostream \<Rightarrow> (bool \<times> 's pb_ostream) option"
type_synonym 's msg_encoder = "pb_field list \<Rightarrow> addr \<Rightarrow> 's step"

text \<open>\<open>if (!f(stream)) return false; g(stream)\<close>\<close>

definition run_then :: "(bool \<times> 's pb_ostream) option \<Rightarrow> 's step \<Rightarrow> (bool \<times> 's pb_ostream) option" where
  "run_then r g = (case r of None \<Rightarrow> None | Some (ok, s) \<Rightarrow> if ok then g s else Some (False, s))"

lemma run_then_simps [simp]:
  "run_then None g = None" "run_then (Some (True, s)) g = g s" "run_then (Some (False, s)) g = Some (False, s)"
  by (simp_all add: run_then_def)

lemma run_then_cong [fundef_cong]:
  "r = r' \<Longrightarrow> (\<And>s. r' = Some (True, s) \<Longrightarrow> g s = g' s) \<Longrightarrow> run_then r g = run_then r' g'"
  by (auto simp: run_then_def split: option.splits)

section \<open>Values\<close>

text \<open>\<open>pb_write\<close> of bytes in memory: they are only read when they are written.\<close>

definition pb_write_mem :: "mem \<Rightarrow> addr \<Rightarrow> u64 \<Rightarrow> 's step" where
  "pb_write_mem m p count s =
    (case load_bytes m p (unat count) of
       Some buf \<Rightarrow> Some (pb_write s buf count)
     | None \<Rightarrow>
         if o_callback s = None \<or> bytes_written s + count < bytes_written s \<or> max_size s < bytes_written s + count
         then Some (pb_write s [] count) else None)"

definition pb_encode_string_mem :: "mem \<Rightarrow> addr \<Rightarrow> u64 \<Rightarrow> 's step" where
  "pb_encode_string_mem m p count s = run_then (Some (pb_encode_varint s count)) (pb_write_mem m p count)"

definition pb_encode_tag_for_field :: "pb_field \<Rightarrow> 's pb_ostream \<Rightarrow> bool \<times> 's pb_ostream" where
  "pb_encode_tag_for_field field s =
    (let t = ltype field in
     if t \<in> {PB_LTYPE_BOOL, PB_LTYPE_VARINT, PB_LTYPE_UVARINT, PB_LTYPE_SVARINT} then
       pb_encode_tag s PB_WT_VARINT (f_tag field)
     else if t = PB_LTYPE_FIXED32 then pb_encode_tag s PB_WT_32BIT (f_tag field)
     else if t = PB_LTYPE_FIXED64 then pb_encode_tag s PB_WT_64BIT (f_tag field)
     else if t \<in> {PB_LTYPE_BYTES, PB_LTYPE_STRING, PB_LTYPE_SUBMESSAGE, PB_LTYPE_FIXED_LENGTH_BYTES} then
       pb_encode_tag s PB_WT_STRING (f_tag field)
     else o_fail ''invalid field type'' s)"

type_synonym 's encoder = "pb_field \<Rightarrow> addr \<Rightarrow> 's step"

definition pb_enc_bool :: "mem \<Rightarrow> 's encoder" where
  "pb_enc_bool m field src s =
    do { b \<leftarrow> safe_read_bool m src; Some (pb_encode_varint s (if b then 1 else 0)) }"

text \<open>The integer at \<open>src\<close> in the width of the field, sign-extended to \<open>int64_t\<close>, or zero-extended.\<close>

definition load_int64 :: "mem \<Rightarrow> u32 \<Rightarrow> addr \<Rightarrow> u64 option option" where
  "load_int64 m sz src =
    (if sz = 1 then map_option (\<lambda>v :: u8. Some (scast v)) (load_word m src 1)
     else if sz = 2 then map_option (\<lambda>v :: u16. Some (scast v)) (load_word m src 2)
     else if sz = 4 then map_option (\<lambda>v :: u32. Some (scast v)) (load_word m src 4)
     else if sz = 8 then map_option Some (load_word m src 8)
     else Some None)"

definition load_uint64 :: "mem \<Rightarrow> u32 \<Rightarrow> addr \<Rightarrow> u64 option option" where
  "load_uint64 m sz src =
    (if sz = 1 then map_option (\<lambda>v :: u8. Some (ucast v)) (load_word m src 1)
     else if sz = 2 then map_option (\<lambda>v :: u16. Some (ucast v)) (load_word m src 2)
     else if sz = 4 then map_option (\<lambda>v :: u32. Some (ucast v)) (load_word m src 4)
     else if sz = 8 then map_option Some (load_word m src 8)
     else Some None)"

definition pb_enc_varint :: "mem \<Rightarrow> 's encoder" where
  "pb_enc_varint m field src s =
    do { v \<leftarrow> load_int64 m (f_data_size field) src;
         Some (case v of None \<Rightarrow> o_fail ''invalid data_size'' s | Some v \<Rightarrow> pb_encode_varint s v) }"

definition pb_enc_uvarint :: "mem \<Rightarrow> 's encoder" where
  "pb_enc_uvarint m field src s =
    do { v \<leftarrow> load_uint64 m (f_data_size field) src;
         Some (case v of None \<Rightarrow> o_fail ''invalid data_size'' s | Some v \<Rightarrow> pb_encode_varint s v) }"

definition pb_enc_svarint :: "mem \<Rightarrow> 's encoder" where
  "pb_enc_svarint m field src s =
    do { v \<leftarrow> load_int64 m (f_data_size field) src;
         Some (case v of None \<Rightarrow> o_fail ''invalid data_size'' s | Some v \<Rightarrow> pb_encode_svarint s v) }"

definition pb_enc_fixed32 :: "mem \<Rightarrow> 's encoder" where
  "pb_enc_fixed32 m field src s = do { v \<leftarrow> load_word m src 4; Some (pb_encode_fixed32 s v) }"

definition pb_enc_fixed64 :: "mem \<Rightarrow> 's encoder" where
  "pb_enc_fixed64 m field src s = do { v \<leftarrow> load_word m src 8; Some (pb_encode_fixed64 s v) }"

text \<open>\<open>pb_bytes_array_t\<close> is a size and, at offset 4, the bytes.\<close>

definition pb_enc_bytes :: "mem \<Rightarrow> 's encoder" where
  "pb_enc_bytes m field src s =
    (if src = 0 then pb_encode_string_mem m 0 0 s
     else do {
       n \<leftarrow> load_size m src;
       if atype field = PB_ATYPE_STATIC \<and> data_size field - 4 < to_u64 n then Some (o_fail ''bytes size exceeded'' s)
       else pb_encode_string_mem m (src + 4) (to_u64 n) s })"

text \<open>The loop that finds the end of the string; \<open>k\<close> is \<open>max_size - size\<close>.\<close>

fun string_size :: "mem \<Rightarrow> addr \<Rightarrow> nat \<Rightarrow> nat option" where
  "string_size m p 0 = Some 0"
| "string_size m p (Suc k) = do { c \<leftarrow> m p; if c = 0 then Some 0 else map_option Suc (string_size m (p + 1) k) }"

definition pb_enc_string :: "mem \<Rightarrow> 's encoder" where
  "pb_enc_string m field src s =
    (let max_size = (if atype field = PB_ATYPE_POINTER then 2 ^ 64 - 1 else unat (f_data_size field)) in
     do { size \<leftarrow> (if src = 0 then Some 0 else string_size m src max_size);
          pb_encode_string_mem m src (word_of_nat size) s })"

definition pb_enc_fixed_length_bytes :: "mem \<Rightarrow> 's encoder" where
  "pb_enc_fixed_length_bytes m field src s = pb_encode_string_mem m src (data_size field) s"

section \<open>Submessages\<close>

text \<open>After the sizing pass: the length, then the message through a substream limited to that size.\<close>

definition write_submessage :: "'s msg_encoder \<Rightarrow> pb_field list \<Rightarrow> addr \<Rightarrow> u64 \<Rightarrow> 's step" where
  "write_submessage enc fs src sz s =
    (if o_callback s = None then Some (pb_write s [] sz)
     else if max_size s < bytes_written s + sz then Some (o_fail ''stream full'' s)
     else
       case enc fs src (s\<lparr>max_size := sz, bytes_written := 0, o_errmsg := None\<rparr>) of
         None \<Rightarrow> None
       | Some (status, substream) \<Rightarrow>
           let s = s\<lparr>bytes_written := bytes_written s + bytes_written substream,
                     o_state := o_state substream, o_errmsg := o_errmsg substream\<rparr> in
           if bytes_written substream \<noteq> sz then Some (o_fail ''submsg size changed'' s)
           else Some (status, s))"

definition pb_encode_submessage :: "'s msg_encoder \<Rightarrow> 's msg_encoder" where
  "pb_encode_submessage enc fs src s =
    (case enc fs src (pb_ostream_sizing (o_state s)) of
       None \<Rightarrow> None
     | Some (False, substream) \<Rightarrow> Some (False, s\<lparr>o_errmsg := o_errmsg substream\<rparr>)
     | Some (True, substream) \<Rightarrow>
         let sz = bytes_written substream in
         run_then (Some (pb_encode_varint s sz)) (write_submessage enc fs src sz))"

definition pb_enc_submessage :: "'s enc_env \<Rightarrow> 's msg_encoder \<Rightarrow> 's encoder" where
  "pb_enc_submessage env enc field src s =
    (if f_ptr field = 0 then Some (o_fail ''invalid field descriptor'' s)
     else do { fs \<leftarrow> fields_at (e_fields env) (f_ptr field); pb_encode_submessage enc fs src s })"

text \<open>\<open>PB_ENCODERS\<close>: no entry beyond its end; calling the NULL entry for extensions is undefined.\<close>

definition PB_ENCODERS :: "'s enc_env \<Rightarrow> 's msg_encoder \<Rightarrow> mem \<Rightarrow> u8 \<Rightarrow> 's encoder option" where
  "PB_ENCODERS env enc m t =
    (if t = PB_LTYPE_BOOL then Some (pb_enc_bool m)
     else if t = PB_LTYPE_VARINT then Some (pb_enc_varint m)
     else if t = PB_LTYPE_UVARINT then Some (pb_enc_uvarint m)
     else if t = PB_LTYPE_SVARINT then Some (pb_enc_svarint m)
     else if t = PB_LTYPE_FIXED32 then Some (pb_enc_fixed32 m)
     else if t = PB_LTYPE_FIXED64 then Some (pb_enc_fixed64 m)
     else if t = PB_LTYPE_BYTES then Some (pb_enc_bytes m)
     else if t = PB_LTYPE_STRING then Some (pb_enc_string m)
     else if t = PB_LTYPE_SUBMESSAGE then Some (pb_enc_submessage env enc)
     else if t = PB_LTYPE_EXTENSION then Some (\<lambda>field src s. None)
     else if t = PB_LTYPE_FIXED_LENGTH_BYTES then Some (pb_enc_fixed_length_bytes m)
     else None)"

section \<open>Arrays\<close>

text \<open>The loops over the \<open>count\<close> entries from \<open>p\<close> on.\<close>

fun encode_items :: "'s encoder \<Rightarrow> pb_field \<Rightarrow> nat \<Rightarrow> addr \<Rightarrow> 's step" where
  "encode_items func field 0 p s = Some (True, s)"
| "encode_items func field (Suc count) p s =
    run_then (func field p s) (encode_items func field count (p + data_size field))"

definition encode_entry :: "mem \<Rightarrow> 's encoder \<Rightarrow> 's encoder" where
  "encode_entry m func field p s =
    run_then (Some (pb_encode_tag_for_field field s)) (\<lambda>s.
      if atype field = PB_ATYPE_POINTER \<and> (ltype field = PB_LTYPE_STRING \<or> ltype field = PB_LTYPE_BYTES) then
        do { q \<leftarrow> load_ptr m p; func field q s }
      else func field p s)"

definition packed_size :: "'s encoder \<Rightarrow> pb_field \<Rightarrow> nat \<Rightarrow> addr \<Rightarrow> 's \<Rightarrow> (bool \<times> u64) option" where
  "packed_size func field count p st =
    (if ltype field = PB_LTYPE_FIXED32 then Some (True, 4 * word_of_nat count)
     else if ltype field = PB_LTYPE_FIXED64 then Some (True, 8 * word_of_nat count)
     else map_option (\<lambda>(ok, sizestream). (ok, bytes_written sizestream))
            (encode_items func field count p (pb_ostream_sizing st)))"

definition encode_array :: "mem \<Rightarrow> pb_field \<Rightarrow> addr \<Rightarrow> u32 \<Rightarrow> 's encoder \<Rightarrow> 's step" where
  "encode_array m field data count func s =
    (if count = 0 then Some (True, s)
     else if atype field \<noteq> PB_ATYPE_POINTER \<and> f_array_size field < count then
       Some (o_fail ''array max size exceeded'' s)
     else if ltype field \<le> PB_LTYPE_LAST_PACKABLE then
       run_then (Some (pb_encode_tag s PB_WT_STRING (f_tag field))) (\<lambda>s.
         case packed_size func field (unat count) data (o_state s) of
           None \<Rightarrow> None
         | Some (False, _) \<Rightarrow> Some (False, s)
         | Some (True, sz) \<Rightarrow>
             run_then (Some (pb_encode_varint s sz)) (\<lambda>s.
               if o_callback s = None then Some (pb_write s [] sz)
               else encode_items func field (unat count) data s))
     else encode_items (encode_entry m func) field (unat count) data s)"

section \<open>Fields\<close>

text \<open>The comparison of \<open>data_size\<close> bytes with zero stops at the first difference.\<close>

fun all_zero :: "mem \<Rightarrow> addr \<Rightarrow> nat \<Rightarrow> bool option" where
  "all_zero m p 0 = Some True"
| "all_zero m p (Suc n) = do { b \<leftarrow> m p; if b \<noteq> 0 then Some False else all_zero m (p + 1) n }"

text \<open>The loop over the fields of a submessage. The iterator only moves forward.\<close>

function default_fields :: "(pb_field \<Rightarrow> addr \<Rightarrow> bool option) \<Rightarrow> pb_field_iter \<Rightarrow> bool option" where
  "default_fields check it =
    (case check (cur it) (pData it) of
       None \<Rightarrow> None
     | Some False \<Rightarrow> Some False
     | Some True \<Rightarrow>
         (case pb_field_iter_next it of
            (True, it) \<Rightarrow> default_fields check it
          | (False, _) \<Rightarrow> Some True))"
  by pat_completeness auto
termination
  by (relation "measure (\<lambda>(check, it). length (it_start it) - it_pos it)") (auto dest: iter_next_measure)

declare default_fields.simps [simp del]

fun pb_check_proto3_default_value :: "nat \<Rightarrow> desc_table \<Rightarrow> mem \<Rightarrow> pb_field \<Rightarrow> addr \<Rightarrow> bool option" where
  "pb_check_proto3_default_value 0 D m field data = None"
| "pb_check_proto3_default_value (Suc n) D m field data =
    (let sz = data + size_offset field; static = (atype field = PB_ATYPE_STATIC) in
     if htype field = PB_HTYPE_REQUIRED then Some False
     else if htype field = PB_HTYPE_REPEATED \<and> f_size_offset field \<noteq> 0 then
       map_option (\<lambda>c. c = 0) (load_size m sz)
     else if htype field = PB_HTYPE_REPEATED \<and> static then Some False
     else if htype field = PB_HTYPE_ONEOF then map_option (\<lambda>c. c = 0) (load_size m sz)
     else if htype field = PB_HTYPE_OPTIONAL \<and> f_size_offset field \<noteq> 0 then map_option Not (safe_read_bool m sz)
     else if static \<and> ltype field = PB_LTYPE_BYTES then map_option (\<lambda>c. c = 0) (load_size m data)
     else if static \<and> ltype field = PB_LTYPE_STRING then map_option (\<lambda>c. c = 0) (m data)
     else if static \<and> ltype field = PB_LTYPE_FIXED_LENGTH_BYTES then Some (f_data_size field = 0)
     else if static \<and> ltype field = PB_LTYPE_SUBMESSAGE then
       do { fs \<leftarrow> fields_at D (f_ptr field);
            case pb_field_iter_begin fs data of
              (True, it) \<Rightarrow> default_fields (pb_check_proto3_default_value n D m) it
            | (False, _) \<Rightarrow> Some True }
     else if atype field = PB_ATYPE_POINTER \<and> PB_LTYPE_LAST_PACKABLE < ltype field then
       map_option (\<lambda>p. p = 0) (load_ptr m data)
     else all_zero m data (unat (f_data_size field)))"

text \<open>
  \<open>encode_basic_field\<close>. \<open>pSize\<close> is the address \<open>pData + size_offset\<close>, or the local
  \<open>implicit_has\<close>; the four bytes of a \<open>which_\<close> tag cannot be read from that.
\<close>

definition encode_basic_field :: "nat \<Rightarrow> 's enc_env \<Rightarrow> mem \<Rightarrow> 's msg_encoder \<Rightarrow> 's encoder" where
  "encode_basic_field n env m enc field data s =
    do {
      func \<leftarrow> PB_ENCODERS env enc m (ltype field);
      let sz = data + size_offset field;
      let tag_and_value = (\<lambda>data s. run_then (Some (pb_encode_tag_for_field field s)) (func field data));
      implicit_has \<leftarrow>
        (if f_size_offset field = 0 \<and> htype field = PB_HTYPE_OPTIONAL then
           map_option Not (pb_check_proto3_default_value n (e_fields env) m field data)
         else Some True);
      (data, implicit_has) \<leftarrow>
        (if atype field = PB_ATYPE_POINTER then map_option (\<lambda>q. (q, q \<noteq> 0)) (load_ptr m data)
         else Some (data, implicit_has));
      if htype field = PB_HTYPE_REQUIRED then
        (if data = 0 then Some (o_fail ''missing required field'' s) else tag_and_value data s)
      else if htype field = PB_HTYPE_OPTIONAL then
        do { has \<leftarrow> (if f_size_offset field \<noteq> 0 then safe_read_bool m sz else Some implicit_has);
             if has then tag_and_value data s else Some (True, s) }
      else if htype field = PB_HTYPE_REPEATED then
        do { count \<leftarrow> (if f_size_offset field \<noteq> 0 then load_size m sz else Some (f_array_size field));
             encode_array m field data count func s }
      else if htype field = PB_HTYPE_ONEOF then
        (if f_size_offset field = 0 then None
         else do { which \<leftarrow> load_size m sz;
                   if which = f_tag field then tag_and_value data s else Some (True, s) })
      else Some (o_fail ''invalid field type'' s)
    }"

text \<open>\<open>pb_callback_t\<close> is the function and, at offset 8, the argument whose address it is given.\<close>

definition encode_callback_field :: "'s enc_env \<Rightarrow> mem \<Rightarrow> 's encoder" where
  "encode_callback_field env m field data s =
    do {
      encode \<leftarrow> load_ptr m data;
      if encode \<noteq> 0 then
        map_option (\<lambda>(ok, s). if ok then (True, s) else o_fail ''callback error'' s)
          (e_callback env encode m field (data + 8) s)
      else Some (True, s)
    }"

definition encode_field :: "nat \<Rightarrow> 's enc_env \<Rightarrow> mem \<Rightarrow> 's msg_encoder \<Rightarrow> 's encoder" where
  "encode_field n env m enc field data s =
    (if atype field = PB_ATYPE_STATIC \<or> atype field = PB_ATYPE_POINTER then encode_basic_field n env m enc field data s
     else if atype field = PB_ATYPE_CALLBACK then encode_callback_field env m field data s
     else Some (o_fail ''invalid field type'' s))"

text \<open>
  Extensions: \<open>pb_extension_t\<close> is \<open>type\<close>, \<open>dest\<close>, \<open>next\<close> and \<open>found\<close> at the
  offsets 0, 8, 16 and 24; \<open>pb_extension_type_t\<close> is \<open>decode\<close>, \<open>encode\<close> and \<open>arg\<close>.
\<close>

definition default_extension_encoder :: "nat \<Rightarrow> 's enc_env \<Rightarrow> mem \<Rightarrow> 's msg_encoder \<Rightarrow> addr \<Rightarrow> 's step" where
  "default_extension_encoder n env m enc extension s =
    do {
      typ \<leftarrow> load_ptr m extension;
      arg \<leftarrow> load_ptr m (typ + 16);
      fs \<leftarrow> fields_at (e_fields env) arg;
      let field = field_at fs 0;
      if atype field = PB_ATYPE_POINTER then encode_field n env m enc field (extension + 8) s
      else do { dest \<leftarrow> load_ptr m (extension + 8); encode_field n env m enc field dest s }
    }"

fun encode_extensions :: "nat \<Rightarrow> nat \<Rightarrow> 's enc_env \<Rightarrow> mem \<Rightarrow> 's msg_encoder \<Rightarrow> addr \<Rightarrow> 's step" where
  "encode_extensions 0 n env m enc extension s = None"
| "encode_extensions (Suc k) n env m enc extension s =
    (if extension = 0 then Some (True, s)
     else do {
       typ \<leftarrow> load_ptr m extension;
       encode \<leftarrow> load_ptr m (typ + 8);
       run_then
         (if encode \<noteq> 0 then e_extension env encode m extension s
          else default_extension_encoder n env m enc extension s)
         (\<lambda>s. do { after \<leftarrow> load_ptr m (extension + 16); encode_extensions k n env m enc after s })
     })"

definition encode_extension_field :: "nat \<Rightarrow> 's enc_env \<Rightarrow> mem \<Rightarrow> 's msg_encoder \<Rightarrow> 's encoder" where
  "encode_extension_field n env m enc field data s =
    do { extension \<leftarrow> load_ptr m data; encode_extensions (Suc n) n env m enc extension s }"

section \<open>Messages\<close>

function encode_fields :: "('s encoder) \<Rightarrow> pb_field_iter \<Rightarrow> 's step" where
  "encode_fields func it s =
    run_then (func (cur it) (pData it) s) (\<lambda>s.
      case pb_field_iter_next it of
        (True, it) \<Rightarrow> encode_fields func it s
      | (False, _) \<Rightarrow> Some (True, s))"
  by pat_completeness auto
termination
  by (relation "measure (\<lambda>(func, it, s). length (it_start it) - it_pos it)") (auto dest: iter_next_measure)

declare encode_fields.simps [simp del]

definition encode_any_field :: "nat \<Rightarrow> 's enc_env \<Rightarrow> mem \<Rightarrow> 's msg_encoder \<Rightarrow> 's encoder" where
  "encode_any_field n env m enc field data s =
    (if ltype field = PB_LTYPE_EXTENSION then encode_extension_field n env m enc field data s
     else encode_field n env m enc field data s)"

fun pb_encode :: "nat \<Rightarrow> 's enc_env \<Rightarrow> mem \<Rightarrow> 's msg_encoder" where
  "pb_encode 0 env m fs src s = None"
| "pb_encode (Suc n) env m fs src s =
    (case pb_field_iter_begin fs src of
       (False, _) \<Rightarrow> Some (True, s)
     | (True, it) \<Rightarrow> encode_fields (encode_any_field n env m (pb_encode n env m)) it s)"

definition pb_encode_delimited :: "nat \<Rightarrow> 's enc_env \<Rightarrow> mem \<Rightarrow> 's msg_encoder" where
  "pb_encode_delimited n env m fs src s = pb_encode_submessage (pb_encode n env m) fs src s"

definition pb_encode_nullterminated :: "nat \<Rightarrow> 's enc_env \<Rightarrow> mem \<Rightarrow> 's msg_encoder" where
  "pb_encode_nullterminated n env m fs src s =
    run_then (pb_encode n env m fs src s) (\<lambda>s. Some (pb_write s [0] 1))"

text \<open>\<open>st\<close> is the unused state of the sizing stream.\<close>

definition pb_get_encoded_size :: "nat \<Rightarrow> 's enc_env \<Rightarrow> mem \<Rightarrow> pb_field list \<Rightarrow> addr \<Rightarrow> 's \<Rightarrow> u64 option option" where
  "pb_get_encoded_size n env m fs src st =
    map_option (\<lambda>(ok, s). if ok then Some (bytes_written s) else None)
      (pb_encode n env m fs src (pb_ostream_sizing st))"

end
