(* ===== verification/NanopbMessage.thy ===== *)
theory NanopbMessage
  imports NanopbEncode NanopbWireFacts
begin

text \<open>
  The bytes of a message, as the Protocol Buffers encoding defines them, without streams: fields in
  the order of their descriptors, each one a tag and its value; strings and messages preceded by
  their length; arrays of scalars packed into one field. \<open>None\<close> is a message that has no
  encoding (a required pointer field that is missing, a count above the capacity of its array, data that
  cannot be read). The presence rules are those of \<open>pb.h\<close>.
\<close>

section \<open>Bytes of values\<close>

definition wire_type_of :: "u8 \<Rightarrow> pb_wire_type_t option" where
  "wire_type_of t =
    (if t \<le> PB_LTYPE_SVARINT then Some PB_WT_VARINT
     else if t = PB_LTYPE_FIXED32 then Some PB_WT_32BIT
     else if t = PB_LTYPE_FIXED64 then Some PB_WT_64BIT
     else if t \<in> {PB_LTYPE_BYTES, PB_LTYPE_STRING, PB_LTYPE_SUBMESSAGE, PB_LTYPE_FIXED_LENGTH_BYTES} then Some PB_WT_STRING
     else None)"

definition tag_bytes :: "pb_field \<Rightarrow> u8 list option" where
  "tag_bytes field = map_option (\<lambda>wt. base128 (tag_value wt (f_tag field))) (wire_type_of (ltype field))"

definition delimited :: "u8 list \<Rightarrow> u8 list" where
  "delimited bs = base128 (length bs) @ bs"

text \<open>One after the other.\<close>

definition both :: "u8 list option \<Rightarrow> u8 list option \<Rightarrow> u8 list option" where
  "both r1 r2 = do { xs \<leftarrow> r1; ys \<leftarrow> r2; Some (xs @ ys) }"

lemma both_simps [simp]: "both None r = None" "both r None = None" "both (Some xs) (Some ys) = Some (xs @ ys)"
  by (simp_all add: both_def bind_eq_None_conv)

definition value_bytes :: "desc_table \<Rightarrow> mem \<Rightarrow> (pb_field list \<Rightarrow> addr \<Rightarrow> u8 list option) \<Rightarrow> pb_field \<Rightarrow> addr \<Rightarrow> u8 list option" where
  "value_bytes D m msg field src =
    (let t = ltype field in
     if t = PB_LTYPE_BOOL then map_option (\<lambda>b. base128 (if b then 1 else 0)) (safe_read_bool m src)
     else if t = PB_LTYPE_VARINT then do { v \<leftarrow> load_int64 m (f_data_size field) src; map_option (\<lambda>v. base128 (unat v)) v }
     else if t = PB_LTYPE_UVARINT then do { v \<leftarrow> load_uint64 m (f_data_size field) src; map_option (\<lambda>v. base128 (unat v)) v }
     else if t = PB_LTYPE_SVARINT then do { v \<leftarrow> load_int64 m (f_data_size field) src; map_option (\<lambda>v. base128 (unat (zigzag v))) v }
     else if t = PB_LTYPE_FIXED32 then map_option le32 (load_word m src 4)
     else if t = PB_LTYPE_FIXED64 then map_option le64 (load_word m src 8)
     else if t = PB_LTYPE_BYTES then
       (if src = 0 then Some (delimited [])
        else do { n \<leftarrow> load_size m src;
                  if atype field = PB_ATYPE_STATIC \<and> data_size field - 4 < to_u64 n then None
                  else map_option delimited (load_bytes m (src + 4) (unat n)) })
     else if t = PB_LTYPE_STRING then
       do { n \<leftarrow> (if src = 0 then Some 0
                  else string_size m src (if atype field = PB_ATYPE_POINTER then 2 ^ 64 - 1 else unat (f_data_size field)));
            map_option delimited (load_bytes m src n) }
     else if t = PB_LTYPE_SUBMESSAGE then
       (if f_ptr field = 0 then None
        else do { fs \<leftarrow> fields_at D (f_ptr field); map_option delimited (msg fs src) })
     else if t = PB_LTYPE_FIXED_LENGTH_BYTES then map_option delimited (load_bytes m src (unat (f_data_size field)))
     else None)"

fun items_bytes :: "(addr \<Rightarrow> u8 list option) \<Rightarrow> addr \<Rightarrow> nat \<Rightarrow> addr \<Rightarrow> u8 list option" where
  "items_bytes item width 0 p = Some []"
| "items_bytes item width (Suc count) p = both (item p) (items_bytes item width count (p + width))"

definition array_bytes :: "mem \<Rightarrow> pb_field \<Rightarrow> addr \<Rightarrow> u32 \<Rightarrow> (addr \<Rightarrow> u8 list option) \<Rightarrow> u8 list option" where
  "array_bytes m field data count val =
    (if count = 0 then Some []
     else if atype field \<noteq> PB_ATYPE_POINTER \<and> f_array_size field < count then None
     else if ltype field \<le> PB_LTYPE_LAST_PACKABLE then
       both (Some (base128 (tag_value PB_WT_STRING (f_tag field))))
         (map_option delimited (items_bytes val (data_size field) (unat count) data))
     else
       items_bytes
         (\<lambda>p. both (tag_bytes field)
            (if atype field = PB_ATYPE_POINTER \<and> (ltype field = PB_LTYPE_STRING \<or> ltype field = PB_LTYPE_BYTES)
             then do { q \<leftarrow> load_ptr m p; val q } else val p))
         (data_size field) (unat count) data)"

section \<open>Bytes of fields and messages\<close>

definition basic_field_bytes ::
  "nat \<Rightarrow> desc_table \<Rightarrow> mem \<Rightarrow> (pb_field list \<Rightarrow> addr \<Rightarrow> u8 list option) \<Rightarrow> pb_field \<Rightarrow> addr \<Rightarrow> u8 list option" where
  "basic_field_bytes n D m msg field data =
    do {
      let sz = data + size_offset field;
      let val = value_bytes D m msg field;
      let tag_and_value = (\<lambda>data. both (tag_bytes field) (val data));
      implicit_has \<leftarrow>
        (if f_size_offset field = 0 \<and> htype field = PB_HTYPE_OPTIONAL then
           map_option Not (pb_check_proto3_default_value n D m field data)
         else Some True);
      (data, implicit_has) \<leftarrow>
        (if atype field = PB_ATYPE_POINTER then map_option (\<lambda>q. (q, q \<noteq> 0)) (load_ptr m data)
         else Some (data, implicit_has));
      if htype field = PB_HTYPE_REQUIRED then (if data = 0 then None else tag_and_value data)
      else if htype field = PB_HTYPE_OPTIONAL then
        do { has \<leftarrow> (if f_size_offset field \<noteq> 0 then safe_read_bool m sz else Some implicit_has);
             if has then tag_and_value data else Some [] }
      else if htype field = PB_HTYPE_REPEATED then
        do { count \<leftarrow> (if f_size_offset field \<noteq> 0 then load_size m sz else Some (f_array_size field));
             array_bytes m field data count val }
      else if htype field = PB_HTYPE_ONEOF then
        (if f_size_offset field = 0 then None
         else do { which \<leftarrow> load_size m sz; if which = f_tag field then tag_and_value data else Some [] })
      else None
    }"

text \<open>What the user functions write, by their address.\<close>

record user_bytes =
  callback_bytes :: "addr \<Rightarrow> mem \<Rightarrow> pb_field \<Rightarrow> addr \<Rightarrow> u8 list option"
  extension_bytes :: "addr \<Rightarrow> mem \<Rightarrow> addr \<Rightarrow> u8 list option"

definition field_bytes ::
  "nat \<Rightarrow> desc_table \<Rightarrow> user_bytes \<Rightarrow> mem \<Rightarrow> (pb_field list \<Rightarrow> addr \<Rightarrow> u8 list option) \<Rightarrow> pb_field \<Rightarrow> addr \<Rightarrow> u8 list option" where
  "field_bytes n D U m msg field data =
    (if atype field = PB_ATYPE_STATIC \<or> atype field = PB_ATYPE_POINTER then
       do { _ \<leftarrow> (if ltype field \<le> PB_LTYPE_FIXED_LENGTH_BYTES then Some () else None);
            basic_field_bytes n D m msg field data }
     else if atype field = PB_ATYPE_CALLBACK then
       do { encode \<leftarrow> load_ptr m data;
            if encode \<noteq> 0 then callback_bytes U encode m field (data + 8) else Some [] }
     else None)"

definition default_extension_bytes ::
  "nat \<Rightarrow> desc_table \<Rightarrow> user_bytes \<Rightarrow> mem \<Rightarrow> (pb_field list \<Rightarrow> addr \<Rightarrow> u8 list option) \<Rightarrow> addr \<Rightarrow> u8 list option" where
  "default_extension_bytes n D U m msg ext =
    do { typ \<leftarrow> load_ptr m ext;
         arg \<leftarrow> load_ptr m (typ + 16);
         fs \<leftarrow> fields_at D arg;
         if atype (field_at fs 0) = PB_ATYPE_POINTER then field_bytes n D U m msg (field_at fs 0) (ext + 8)
         else do { dest \<leftarrow> load_ptr m (ext + 8); field_bytes n D U m msg (field_at fs 0) dest } }"

fun extensions_bytes ::
  "nat \<Rightarrow> nat \<Rightarrow> desc_table \<Rightarrow> user_bytes \<Rightarrow> mem \<Rightarrow> (pb_field list \<Rightarrow> addr \<Rightarrow> u8 list option) \<Rightarrow> addr \<Rightarrow> u8 list option" where
  "extensions_bytes 0 n D U m msg ext = None"
| "extensions_bytes (Suc k) n D U m msg ext =
    (if ext = 0 then Some []
     else do {
       typ \<leftarrow> load_ptr m ext;
       encode \<leftarrow> load_ptr m (typ + 8);
       both
         (if encode \<noteq> 0 then extension_bytes U encode m ext
          else default_extension_bytes n D U m msg ext)
         (do { after \<leftarrow> load_ptr m (ext + 16); extensions_bytes k n D U m msg after })
     })"

definition any_field_bytes ::
  "nat \<Rightarrow> desc_table \<Rightarrow> user_bytes \<Rightarrow> mem \<Rightarrow> (pb_field list \<Rightarrow> addr \<Rightarrow> u8 list option) \<Rightarrow> pb_field \<Rightarrow> addr \<Rightarrow> u8 list option" where
  "any_field_bytes n D U m msg field data =
    (if ltype field = PB_LTYPE_EXTENSION then
       do { ext \<leftarrow> load_ptr m data; extensions_bytes (Suc n) n D U m msg ext }
     else field_bytes n D U m msg field data)"

function fields_bytes :: "(pb_field \<Rightarrow> addr \<Rightarrow> u8 list option) \<Rightarrow> pb_field_iter \<Rightarrow> u8 list option" where
  "fields_bytes func it =
    both (func (cur it) (pData it))
      (case pb_field_iter_next it of
         (True, it) \<Rightarrow> fields_bytes func it
       | (False, _) \<Rightarrow> Some [])"
  by pat_completeness auto
termination
  by (relation "measure (\<lambda>(func, it). length (it_start it) - it_pos it)") (auto dest: iter_next_measure)

declare fields_bytes.simps [simp del]

fun message_bytes :: "nat \<Rightarrow> desc_table \<Rightarrow> user_bytes \<Rightarrow> mem \<Rightarrow> pb_field list \<Rightarrow> addr \<Rightarrow> u8 list option" where
  "message_bytes 0 D U m fs src = None"
| "message_bytes (Suc n) D U m fs src =
    (case pb_field_iter_begin fs src of
       (False, _) \<Rightarrow> Some []
     | (True, it) \<Rightarrow> fields_bytes (any_field_bytes n D U m (message_bytes n D U m)) it)"

section \<open>What it means that a step writes some bytes\<close>

text \<open>
  On a memory stream with no error yet, a step of the encoder writes its bytes if they fit, and fails
  inside the buffer otherwise; on a sizing stream it counts them. A step without bytes never
  succeeds. Sizes that do not fit \<open>size_t\<close> are left out.
\<close>

definition mem_within :: "obuf pb_ostream \<Rightarrow> obuf pb_ostream \<Rightarrow> bool" where
  "mem_within s s' \<longleftrightarrow>
    (let st = o_state s; st' = o_state s' in
     \<not> ob_fault st' \<and> length (ob_mem st') = length (ob_mem st) \<and>
     take (ob_dest st) (ob_mem st') = take (ob_dest st) (ob_mem st) \<and>
     drop (ob_dest st + mem_room s) (ob_mem st') = drop (ob_dest st + mem_room s) (ob_mem st))"

definition ready :: "obuf pb_ostream \<Rightarrow> bool" where
  "ready s \<longleftrightarrow> mem_sink s \<and> o_errmsg s = None"

definition encodes :: "obuf step \<Rightarrow> u8 list option \<Rightarrow> bool" where
  "encodes f r \<longleftrightarrow>
    (\<forall>s ok s'. o_callback s = Some buf_write \<longrightarrow> f s = Some (ok, s') \<longrightarrow> o_callback s' = Some buf_write) \<and>
    (case r of
       None \<Rightarrow> \<forall>s s'. o_callback s = Some buf_write \<longrightarrow> f s \<noteq> Some (True, s')
     | Some bs \<Rightarrow>
         (\<forall>s. ready s \<longrightarrow> length bs \<le> size_room s \<longrightarrow>
            (if length bs \<le> mem_room s then f s = Some (True, mem_emit bs s)
             else \<exists>s'. f s = Some (False, s') \<and> mem_within s s')) \<and>
         (\<forall>s. size_sink s \<longrightarrow> length bs \<le> size_room s \<longrightarrow> f s = Some (True, size_emit bs s)))"

section \<open>Composition\<close>

lemma emit_simps [simp]:
  "o_callback (mem_emit bs s) = o_callback s" "o_errmsg (mem_emit bs s) = o_errmsg s"
  "o_callback (size_emit bs s) = o_callback s" "mem_emit [] s = s" "size_emit [] s = s"
  by (simp_all add: mem_emit_def size_emit_def Let_def)

lemma size_room_emit:
  "length bs \<le> size_room s \<Longrightarrow> size_room (mem_emit bs s) = size_room s - length bs"
  using size_emit_room [of bs s] by (simp add: size_room_def mem_emit_def size_emit_def Let_def)

lemma mem_room_le: "mem_sink s \<Longrightarrow> mem_room s \<le> size_room s"
  using unat_lt_u64 [of "max_size s"] by (simp add: mem_room_def size_room_def)

lemma ready_emit: "ready s \<Longrightarrow> length bs \<le> mem_room s \<Longrightarrow> ready (mem_emit bs s)"
  using msink.emit_inv by (simp add: ready_def)

lemma ready_callback: "ready s \<Longrightarrow> o_callback s = Some buf_write" and ready_sink: "ready s \<Longrightarrow> mem_sink s"
  by (simp_all add: ready_def mem_sink_def)

lemma within_refl: "mem_sink s \<Longrightarrow> mem_within s s"
  by (simp add: mem_within_def mem_sink_def Let_def)

lemma within_after_emit:
  assumes s: "mem_sink s" "length bs \<le> mem_room s" and w: "mem_within (mem_emit bs s) s'"
  shows "mem_within s s'"
proof -
  let ?d = "ob_dest (o_state s)" and ?m = "ob_mem (o_state s)"
  have le: "?d + mem_room s \<le> length ?m" using s(1) by (simp add: mem_sink_def mem_room_def)
  have r: "mem_room (mem_emit bs s) = mem_room s - length bs" by (rule mem_emit_room [OF s])
  have m: "ob_mem (o_state (mem_emit bs s)) = take ?d ?m @ bs @ drop (?d + length bs) ?m"
    and d: "ob_dest (o_state (mem_emit bs s)) = ?d + length bs"
    by (simp_all add: mem_emit_def Let_def)
  have w': "\<not> ob_fault (o_state s')" "length (ob_mem (o_state s')) = length ?m"
    "take (?d + length bs) (ob_mem (o_state s')) = take ?d ?m @ bs"
    "drop (?d + mem_room s) (ob_mem (o_state s')) = drop (?d + mem_room s) ?m"
    using w s(2) le unfolding mem_within_def Let_def m d r
    by (simp_all add: min_absorb2 add.commute [of "mem_room s"])
  have "take ?d (ob_mem (o_state s')) = take ?d ?m"
    using arg_cong [OF w'(3), of "take ?d"] le by (simp add: min_absorb1)
  then show ?thesis using w' by (simp add: mem_within_def Let_def)
qed

lemma encodesD:
  assumes "encodes f (Some bs)"
  shows "ready s \<Longrightarrow> length bs \<le> mem_room s \<Longrightarrow> f s = Some (True, mem_emit bs s)"
    and "ready s \<Longrightarrow> length bs \<le> size_room s \<Longrightarrow> mem_room s < length bs \<Longrightarrow> \<exists>s'. f s = Some (False, s') \<and> mem_within s s'"
    and "size_sink s \<Longrightarrow> length bs \<le> size_room s \<Longrightarrow> f s = Some (True, size_emit bs s)"
  using assms mem_room_le [OF ready_sink] by (fastforce simp: encodes_def split: if_splits)+

lemma encodes_callback: "encodes f r \<Longrightarrow> o_callback s = Some buf_write \<Longrightarrow> f s = Some (ok, s') \<Longrightarrow> o_callback s' = Some buf_write"
  unfolding encodes_def by blast

lemma encodes_never: "encodes f None \<Longrightarrow> o_callback s = Some buf_write \<Longrightarrow> f s \<noteq> Some (True, s')"
  by (simp add: encodes_def)

lemma encodes_undefined: "encodes (\<lambda>s. None) None"
  by (simp add: encodes_def)

lemma encodes_failure: "encodes (\<lambda>s. Some (o_fail msg s)) None"
  by (auto simp: encodes_def o_fail_def o_set_error_def)

lemma encodes_nothing: "encodes (\<lambda>s. Some (True, s)) (Some [])"
  by (simp add: encodes_def)

lemma encodes_bind: "(\<And>v. x = Some v \<Longrightarrow> encodes (f v) (g v)) \<Longrightarrow>
  encodes (\<lambda>s. do { v \<leftarrow> x; f v s }) (do { v \<leftarrow> x; g v })"
  by (cases x) (simp_all add: encodes_undefined)

lemma encodes_NoneI:
  assumes "\<And>s ok s'. o_callback s = Some buf_write \<Longrightarrow> f s = Some (ok, s') \<Longrightarrow> o_callback s' = Some buf_write"
    and "\<And>s s'. o_callback s = Some buf_write \<Longrightarrow> f s \<noteq> Some (True, s')"
  shows "encodes f None"
  using assms unfolding encodes_def option.case by blast

lemma encodes_SomeI:
  assumes "\<And>s ok s'. o_callback s = Some buf_write \<Longrightarrow> f s = Some (ok, s') \<Longrightarrow> o_callback s' = Some buf_write"
    and "\<And>s. ready s \<Longrightarrow> length bs \<le> size_room s \<Longrightarrow>
      if length bs \<le> mem_room s then f s = Some (True, mem_emit bs s) else \<exists>s'. f s = Some (False, s') \<and> mem_within s s'"
    and "\<And>s. size_sink s \<Longrightarrow> length bs \<le> size_room s \<Longrightarrow> f s = Some (True, size_emit bs s)"
  shows "encodes f (Some bs)"
  unfolding encodes_def option.case
  by (intro conjI allI impI) (fact assms(1), fact assms(2), fact assms(3))

lemma encodes_then:
  assumes f: "encodes f r1" and g: "encodes g r2"
  shows "encodes (\<lambda>s. run_then (f s) g) (both r1 r2)"
proof -
  have cb: "o_callback s' = Some buf_write" if "o_callback s = Some buf_write" "run_then (f s) g = Some (ok, s')" for s ok s'
  proof (cases "f s")
    case (Some p)
    obtain ok' t where p: "p = (ok', t)" by (cases p)
    have t: "o_callback t = Some buf_write" using encodes_callback [OF f that(1)] Some p by blast
    show ?thesis
    proof (cases ok')
      case True
      then have "g t = Some (ok, s')" using that(2) Some p by simp
      then show ?thesis by (rule encodes_callback [OF g t])
    next
      case False
      then show ?thesis using that(2) Some p t by simp
    qed
  qed (use that(2) in simp)
  show ?thesis
  proof (cases "r1 = None \<or> r2 = None")
    case True
    have "run_then (f s) g \<noteq> Some (True, s')" if "o_callback s = Some buf_write" for s s'
    proof
      assume "run_then (f s) g = Some (True, s')"
      then obtain t where t: "f s = Some (True, t)" "g t = Some (True, s')"
        by (auto simp: run_then_def split: option.splits if_splits)
      show False using True
      proof
        assume "r1 = None"
        then show False using f t(1) that encodes_never by blast
      next
        assume "r2 = None"
        then show False using g t(2) encodes_callback [OF f that t(1)] encodes_never by blast
      qed
    qed
    moreover have "both r1 r2 = None" using True by auto
    ultimately show ?thesis using cb encodes_NoneI by metis
  next
    case False
    then obtain xs ys where r: "r1 = Some xs" "r2 = Some ys" by auto
    note fs = f [unfolded r] and gs = g [unfolded r]
    have mem: "if length (xs @ ys) \<le> mem_room s then run_then (f s) g = Some (True, mem_emit (xs @ ys) s)
        else \<exists>s'. run_then (f s) g = Some (False, s') \<and> mem_within s s'"
      if s: "ready s" "length (xs @ ys) \<le> size_room s" for s
    proof (cases "length xs \<le> mem_room s")
      case True
      have fx: "f s = Some (True, mem_emit xs s)" by (rule encodesD(1) [OF fs s(1) True])
      have t: "ready (mem_emit xs s)" "mem_room (mem_emit xs s) = mem_room s - length xs"
        "size_room (mem_emit xs s) = size_room s - length xs"
        using ready_emit [OF s(1) True] mem_emit_room [OF ready_sink [OF s(1)] True] s(2)
        by (simp_all add: size_room_emit)
      show ?thesis
      proof (cases "length (xs @ ys) \<le> mem_room s")
        case True
        then have "g (mem_emit xs s) = Some (True, mem_emit ys (mem_emit xs s))"
          using encodesD(1) [OF gs t(1)] t(2) by simp
        then show ?thesis
          using True fx msink.emit_emit [OF ready_sink [OF s(1)], of xs ys] by simp
      next
        case False
        then have "length ys \<le> size_room (mem_emit xs s)" "mem_room (mem_emit xs s) < length ys"
          using t s(2) \<open>length xs \<le> mem_room s\<close> by simp_all
        then obtain s' where "g (mem_emit xs s) = Some (False, s')" "mem_within (mem_emit xs s) s'"
          using encodesD(2) [OF gs t(1)] by blast
        then show ?thesis
          using False fx within_after_emit [OF ready_sink [OF s(1)] \<open>length xs \<le> mem_room s\<close>] by auto
      qed
    next
      case False
      then obtain s' where "f s = Some (False, s')" "mem_within s s'"
        using encodesD(2) [OF fs s(1)] s(2) by auto
      then show ?thesis using False by simp
    qed
    have sz: "run_then (f s) g = Some (True, size_emit (xs @ ys) s)"
      if s: "size_sink s" "length (xs @ ys) \<le> size_room s" for s
    proof -
      have "f s = Some (True, size_emit xs s)" using encodesD(3) [OF fs s(1)] s(2) by simp
      moreover have "g (size_emit xs s) = Some (True, size_emit ys (size_emit xs s))"
        using encodesD(3) [OF gs, of "size_emit xs s"] s size_emit_room [of xs s] by (simp add: size_sink_def)
      ultimately show ?thesis using ssink.emit_emit [OF s(1), of xs ys] s(2) by simp
    qed
    have "encodes (\<lambda>s. run_then (f s) g) (Some (xs @ ys))" by (rule encodes_SomeI [OF cb mem sz])
    then show ?thesis using r by simp
  qed
qed

text \<open>Steps of the wire layer.\<close>

lemma write_callback: "o_callback s = Some buf_write \<Longrightarrow> o_callback (snd (pb_write s bs n)) = Some buf_write"
  by (simp add: pb_write_def o_fail_def o_set_error_def buf_write_def)

lemma encodes_wire:
  assumes "\<And>s. f s = pb_write s bs (word_of_nat (length bs))" "length bs < 2 ^ 64"
  shows "encodes (\<lambda>s. Some (f s)) (Some bs)"
proof -
  have cb: "o_callback s' = Some buf_write" if "o_callback s = Some buf_write" "f s = (ok, s')" for s ok s'
    using that write_callback [of s bs "word_of_nat (length bs)"] by (simp add: assms(1))
  have full: "\<exists>s'. f s = (False, s') \<and> mem_within s s'" if "ready s" "mem_room s < length bs" for s
    using msink.write_full [OF ready_sink [OF that(1)] that(2) assms(2)] within_refl [OF ready_sink [OF that(1)]]
    by (auto simp: assms(1) o_fail_def o_set_error_def mem_within_def)
  show ?thesis
  proof (rule encodes_SomeI)
    show "if length bs \<le> mem_room s then Some (f s) = Some (True, mem_emit bs s)
        else \<exists>s'. Some (f s) = Some (False, s') \<and> mem_within s s'" if "ready s" for s
      using msink.write_fits [OF ready_sink [OF that]] full [OF that] by (simp add: assms(1) not_le)
    show "Some (f s) = Some (True, size_emit bs s)" if "size_sink s" "length bs \<le> size_room s" for s
      using ssink.write_fits [OF that] by (simp add: assms(1))
  qed (use cb in blast)
qed

lemma encodes_varint: "encodes (\<lambda>s. Some (pb_encode_varint s v)) (Some (base128 (unat v)))"
  by (rule encodes_wire [OF pb_encode_varint_eq base128_u64_short])

lemma encodes_svarint: "encodes (\<lambda>s. Some (pb_encode_svarint s v)) (Some (base128 (unat (zigzag v))))"
  unfolding pb_encode_svarint_def Let_def zigzag_def [symmetric] by (rule encodes_varint)

lemma encodes_fixed32: "encodes (\<lambda>s. Some (pb_encode_fixed32 s v)) (Some (le32 v))"
  by (rule encodes_wire) (simp_all add: pb_encode_fixed32_def le32_def)

lemma encodes_fixed64: "encodes (\<lambda>s. Some (pb_encode_fixed64 s v)) (Some (le64 v))"
  by (rule encodes_wire) (simp_all add: pb_encode_fixed64_def le64_def)

lemma encodes_tag: "unat wt < 8 \<Longrightarrow> encodes (\<lambda>s. Some (pb_encode_tag s wt field)) (Some (base128 (tag_value wt field)))"
  unfolding pb_encode_tag_def using encodes_varint [of "push_bit 3 (to_u64 field) OR to_u64 wt"]
  by (simp add: tag_word)

lemma encodes_byte: "encodes (\<lambda>s. Some (pb_write s [b] 1)) (Some [b])"
  by (rule encodes_wire) simp_all

section \<open>Values\<close>

lemma length_load_bytes: "load_bytes m p n = Some bs \<Longrightarrow> length bs = n"
  by (induction n arbitrary: p bs) (auto split: Option.bind_splits)

lemma encodes_write_mem: "encodes (pb_write_mem m p n) (load_bytes m p (unat n))"
proof (cases "load_bytes m p (unat n)")
  case (Some buf)
  then have w: "pb_write_mem m p n = (\<lambda>s. Some (pb_write (s :: obuf pb_ostream) buf n))" by (intro ext) (simp add: pb_write_mem_def)
  have "unat n = length buf" using length_load_bytes [OF Some] by simp
  then have "n = word_of_nat (length buf)" "length buf < 2 ^ 64"
    using word_of_unatI [of n "length buf"] unat_lt_u64 [of n] by simp_all
  then show ?thesis unfolding Some w by (intro encodes_wire) simp_all
next
  case None
  have n: "0 < n" using None by (cases "n = 0") (simp_all add: word_neq_0_conv)
  show ?thesis unfolding None
  proof (rule encodes_NoneI)
    fix s s' :: "obuf pb_ostream" and ok
    assume s: "o_callback s = Some buf_write"
    show "o_callback s' = Some buf_write" if "pb_write_mem m p n s = Some (ok, s')"
      using that write_callback [OF s, of "[]" n] by (auto simp: pb_write_mem_def None split: if_splits)
    show "pb_write_mem m p n s \<noteq> Some (True, s')"
      using n s by (auto simp: pb_write_mem_def None pb_write_def o_fail_def)
  qed
qed

lemma encodes_string_mem:
  "encodes (pb_encode_string_mem m p n) (map_option delimited (load_bytes m p (unat n)))"
proof -
  have "map_option delimited (load_bytes m p (unat n)) = both (Some (base128 (unat n))) (load_bytes m p (unat n))"
    by (cases "load_bytes m p (unat n)") (simp_all add: delimited_def length_load_bytes)
  then show ?thesis
    unfolding pb_encode_string_mem_def using encodes_then [OF encodes_varint encodes_write_mem] by simp
qed

lemma wire_type_small: "wire_type_of t = Some wt \<Longrightarrow> unat wt < 8"
  by (auto simp: wire_type_of_def split: if_splits)

lemma word_le_3: "(t :: u8) \<le> 3 \<longleftrightarrow> t \<in> {0, 1, 2, 3}"
proof
  assume "t \<le> 3"
  then have "unat t \<le> 3" by (simp add: word_le_nat_alt)
  then have "unat t \<in> {0, 1, 2, 3}" by auto
  then show "t \<in> {0, 1, 2, 3}" by (auto dest: word_of_unatI)
qed auto

lemma encodes_field_tag: "encodes (\<lambda>s. Some (pb_encode_tag_for_field field s)) (tag_bytes field)"
proof (cases "wire_type_of (ltype field)")
  case None
  then have "pb_encode_tag_for_field field s = o_fail ''invalid field type'' s" for s :: "obuf pb_ostream"
    by (simp add: pb_encode_tag_for_field_def wire_type_of_def word_le_3 split: if_splits)
  then show ?thesis by (simp add: tag_bytes_def None encodes_failure)
next
  case (Some wt)
  then have "pb_encode_tag_for_field field s = pb_encode_tag s wt (f_tag field)" for s :: "obuf pb_ostream"
    by (auto simp: pb_encode_tag_for_field_def wire_type_of_def word_le_3 split: if_splits)
  then show ?thesis using encodes_tag [OF wire_type_small [OF Some]] by (simp add: tag_bytes_def Some)
qed

lemma map_option_bind: "map_option f x = do { v \<leftarrow> x; Some (f v) }"
  by (cases x) simp_all

lemma encodes_int:
  assumes "\<And>v. encodes (\<lambda>s. Some (enc s v)) (Some (f v))"
  shows "encodes (\<lambda>s. do { v \<leftarrow> x; Some (case v of None \<Rightarrow> o_fail msg s | Some v \<Rightarrow> enc s v) }) (do { v \<leftarrow> x; map_option f v })"
proof (rule encodes_bind)
  fix v
  show "encodes (\<lambda>s. Some (case v of None \<Rightarrow> o_fail msg s | Some v \<Rightarrow> enc s v)) (map_option f v)"
    using assms by (cases v) (simp_all add: encodes_failure)
qed

section \<open>Submessages\<close>

lemma encodes_write_submessage_None:
  assumes "encodes (enc fs src) None"
  shows "encodes (write_submessage enc fs src n) None"
proof (rule encodes_NoneI)
  fix s :: "obuf pb_ostream" and ok s'
  assume s: "o_callback s = Some buf_write"
  show "o_callback s' = Some buf_write" if "write_submessage enc fs src n s = Some (ok, s')"
    using that s
    by (auto simp: write_submessage_def o_fail_def o_set_error_def Let_def split: if_splits option.splits)
  show "write_submessage enc fs src n s \<noteq> Some (True, s')"
  proof (cases "enc fs src (s\<lparr>max_size := n, bytes_written := 0, o_errmsg := None\<rparr>)")
    case (Some p)
    obtain a t where p: "p = (a, t)" by (cases p)
    have "\<not> a" using encodes_never [OF assms, of "s\<lparr>max_size := n, bytes_written := 0, o_errmsg := None\<rparr>" t] s Some p by auto
    then show ?thesis using s Some p by (simp add: write_submessage_def o_fail_def Let_def)
  qed (use s in \<open>simp add: write_submessage_def o_fail_def\<close>)
qed

lemma encodes_write_submessage:
  assumes enc: "encodes (enc fs src) (Some bs)" and len: "length bs < 2 ^ 64" and n: "n = word_of_nat (length bs)"
  shows "encodes (write_submessage enc fs src n) (Some bs)"
proof (rule encodes_SomeI)
  fix s :: "obuf pb_ostream"
  show "o_callback s' = Some buf_write" if "o_callback s = Some buf_write" "write_submessage enc fs src n s = Some (ok, s')" for ok s'
    using that by (auto simp: write_submessage_def o_fail_def o_set_error_def Let_def split: if_splits option.splits)
  show "write_submessage enc fs src n s = Some (True, size_emit bs s)" if "size_sink s" "length bs \<le> size_room s"
    using that ssink.write_fits [OF that] by (simp add: write_submessage_def size_sink_def n) (simp add: pb_write_def)
  assume r: "ready s" and sz: "length bs \<le> size_room s"
  note cb = ready_callback [OF r] and snk = ready_sink [OF r]
  have w: "unat (bytes_written s + n) = unat (bytes_written s) + length bs"
    unfolding n by (rule unat_plus_word_of_nat) (use sz unat_lt_u64 [of "bytes_written s"] in \<open>simp add: size_room_def\<close>)
  have full: "max_size s < bytes_written s + n \<longleftrightarrow> mem_room s < length bs"
    using w snk by (auto simp: word_less_nat_alt mem_room_def mem_sink_def word_le_nat_alt)
  show "if length bs \<le> mem_room s then write_submessage enc fs src n s = Some (True, mem_emit bs s)
      else \<exists>s'. write_submessage enc fs src n s = Some (False, s') \<and> mem_within s s'"
  proof (cases "length bs \<le> mem_room s")
    case True
    let ?t = "s\<lparr>max_size := n, bytes_written := 0, o_errmsg := None\<rparr>"
    have un: "unat n = length bs" using n len by simp
    have "ready ?t" "mem_room ?t = length bs"
      using snk True un by (simp_all add: ready_def mem_sink_def mem_room_def)
    then have "enc fs src ?t = Some (True, mem_emit bs ?t)" using encodesD(1) [OF enc] by simp
    then have "write_submessage enc fs src n s = Some (True, mem_emit bs s)"
      using True full cb r n by (simp add: write_submessage_def mem_emit_def Let_def ready_def)
    then show ?thesis using True by simp
  next
    case False
    then show ?thesis
      using full cb within_refl [OF snk]
      by (simp add: write_submessage_def o_fail_def o_set_error_def mem_within_def)
  qed
qed

lemma encodes_submessage:
  assumes enc: "encodes (enc fs src) r"
  shows "encodes (pb_encode_submessage enc fs src) (map_option delimited r)"
proof -
  have cb: "o_callback s' = Some buf_write"
    if s: "o_callback s = Some buf_write" and e: "pb_encode_submessage enc fs src s = Some (ok, s')" for s ok s'
  proof -
    have w: "o_callback s' = Some buf_write"
      if "run_then (Some (pb_encode_varint s n)) (write_submessage enc fs src n) = Some (ok, s')" for n
    proof -
      show ?thesis
        using that s write_callback [OF s, of "base128 (unat n)" "word_of_nat (length (base128 (unat n)))"]
        by (cases "pb_encode_varint s n")
          (auto simp: run_then_def pb_encode_varint_eq write_submessage_def o_fail_def o_set_error_def Let_def
            split: if_splits option.splits)
    qed
    show ?thesis using e s w by (auto simp: pb_encode_submessage_def Let_def split: option.splits bool.splits)
  qed
  show ?thesis
  proof (cases r)
    case None
    have "pb_encode_submessage enc fs src s \<noteq> Some (True, s')" if "o_callback s = Some buf_write" for s s'
    proof -
      have "encodes (write_submessage enc fs src n) None" for n
        using enc by (intro encodes_write_submessage_None) (simp add: None)
      then have "encodes (\<lambda>s. run_then (Some (pb_encode_varint s n)) (write_submessage enc fs src n)) None" for n
        using encodes_then [OF encodes_varint] by fastforce
      then show ?thesis using that encodes_never
        by (fastforce simp: pb_encode_submessage_def Let_def split: option.splits bool.splits)
    qed
    then show ?thesis using cb encodes_NoneI by (metis None option.simps(8))
  next
    case (Some bs)
    note encs = enc [unfolded Some]
    show ?thesis
    proof (cases "length bs < 2 ^ 64")
      case True
      define n :: u64 where "n = word_of_nat (length bs)"
      have "enc fs src (pb_ostream_sizing st) = Some (True, size_emit bs (pb_ostream_sizing st))" for st
        using True by (intro encodesD(3) [OF encs]) (simp_all add: size_sink_def pb_ostream_sizing_def size_room_def)
      then have "pb_encode_submessage enc fs src =
          (\<lambda>s. run_then (Some (pb_encode_varint s n)) (write_submessage enc fs src n))"
        by (intro ext) (simp add: pb_encode_submessage_def Let_def n_def size_emit_def pb_ostream_sizing_def)
      moreover have "map_option delimited r = both (Some (base128 (unat n))) (Some bs)"
        using True by (simp add: Some delimited_def n_def)
      ultimately show ?thesis
        using encodes_then [OF encodes_varint [of n] encodes_write_submessage [of enc fs src bs n, OF encs True n_def]]
        by (simp only:)
    next
      case False
      have no: "\<not> length (delimited bs) \<le> size_room s" for s :: "obuf pb_ostream"
        using False by (simp add: delimited_def size_room_def)
      show ?thesis unfolding Some option.map
        by (rule encodes_SomeI) (fact cb, use no in blast, use no in blast)
    qed
  qed
qed

section \<open>The field encoders\<close>

text \<open>A function of the code, and the bytes it stands for.\<close>

definition encoder_of :: "obuf encoder \<Rightarrow> pb_field \<Rightarrow> (addr \<Rightarrow> u8 list option) \<Rightarrow> bool" where
  "encoder_of func field val \<longleftrightarrow> (\<forall>src. encodes (func field src) (val src))"

definition encodes_msg :: "obuf msg_encoder \<Rightarrow> (pb_field list \<Rightarrow> addr \<Rightarrow> u8 list option) \<Rightarrow> bool" where
  "encodes_msg enc msg \<longleftrightarrow> (\<forall>fs src. encodes (enc fs src) (msg fs src))"

lemma encoder_ofD: "encoder_of func field val \<Longrightarrow> encodes (func field src) (val src)"
  by (simp add: encoder_of_def)

lemma encodes_bytes:
  "encodes (pb_enc_bytes m field src)
    (if src = 0 then Some (delimited [])
     else do { n \<leftarrow> load_size m src;
               if atype field = PB_ATYPE_STATIC \<and> data_size field - 4 < to_u64 n then None
               else map_option delimited (load_bytes m (src + 4) (unat n)) })"
proof (cases "src = 0")
  case True
  then show ?thesis using encodes_string_mem [of m 0 0] by (simp add: pb_enc_bytes_def [abs_def])
next
  case False
  have "encodes (\<lambda>s. if big then Some (o_fail msg s) else pb_encode_string_mem m (src + 4) (to_u64 n) s)
      (if big then None else map_option delimited (load_bytes m (src + 4) (unat n)))" for big msg and n :: u32
    using encodes_string_mem [of m "src + 4" "to_u64 n"] by (simp add: encodes_failure)
  from encodes_bind [OF this] show ?thesis using False by (simp add: pb_enc_bytes_def [abs_def] cong: if_cong)
qed

lemma string_size_le: "string_size m p k = Some n \<Longrightarrow> n \<le> k"
  by (induction m p k arbitrary: n rule: string_size.induct) (auto split: Option.bind_splits if_splits)

lemma encodes_string:
  "encodes (pb_enc_string m field src)
    (do { n \<leftarrow> (if src = 0 then Some 0
               else string_size m src (if atype field = PB_ATYPE_POINTER then 2 ^ 64 - 1 else unat (f_data_size field)));
          map_option delimited (load_bytes m src n) })"
  unfolding pb_enc_string_def [abs_def] Let_def
proof (rule encodes_bind)
  fix n
  assume n: "(if src = 0 then Some 0
    else string_size m src (if atype field = PB_ATYPE_POINTER then 2 ^ 64 - 1 else unat (f_data_size field))) = Some n"
  have "unat (f_data_size field) < 2 ^ LENGTH(32)" by (rule unsigned_less)
  then have "n < 2 ^ 64" using n string_size_le by (fastforce split: if_splits)
  then show "encodes (\<lambda>s. pb_encode_string_mem m src (word_of_nat n) s) (map_option delimited (load_bytes m src n))"
    using encodes_string_mem [of m src "word_of_nat n"] by simp
qed

lemma encoder_value:
  assumes func: "PB_ENCODERS env enc m (ltype field) = Some func" and msg: "encodes_msg enc msg"
  shows "encoder_of func field (value_bytes (e_fields env) m msg field)"
proof -
  have sub: "encodes (pb_enc_submessage env enc field src)
      (if f_ptr field = 0 then None
       else do { fs \<leftarrow> fields_at (e_fields env) (f_ptr field); map_option delimited (msg fs src) })" for src
  proof (cases "f_ptr field = 0")
    case False
    have "encodes (pb_encode_submessage enc fs src) (map_option delimited (msg fs src))" for fs
      using msg by (intro encodes_submessage) (simp add: encodes_msg_def)
    then show ?thesis using False by (auto simp: pb_enc_submessage_def [abs_def] intro: encodes_bind)
  qed (simp add: pb_enc_submessage_def [abs_def] encodes_failure)
  have bool: "encodes (pb_enc_bool m field src) (map_option (\<lambda>b. base128 (if b then 1 else 0)) (safe_read_bool m src))" for src
  proof -
    have "encodes (\<lambda>s. Some (pb_encode_varint s (if b then 1 else 0))) (Some (base128 (if b then 1 else 0)))" for b
      using encodes_varint [of "if b then 1 else 0"] by (cases b) simp_all
    then show ?thesis by (auto simp: pb_enc_bool_def [abs_def] map_option_bind intro: encodes_bind)
  qed
  have fixed: "encodes (pb_enc_fixed32 m field src) (map_option le32 (load_word m src 4))"
    "encodes (pb_enc_fixed64 m field src) (map_option le64 (load_word m src 8))" for src
    by (auto simp: pb_enc_fixed32_def [abs_def] pb_enc_fixed64_def [abs_def] map_option_bind
        intro!: encodes_bind encodes_fixed32 encodes_fixed64)
  have ints: "encodes (pb_enc_varint m field src) (do { v \<leftarrow> load_int64 m (f_data_size field) src; map_option (\<lambda>v. base128 (unat v)) v })"
    "encodes (pb_enc_uvarint m field src) (do { v \<leftarrow> load_uint64 m (f_data_size field) src; map_option (\<lambda>v. base128 (unat v)) v })"
    "encodes (pb_enc_svarint m field src) (do { v \<leftarrow> load_int64 m (f_data_size field) src; map_option (\<lambda>v. base128 (unat (zigzag v))) v })" for src
    unfolding pb_enc_varint_def [abs_def] pb_enc_uvarint_def [abs_def] pb_enc_svarint_def [abs_def]
    by (rule encodes_int, rule encodes_varint | rule encodes_int, rule encodes_svarint)+
  have fixed_len: "encodes (pb_enc_fixed_length_bytes m field src) (map_option delimited (load_bytes m src (unat (f_data_size field))))" for src
    unfolding pb_enc_fixed_length_bytes_def [abs_def] using encodes_string_mem [of m src "data_size field"] by simp
  define bv sv xv where
    "bv src = (if src = 0 then Some (delimited [])
     else do { n \<leftarrow> load_size m src;
               if atype field = PB_ATYPE_STATIC \<and> data_size field - 4 < to_u64 n then None
               else map_option delimited (load_bytes m (src + 4) (unat n)) })"
    and "sv src = (do { n \<leftarrow> (if src = 0 then Some 0
               else string_size m src (if atype field = PB_ATYPE_POINTER then 2 ^ 64 - 1 else unat (f_data_size field)));
          map_option delimited (load_bytes m src n) })"
    and "xv src = (if f_ptr field = 0 then None
       else do { fs \<leftarrow> fields_at (e_fields env) (f_ptr field); map_option delimited (msg fs src) })" for src
  have strings: "encodes (pb_enc_bytes m field src) (bv src)" "encodes (pb_enc_string m field src) (sv src)"
    "encodes (pb_enc_submessage env enc field src) (xv src)" for src
    using encodes_bytes encodes_string sub unfolding bv_def sv_def xv_def by blast+
  show ?thesis
    using func strings bool fixed ints fixed_len encodes_undefined
    unfolding PB_ENCODERS_def encoder_of_def value_bytes_def Let_def bv_def [symmetric] sv_def [symmetric] xv_def [symmetric]
    by (auto split: if_splits)
qed

lemma encodes_items:
  assumes "\<And>p. encodes (func field p) (item p)" "width = data_size field"
  shows "encodes (encode_items func field count p) (items_bytes item width count p)"
proof (induction count arbitrary: p)
  case 0
  then show ?case using encodes_nothing by simp
next
  case (Suc count)
  show ?case using encodes_then [OF assms(1) Suc.IH] assms(2) by simp
qed

lemma encodes_if: "(P \<Longrightarrow> encodes f r) \<Longrightarrow> (\<not> P \<Longrightarrow> encodes g r') \<Longrightarrow>
  encodes (\<lambda>s. if P then f s else g s) (if P then r else r')"
  by (cases P) simp_all

lemma encodes_entry:
  assumes val: "encoder_of func field val"
  shows "encodes (encode_entry m func field p)
    (both (tag_bytes field)
      (if atype field = PB_ATYPE_POINTER \<and> (ltype field = PB_LTYPE_STRING \<or> ltype field = PB_LTYPE_BYTES)
       then do { q \<leftarrow> load_ptr m p; val q } else val p))"
  unfolding encode_entry_def [abs_def]
  by (intro encodes_then encodes_field_tag encodes_if encodes_bind encoder_ofD [OF val])

section \<open>Arrays\<close>

text \<open>A packable value has at most ten bytes, and four or eight when it is fixed-width.\<close>

lemma packable_cases: "(t :: u8) \<le> PB_LTYPE_LAST_PACKABLE \<Longrightarrow> t \<in> {0, 1, 2, 3, 4, 5}"
proof -
  assume "t \<le> PB_LTYPE_LAST_PACKABLE"
  then have "unat t \<le> 5" by (simp add: word_le_nat_alt)
  then have "unat t \<in> {0, 1, 2, 3, 4, 5}" by auto
  then show ?thesis by (auto dest: word_of_unatI)
qed

lemma packed_value_length:
  assumes "ltype field \<le> PB_LTYPE_LAST_PACKABLE" "value_bytes D m msg field src = Some bs"
  shows "length bs \<le> 10" "ltype field = PB_LTYPE_FIXED32 \<Longrightarrow> length bs = 4" "ltype field = PB_LTYPE_FIXED64 \<Longrightarrow> length bs = 8"
proof -
  have "length (base128 (unat (v :: u64))) \<le> 10" for v by (rule base128_u64_length)
  then show "length bs \<le> 10"
    using packable_cases [OF assms(1)] assms(2)
    by (auto simp: value_bytes_def Let_def split: if_splits Option.bind_splits)
  show "ltype field = PB_LTYPE_FIXED32 \<Longrightarrow> length bs = 4" "ltype field = PB_LTYPE_FIXED64 \<Longrightarrow> length bs = 8"
    using assms(2) by (auto simp: value_bytes_def Let_def)
qed

lemma both_Some: "both r1 r2 = Some zs \<longleftrightarrow> (\<exists>xs ys. r1 = Some xs \<and> r2 = Some ys \<and> zs = xs @ ys)"
  by (cases r1; cases r2) auto

lemma items_length:
  assumes "\<And>p bs. item p = Some bs \<Longrightarrow> length bs \<le> k"
  shows "items_bytes item w n p = Some bs \<Longrightarrow> length bs \<le> k * n"
proof (induction n arbitrary: p bs)
  case (Suc n)
  then show ?case using assms by (fastforce simp: both_Some)
qed simp

lemma items_length_exact:
  assumes "\<And>p bs. item p = Some bs \<Longrightarrow> length bs = k"
  shows "items_bytes item w n p = Some bs \<Longrightarrow> length bs = k * n"
proof (induction n arbitrary: p bs)
  case (Suc n)
  then show ?case using assms by (fastforce simp: both_Some)
qed simp

definition write_packed :: "'s encoder \<Rightarrow> pb_field \<Rightarrow> nat \<Rightarrow> addr \<Rightarrow> u64 \<Rightarrow> 's step" where
  "write_packed func field count p sz s =
    (if o_callback s = None then Some (pb_write s [] sz) else encode_items func field count p s)"

lemma encodes_write_packed:
  assumes items: "encodes (encode_items func field count p) r" and n: "\<And>bs. r = Some bs \<Longrightarrow> sz = word_of_nat (length bs)"
  shows "encodes (write_packed func field count p sz) r"
proof (cases r)
  case None
  show ?thesis unfolding None
  proof (rule encodes_NoneI)
    fix s s' :: "obuf pb_ostream" and ok
    assume s: "o_callback s = Some buf_write"
    then have "write_packed func field count p sz s = encode_items func field count p s" by (simp add: write_packed_def)
    then show "write_packed func field count p sz s = Some (ok, s') \<Longrightarrow> o_callback s' = Some buf_write"
      "write_packed func field count p sz s \<noteq> Some (True, s')"
      using encodes_callback [OF items s] encodes_never [OF items [unfolded None] s] by simp_all
  qed
next
  case (Some bs)
  show ?thesis unfolding Some
  proof (rule encodes_SomeI)
    fix s :: "obuf pb_ostream"
    show "o_callback s' = Some buf_write" if "o_callback s = Some buf_write" "write_packed func field count p sz s = Some (ok, s')" for ok s'
      using encodes_callback [OF items that(1)] that by (simp add: write_packed_def)
    show "if length bs \<le> mem_room s then write_packed func field count p sz s = Some (True, mem_emit bs s)
      else \<exists>s'. write_packed func field count p sz s = Some (False, s') \<and> mem_within s s'"
      if "ready s" "length bs \<le> size_room s"
      using encodesD(1,2) [OF items [unfolded Some] that(1)] that ready_callback [OF that(1)] by (simp add: write_packed_def)
    show "write_packed func field count p sz s = Some (True, size_emit bs s)" if "size_sink s" "length bs \<le> size_room s"
      using that ssink.write_fits [OF that] n [OF Some] by (simp add: write_packed_def size_sink_def pb_write_def)
  qed
qed

lemma encodes_packed:
  assumes val: "encoder_of func field val" and cnt: "count < 2 ^ 32" and pk: "ltype field \<le> PB_LTYPE_LAST_PACKABLE"
    and v: "val = value_bytes D m msg field"
  shows "encodes (\<lambda>s. case packed_size func field count data (o_state s) of
           None \<Rightarrow> None
         | Some (False, _) \<Rightarrow> Some (False, s)
         | Some (True, sz) \<Rightarrow> run_then (Some (pb_encode_varint s sz)) (write_packed func field count data sz))
     (map_option delimited (items_bytes val (data_size field) count data))"
proof -
  define r where "r = items_bytes val (data_size field) count data"
  have items: "encodes (encode_items func field count data) r"
    unfolding r_def using encoder_ofD [OF val] by (intro encodes_items) simp_all
  let ?go = "\<lambda>s sz. run_then (Some (pb_encode_varint s sz)) (write_packed func field count data sz)"
  show ?thesis
  proof (cases r)
    case None
    have go: "encodes (\<lambda>s. ?go s sz) None" for sz
    proof -
      have "encodes (write_packed func field count data sz) r" by (rule encodes_write_packed [OF items]) (simp add: None)
      from encodes_then [OF encodes_varint [of sz] this] show ?thesis by (simp add: None)
    qed
    show ?thesis unfolding r_def [symmetric] None option.map
    proof (rule encodes_NoneI)
      fix s s' :: "obuf pb_ostream" and ok
      assume s: "o_callback s = Some buf_write"
      obtain y where y: "packed_size func field count data (o_state s) = y" by simp
      show "(case packed_size func field count data (o_state s) of None \<Rightarrow> None | Some (False, _) \<Rightarrow> Some (False, s)
          | Some (True, sz) \<Rightarrow> ?go s sz) = Some (ok, s') \<Longrightarrow> o_callback s' = Some buf_write"
        using encodes_callback [OF go s] s unfolding y by (auto split: option.splits bool.splits)
      show "(case packed_size func field count data (o_state s) of None \<Rightarrow> None | Some (False, _) \<Rightarrow> Some (False, s)
          | Some (True, sz) \<Rightarrow> ?go s sz) \<noteq> Some (True, s')"
        using encodes_never [OF go s] unfolding y by (auto split: option.splits bool.splits)
    qed
  next
    case (Some bs)
    note b = Some [unfolded r_def v]
    have "length bs \<le> 10 * count" using items_length [OF packed_value_length(1) [OF pk] b] .
    then have len: "length bs < 2 ^ 64" using cnt by simp
    have "packed_size func field count data st = Some (True, word_of_nat (length bs))" for st
    proof -
      have "encode_items func field count data (pb_ostream_sizing st) = Some (True, size_emit bs (pb_ostream_sizing st))"
        using len by (intro encodesD(3) [OF items [unfolded Some]]) (simp_all add: size_sink_def pb_ostream_sizing_def size_room_def)
      then show ?thesis
        using items_length_exact [OF packed_value_length(2) [OF pk] b] items_length_exact [OF packed_value_length(3) [OF pk] b]
        by (simp add: packed_size_def size_emit_def pb_ostream_sizing_def)
    qed
    moreover have "encodes (\<lambda>s. ?go s (word_of_nat (length bs))) (Some (delimited bs))"
      using encodes_then [OF encodes_varint [of "word_of_nat (length bs)"] encodes_write_packed [OF items, of "word_of_nat (length bs)"]]
        Some len by (simp add: delimited_def)
    ultimately show ?thesis using Some by (simp add: r_def)
  qed
qed

lemma encodes_array:
  assumes val: "encoder_of func field val" and v: "val = value_bytes D m msg field"
  shows "encodes (encode_array m field data count func) (array_bytes m field data count val)"
proof -
  have "unat count < 2 ^ LENGTH(32)" by (rule unsigned_less)
  then have cnt: "unat count < 2 ^ 32" by simp
  have tag: "encodes (\<lambda>s. Some (pb_encode_tag s PB_WT_STRING (f_tag field))) (Some (base128 (tag_value PB_WT_STRING (f_tag field))))"
    by (rule encodes_tag) simp
  show ?thesis
    unfolding encode_array_def [abs_def] array_bytes_def write_packed_def [symmetric, abs_def]
    by (intro encodes_if encodes_then encodes_nothing encodes_failure tag encodes_packed [OF val cnt _ v]
        encodes_items [where func = "encode_entry m func"] encodes_entry [OF val] refl) assumption
qed

section \<open>Fields and messages\<close>

text \<open>What is asked of the user functions: that they write their bytes, the same on every stream.\<close>

definition user_encodes :: "obuf enc_env \<Rightarrow> user_bytes \<Rightarrow> bool" where
  "user_encodes env U \<longleftrightarrow>
    (\<forall>f m field arg. encodes (e_callback env f m field arg) (callback_bytes U f m field arg)) \<and>
    (\<forall>f m ext. encodes (e_extension env f m ext) (extension_bytes U f m ext))"

lemma within_error: "mem_within s s' \<Longrightarrow> mem_within s (o_set_error msg s')"
  by (simp add: mem_within_def o_set_error_def)

lemma encodes_or_fail:
  assumes f: "encodes f r"
  shows "encodes (\<lambda>s. map_option (\<lambda>(ok, s). if ok then (True, s) else o_fail msg s) (f s)) r"
proof -
  let ?g = "\<lambda>s. map_option (\<lambda>(ok, s). if ok then (True, s) else o_fail msg s) (f s)"
  have cb: "o_callback s' = Some buf_write" if c: "o_callback s = Some buf_write" and g: "?g s = Some (ok, s')"
    for s ok and s' :: "obuf pb_ostream"
  proof -
    obtain b t where t: "f s = Some (b, t)" "(ok, s') = (if b then (True, t) else o_fail msg t)"
      using g by (cases "f s") auto
    have "o_callback t = Some buf_write" by (rule encodes_callback [OF f c t(1)])
    then show ?thesis using t(2) by (auto simp: o_fail_def o_set_error_def split: if_splits)
  qed
  show ?thesis
  proof (cases r)
    case None
    have "?g s \<noteq> Some (True, s')" if "o_callback s = Some buf_write" for s and s' :: "obuf pb_ostream"
      using encodes_never [OF f [unfolded None] that] by (auto simp: o_fail_def split: if_splits)
    then show ?thesis unfolding None using cb by (intro encodes_NoneI) blast+
  next
    case (Some bs)
    note fs = f [unfolded Some]
    show ?thesis unfolding Some
    proof (rule encodes_SomeI)
      show "?g s = Some (ok, s') \<Longrightarrow> o_callback s' = Some buf_write" if "o_callback s = Some buf_write" for s s' :: "obuf pb_ostream" and ok
        by (rule cb [OF that])
      show "if length bs \<le> mem_room s then ?g s = Some (True, mem_emit bs s) else \<exists>s'. ?g s = Some (False, s') \<and> mem_within s s'"
        if "ready s" "length bs \<le> size_room s" for s
      proof (cases "length bs \<le> mem_room s")
        case True
        then show ?thesis using encodesD(1) [OF fs that(1)] by simp
      next
        case False
        then have "mem_room s < length bs" by simp
        from encodesD(2) [OF fs \<open>ready s\<close> \<open>length bs \<le> size_room s\<close> this]
        obtain s' where "f s = Some (False, s')" "mem_within s s'" by blast
        then show ?thesis using False within_error by (simp add: o_fail_def)
      qed
      show "?g s = Some (True, size_emit bs s)" if "size_sink s" "length bs \<le> size_room s" for s
        using encodesD(3) [OF fs that] by simp
    qed
  qed
qed

lemma encodes_case_option: "encodes f r \<Longrightarrow> encodes (\<lambda>s. f s) r" by simp

lemma PB_ENCODERS_None: "PB_ENCODERS env enc m t = None \<longleftrightarrow> \<not> t \<le> PB_LTYPE_FIXED_LENGTH_BYTES"
proof -
  have "t \<le> PB_LTYPE_FIXED_LENGTH_BYTES \<longleftrightarrow> t \<in> {0, 1, 2, 3, 4, 5, 6, 7, 8, 9, 0xA}"
  proof
    assume "t \<le> PB_LTYPE_FIXED_LENGTH_BYTES"
    then have "unat t \<le> 10" by (simp add: word_le_nat_alt)
    moreover have "k = 0 \<or> k = 1 \<or> k = 2 \<or> k = 3 \<or> k = 4 \<or> k = 5 \<or> k = 6 \<or> k = 7 \<or> k = 8 \<or> k = 9 \<or> k = 10"
      if "k \<le> 10" for k :: nat using that by arith
    ultimately have "unat t \<in> {0, 1, 2, 3, 4, 5, 6, 7, 8, 9, 10}" by blast
    then show "t \<in> {0, 1, 2, 3, 4, 5, 6, 7, 8, 9, 0xA}" by (elim insertE emptyE) (auto dest: word_of_unatI)
  qed auto
  then show ?thesis by (auto simp: PB_ENCODERS_def)
qed

lemma encodes_basic_field:
  assumes msg: "encodes_msg enc msg" and ok: "ltype field \<le> PB_LTYPE_FIXED_LENGTH_BYTES"
  shows "encodes (encode_basic_field n env m enc field data) (basic_field_bytes n (e_fields env) m msg field data)"
proof -
  obtain func where func: "PB_ENCODERS env enc m (ltype field) = Some func"
    using PB_ENCODERS_None [of env enc m "ltype field"] ok by auto
  note val = encoder_value [OF func msg]
  have tv: "encodes (\<lambda>s. run_then (Some (pb_encode_tag_for_field field s)) (func field data))
      (both (tag_bytes field) (value_bytes (e_fields env) m msg field data))" for data
    by (rule encodes_then [OF encodes_field_tag encoder_ofD [OF val]])
  show ?thesis
    unfolding encode_basic_field_def [abs_def] basic_field_bytes_def func Let_def Option.bind.simps
      split_def
    by (intro encodes_bind encodes_if encodes_failure encodes_undefined tv encodes_nothing encodes_array [OF val refl])
qed

lemma encodes_callback_field:
  assumes "user_encodes env U"
  shows "encodes (encode_callback_field env m field data)
    (do { encode \<leftarrow> load_ptr m data; if encode \<noteq> 0 then callback_bytes U encode m field (data + 8) else Some [] })"
  unfolding encode_callback_field_def [abs_def]
  using assms by (intro encodes_bind encodes_if encodes_or_fail encodes_nothing) (simp add: user_encodes_def)

lemma encodes_field:
  assumes msg: "encodes_msg enc msg" and user: "user_encodes env U"
  shows "encodes (encode_field n env m enc field data) (field_bytes n (e_fields env) U m msg field data)"
proof -
  have basic: "encodes (encode_basic_field n env m enc field data)
      (do { _ \<leftarrow> (if ltype field \<le> PB_LTYPE_FIXED_LENGTH_BYTES then Some () else None);
            basic_field_bytes n (e_fields env) m msg field data })"
  proof (cases "ltype field \<le> PB_LTYPE_FIXED_LENGTH_BYTES")
    case True
    then show ?thesis using encodes_basic_field [OF msg True] by simp
  next
    case False
    then have "encode_basic_field n env m enc field data = (\<lambda>s. None)"
      using PB_ENCODERS_None [of env enc m "ltype field"] by (simp add: encode_basic_field_def [abs_def])
    then show ?thesis using False encodes_undefined by simp
  qed
  show ?thesis
    unfolding encode_field_def [abs_def] field_bytes_def
    by (intro encodes_if basic encodes_callback_field [OF user] encodes_failure)
qed

lemma encodes_extensions:
  assumes msg: "encodes_msg enc msg" and user: "user_encodes env U"
  shows "encodes (encode_extensions k n env m enc ext) (extensions_bytes k n (e_fields env) U m msg ext)"
proof (induction k arbitrary: ext)
  case 0
  then show ?case using encodes_undefined by simp
next
  case (Suc k)
  have default: "encodes (default_extension_encoder n env m enc ext) (default_extension_bytes n (e_fields env) U m msg ext)"
    unfolding default_extension_encoder_def [abs_def] default_extension_bytes_def Let_def
    by (intro encodes_bind encodes_if encodes_field [OF msg user])
  have user': "encodes (e_extension env f m ext) (extension_bytes U f m ext)" for f
    using user by (simp add: user_encodes_def)
  show ?case
    unfolding encode_extensions.simps(2) [abs_def] extensions_bytes.simps(2)
    by (intro encodes_if encodes_nothing encodes_bind encodes_then user' default Suc.IH)
qed

lemma encodes_any_field:
  assumes "encodes_msg enc msg" "user_encodes env U"
  shows "encodes (encode_any_field n env m enc field data) (any_field_bytes n (e_fields env) U m msg field data)"
  unfolding encode_any_field_def [abs_def] any_field_bytes_def encode_extension_field_def [abs_def]
  by (intro encodes_if encodes_bind encodes_extensions encodes_field assms)

lemma encodes_fields:
  assumes "\<And>field data. encodes (func field data) (bytes field data)"
  shows "encodes (encode_fields func it) (fields_bytes bytes it)"
proof (induction "length (it_start it) - it_pos it" arbitrary: it rule: less_induct)
  case less
  have "encodes (\<lambda>s. case pb_field_iter_next it of (True, it) \<Rightarrow> encode_fields func it s | (False, _) \<Rightarrow> Some (True, s))
      (case pb_field_iter_next it of (True, it) \<Rightarrow> fields_bytes bytes it | (False, _) \<Rightarrow> Some [])"
  proof (cases "pb_field_iter_next it")
    case (Pair ok it')
    show ?thesis
    proof (cases ok)
      case True
      then have "encodes (encode_fields func it') (fields_bytes bytes it')"
        using less [OF iter_next_measure] Pair by simp
      then show ?thesis using Pair True by simp
    qed (simp add: Pair encodes_nothing)
  qed
  from encodes_then [OF assms this]
  show ?case by (subst fields_bytes.simps, subst encode_fields.simps [abs_def])
qed

theorem encodes_message:
  assumes user: "user_encodes env U"
  shows "encodes_msg (pb_encode n env m) (message_bytes n (e_fields env) U m)"
proof (induction n)
  case 0
  then show ?case using encodes_undefined by (simp add: encodes_msg_def)
next
  case (Suc n)
  have "encodes (pb_encode (Suc n) env m fs src) (message_bytes (Suc n) (e_fields env) U m fs src)" for fs src
  proof (cases "pb_field_iter_begin fs src")
    case (Pair ok it)
    have "encodes (encode_fields (encode_any_field n env m (pb_encode n env m)) it)
      (fields_bytes (any_field_bytes n (e_fields env) U m (message_bytes n (e_fields env) U m)) it)"
      by (intro encodes_fields encodes_any_field Suc.IH user)
    then show ?thesis using Pair encodes_nothing by (cases ok) (simp_all add: pb_encode.simps(2) [abs_def])
  qed
  then show ?case unfolding encodes_msg_def by blast
qed

end
