(* ===== verification/NanopbMessageProps.thy ===== *)
theory NanopbMessageProps
  imports NanopbMessage
begin

text \<open>
  The properties of the message encoder: \<open>pb_encode\<close> writes exactly the bytes of the message, the
  sizing pass agrees with the writing pass, and messages without an encoding are refused. The size check
  of a submessage has no guard against wrapping around, which bounds the first of them.
\<close>

text \<open>The message of the witnesses: a number and a message with a number, in eight bytes of memory.\<close>

definition no_user :: "desc_table \<Rightarrow> obuf enc_env" where
  "no_user D = \<lparr>e_fields = D, e_callback = \<lambda>f m field arg s. None, e_extension = \<lambda>f m ext s. None\<rparr>"

definition no_bytes :: user_bytes where
  "no_bytes = \<lparr>callback_bytes = \<lambda>f m field arg. None, extension_bytes = \<lambda>f m ext. None\<rparr>"

definition sample_inner :: "pb_field list" where
  "sample_inner = [\<lparr>f_tag = 1, f_type = 0x02, f_data_offset = 0, f_size_offset = 0, f_data_size = 4, f_array_size = 0, f_ptr = 0\<rparr>]"

definition sample_fields :: "pb_field list" where
  "sample_fields =
    [\<lparr>f_tag = 1, f_type = 0x02, f_data_offset = 0, f_size_offset = 0, f_data_size = 4, f_array_size = 0, f_ptr = 0\<rparr>,
     \<lparr>f_tag = 2, f_type = 0x08, f_data_offset = 0, f_size_offset = 0, f_data_size = 4, f_array_size = 0, f_ptr = 0x2000\<rparr>]"

definition sample_descs :: desc_table where
  "sample_descs p = (if p = 0x2000 then Some sample_inner else None)"

definition sample_mem :: mem where
  "sample_mem p = (if p = 0x1000 then Some 150 else if p = 0x1004 then Some 5 else if p < 0x1008 then Some 0 else None)"

lemma no_user_encodes: "user_encodes (no_user D) no_bytes" and no_user_fields [simp]: "e_fields (no_user D) = D"
  by (simp_all add: user_encodes_def no_user_def no_bytes_def encodes_undefined)

lemma sample_bytes:
  "message_bytes 2 sample_descs no_bytes sample_mem sample_fields 0x1000 = Some [0x08, 0x96, 0x01, 0x12, 0x02, 0x08, 0x05]"
  by code_simp

lemma encodes_pb_encode:
  "user_encodes env U \<Longrightarrow> encodes (pb_encode n env m fs src) (message_bytes n (e_fields env) U m fs src)"
  using encodes_message by (simp add: encodes_msg_def)

text \<open>
  C3. \<open>pb_encode\<close> writes the bytes of the message. For a message that has an encoding
  \<open>bs\<close>, on a memory stream without error on which counting \<open>bs\<close> does not wrap, it succeeds exactly
  when \<open>bs\<close> fits, has then written \<open>bs\<close> and nothing else, and otherwise fails without having
  changed a byte outside the free part of the buffer. Messages in messages, packed arrays, extensions and
  callbacks that write their own bytes are included.
\<close>
theorem pb_encode_exact:
  assumes "user_encodes env U" "message_bytes n (e_fields env) U m fs src = Some bs"
    and "mem_sink s" "o_errmsg s = None" "unat (bytes_written s) + length bs < 2 ^ 64"
  shows "if length bs \<le> mem_room s then pb_encode n env m fs src s = Some (True, mem_emit bs s)
    else \<exists>s'. pb_encode n env m fs src s = Some (False, s') \<and> mem_within s s'"
proof -
  have r: "ready s" and sz: "length bs \<le> size_room s"
    using assms(3-5) by (simp_all add: ready_def size_room_def)
  note e = encodes_pb_encode [OF assms(1), of n m fs src, unfolded assms(2)]
  show ?thesis
    using encodesD(1) [OF e r] encodesD(2) [OF e r sz] by auto
qed

theorem pb_encode_exact_witness:
  "pb_encode 2 (no_user sample_descs) sample_mem sample_fields 0x1000 (pb_ostream_from_buffer (replicate 8 0) 8) =
     Some (True, mem_emit [0x08, 0x96, 0x01, 0x12, 0x02, 0x08, 0x05] (pb_ostream_from_buffer (replicate 8 0) 8))"
proof -
  have s: "mem_sink (pb_ostream_from_buffer (replicate 8 0) 8)" "o_errmsg (pb_ostream_from_buffer (replicate 8 0) 8) = None"
    "mem_room (pb_ostream_from_buffer (replicate 8 0) 8) = 8"
    "unat (bytes_written (pb_ostream_from_buffer (replicate 8 0) 8)) + length [0x08, 0x96, 0x01, 0x12, 0x02, 0x08, 0x05 :: u8] < 2 ^ 64"
    by (simp_all add: mem_sink_def mem_room_def pb_ostream_from_buffer_def)
  show ?thesis
    using pb_encode_exact [OF no_user_encodes _ s(1,2,4), unfolded no_user_fields, OF sample_bytes] s(3) by simp
qed

text \<open>
  C11. Sizing is writing: for a message that has an encoding, \<open>pb_get_encoded_size\<close> returns its
  length, the number of bytes \<open>pb_encode\<close> then writes, so that a buffer of that size is enough.
\<close>
theorem encoded_size_exact:
  assumes "user_encodes env U" "message_bytes n (e_fields env) U m fs src = Some bs" "length bs < 2 ^ 64"
    and "length bs \<le> length buf"
  shows "\<exists>size s'. pb_get_encoded_size n env m fs src st = Some (Some size) \<and> unat size = length bs \<and>
    pb_encode n env m fs src (pb_ostream_from_buffer buf size) = Some (True, s') \<and> bytes_written s' = size \<and>
    ob_mem (o_state s') = bs @ drop (length bs) buf"
proof -
  define size :: u64 where "size = word_of_nat (length bs)"
  note e = encodes_pb_encode [OF assms(1), of n m fs src, unfolded assms(2)]
  have sz: "pb_encode n env m fs src (pb_ostream_sizing st) = Some (True, size_emit bs (pb_ostream_sizing st))"
    using assms(3) by (intro encodesD(3) [OF e]) (simp_all add: size_sink_def pb_ostream_sizing_def size_room_def)
  have "ready (pb_ostream_from_buffer buf size)" "mem_room (pb_ostream_from_buffer buf size) = length bs"
    using assms(3,4) by (simp_all add: ready_def mem_sink_def mem_room_def pb_ostream_from_buffer_def size_def)
  then have "pb_encode n env m fs src (pb_ostream_from_buffer buf size) =
      Some (True, mem_emit bs (pb_ostream_from_buffer buf size))"
    using encodesD(1) [OF e] by simp
  then show ?thesis
    using sz assms(3) by (intro exI [of _ size])
      (simp add: pb_get_encoded_size_def size_emit_def pb_ostream_sizing_def mem_emit_def Let_def pb_ostream_from_buffer_def size_def)
qed

theorem encoded_size_exact_witness:
  "\<forall>st. pb_get_encoded_size 2 (no_user sample_descs) sample_mem sample_fields 0x1000 st = Some (Some 7)"
proof
  fix st
  have l: "length [0x08, 0x96, 0x01, 0x12, 0x02, 0x08, 0x05 :: u8] < 2 ^ 64"
    "length [0x08, 0x96, 0x01, 0x12, 0x02, 0x08, 0x05 :: u8] \<le> length (replicate 7 (0 :: u8))" by simp_all
  obtain size where "pb_get_encoded_size 2 (no_user sample_descs) sample_mem sample_fields 0x1000 st = Some (Some size)" "unat size = 7"
    using encoded_size_exact [OF no_user_encodes _ l, unfolded no_user_fields, OF sample_bytes, of st] by auto
  moreover from this have "size = 7" using word_of_unatI by fastforce
  ultimately show "pb_get_encoded_size 2 (no_user sample_descs) sample_mem sample_fields 0x1000 st = Some (Some 7)" by simp
qed

text \<open>
  C24. A message without an encoding is refused: if a required pointer field is missing, a count exceeds
  its array, bytes exceed their field, a descriptor is invalid or data is not there, at any depth,
  \<open>pb_encode\<close> never returns true on a memory stream, whatever room there is.
\<close>
theorem pb_encode_refuses:
  assumes "user_encodes env U" "message_bytes n (e_fields env) U m fs src = None" "o_callback s = Some buf_write"
  shows "pb_encode n env m fs src s \<noteq> Some (True, s')"
  using encodes_never [OF encodes_pb_encode [OF assms(1), of n m fs src, unfolded assms(2)] assms(3)] .

text \<open>A repeated field whose count, 3, exceeds its array of two.\<close>

definition overfull :: "pb_field list" where
  "overfull = [\<lparr>f_tag = 1, f_type = 0x22, f_data_offset = 4, f_size_offset = 0xfffffffc, f_data_size = 1, f_array_size = 2, f_ptr = 0\<rparr>]"

definition overfull_mem :: mem where
  "overfull_mem p = (if p = 0x1000 then Some 3 else Some 0)"

theorem pb_encode_refuses_witness:
  "\<nexists>s'. pb_encode 2 (no_user sample_descs) overfull_mem overfull 0x1000 (pb_ostream_from_buffer (replicate 8 0) 8) = Some (True, s')"
proof -
  have "message_bytes 2 sample_descs no_bytes overfull_mem overfull 0x1000 = None" by code_simp
  moreover have "o_callback (pb_ostream_from_buffer (replicate 8 0) 8) = Some buf_write" by (simp add: pb_ostream_from_buffer_def)
  ultimately show ?thesis
    using pb_encode_refuses [OF no_user_encodes, of _ sample_descs] by simp
qed

text \<open>
  The check of \<open>pb_encode_submessage\<close> that the submessage fits adds its size to the bytes written
  without a guard against wrapping around (\<open>pb_write\<close> has one). The message of the example holds a
  callback field that announces nearly \<open>SIZE_MAX\<close> bytes when it is sized, and whose source gives out
  after the first eight when it is written.
\<close>

definition wrap_callback :: "addr \<Rightarrow> mem \<Rightarrow> pb_field \<Rightarrow> addr \<Rightarrow> obuf step" where
  "wrap_callback f m field arg s =
    (if o_callback s = None then Some (pb_write s [] 0xfffffffffffffffa)
     else Some (then_ok (pb_write s [1, 2, 3, 4, 5, 6, 7, 8] 8) (\<lambda>s. (False, s))))"

definition wrap_env :: "obuf enc_env" where
  "wrap_env = \<lparr>e_fields = \<lambda>p. if p = 0x2000 then
       Some [\<lparr>f_tag = 2, f_type = 0x47, f_data_offset = 0, f_size_offset = 0, f_data_size = 16, f_array_size = 0, f_ptr = 0\<rparr>]
     else None, e_callback = wrap_callback, e_extension = \<lambda>f m ext s. None\<rparr>"

definition wrap_fields :: "pb_field list" where
  "wrap_fields = [\<lparr>f_tag = 1, f_type = 0x08, f_data_offset = 0, f_size_offset = 0, f_data_size = 16, f_array_size = 0, f_ptr = 0x2000\<rparr>]"

definition wrap_mem :: mem where
  "wrap_mem p = (if p = 0x1001 then Some 0x30 else Some 0)"

text \<open>
  C38. The size check of a submessage wraps around: there is a message whose encoding into a stream of
  fourteen bytes writes past the end of the buffer, because the size of the submessage plus the bytes
  written is past the largest \<open>size_t\<close>. So the bound of \<open>pb_encode_exact\<close> on the sum
  cannot be dropped.
\<close>
theorem submessage_size_wraps:
  "mem_sink (pb_ostream_from_buffer (replicate 14 0) 14) \<and>
   (\<exists>s'. pb_encode 3 wrap_env wrap_mem wrap_fields 0x1000 (pb_ostream_from_buffer (replicate 14 0) 14) = Some (False, s') \<and>
      ob_fault (o_state s'))"
proof -
  have "map_option (\<lambda>(ok, s). (ok, ob_fault (o_state s)))
      (pb_encode 3 wrap_env wrap_mem wrap_fields 0x1000 (pb_ostream_from_buffer (replicate 14 0) 14)) = Some (False, True)"
    by code_simp
  then show ?thesis by (auto simp: mem_sink_def pb_ostream_from_buffer_def)
qed

end
