(* ===== verification/NanopbDecode.thy ===== *)
theory NanopbDecode
  imports NanopbMem
begin

text \<open>
  The message decoder of nanopb: the rest of \<open>pb_decode.c\<close>, in the configuration with
  \<open>PB_ENABLE_MALLOC\<close>. The heap is the memory of the process and the live blocks of
  \<open>malloc\<close>; writing outside mapped memory, or freeing what is not a live block, is undefined
  behaviour (\<open>None\<close>). The allocator and the user functions are parameters. What a user stream
  leaves in the destination of a read that fails is not modelled.

  As in the encoder, functions that call each other in a cycle take the next round as an argument, and the
  cycles are closed with fuel; \<open>None\<close> is also running out of it.
\<close>

section \<open>The heap\<close>

record heap =
  h_mem :: mem
  h_blocks :: "addr \<Rightarrow> u64 option"

type_synonym 's dres = "(bool \<times> 's pb_istream \<times> heap) option"
type_synonym 's dstep = "'s pb_istream \<Rightarrow> heap \<Rightarrow> 's dres"
type_synonym 's decoder = "pb_field \<Rightarrow> addr \<Rightarrow> 's dstep"
type_synonym 's msg_decoder = "pb_field list \<Rightarrow> addr \<Rightarrow> 's dstep"

text \<open>
  \<open>d_alloc\<close> chooses the place of a new block and what it is filled with, or fails;
  \<open>d_decode\<close> and \<open>d_extension\<close> are the user functions by their address; \<open>d_depth\<close> is the
  fuel of the walks over nested descriptors and messages, and over extension lists.
\<close>

record 's dec_env =
  d_fields :: desc_table
  d_alloc :: "heap \<Rightarrow> u64 \<Rightarrow> (addr \<times> u8) option"
  d_decode :: "addr \<Rightarrow> pb_field \<Rightarrow> addr \<Rightarrow> 's dstep"
  d_extension :: "addr \<Rightarrow> addr \<Rightarrow> u32 \<Rightarrow> pb_wire_type_t \<Rightarrow> 's dstep"
  d_depth :: nat

definition h_store :: "heap \<Rightarrow> addr \<Rightarrow> u8 list \<Rightarrow> heap option" where
  "h_store h p bs = map_option (\<lambda>m. h\<lparr>h_mem := m\<rparr>) (store_bytes (h_mem h) p bs)"

definition h_store_word :: "heap \<Rightarrow> addr \<Rightarrow> nat \<Rightarrow> 'a::len word \<Rightarrow> heap option" where
  "h_store_word h p n v = h_store h p (le_bytes n (unat v))"

abbreviation h_ptr :: "heap \<Rightarrow> addr \<Rightarrow> addr option" where "h_ptr h p \<equiv> load_ptr (h_mem h) p"
abbreviation h_size :: "heap \<Rightarrow> addr \<Rightarrow> u32 option" where "h_size h p \<equiv> load_size (h_mem h) p"

definition in_region :: "addr \<Rightarrow> u64 \<Rightarrow> addr \<Rightarrow> bool" where
  "in_region p n a \<longleftrightarrow> a - p < n"

definition new_block :: "heap \<Rightarrow> addr \<Rightarrow> u64 \<Rightarrow> u8 \<Rightarrow> heap" where
  "new_block h p n fill =
    h\<lparr>h_mem := (\<lambda>a. if in_region p n a then Some fill else h_mem h a), h_blocks := (h_blocks h)(p \<mapsto> n)\<rparr>"

definition pb_free :: "heap \<Rightarrow> addr \<Rightarrow> heap option" where
  "pb_free h p =
    (if p = 0 then Some h
     else do {
       n \<leftarrow> h_blocks h p;
       Some (h\<lparr>h_mem := (\<lambda>a. if in_region p n a then None else h_mem h a), h_blocks := (h_blocks h)(p := None)\<rparr>)
     })"

text \<open>\<open>realloc\<close>: NULL, and the heap as it was, when there is no memory.\<close>

definition pb_realloc :: "'s dec_env \<Rightarrow> heap \<Rightarrow> addr \<Rightarrow> u64 \<Rightarrow> (addr \<times> heap) option" where
  "pb_realloc env h p n =
    (if p \<noteq> 0 \<and> h_blocks h p = None then None
     else
       case d_alloc env h n of
         None \<Rightarrow> Some (0, h)
       | Some (q, fill) \<Rightarrow>
           let h' = new_block h q n fill in
           if p = 0 then Some (q, h')
           else do {
             old \<leftarrow> h_blocks h p;
             bs \<leftarrow> load_bytes (h_mem h) p (unat (min old n));
             h' \<leftarrow> h_store h' q bs;
             h' \<leftarrow> pb_free h' p;
             Some (q, h')
           })"

section \<open>Outcomes\<close>

definition d_fail :: "string \<Rightarrow> 's dstep" where
  "d_fail msg s h = Some (False, i_set_error msg s, h)"

definition dec_then :: "'s dres \<Rightarrow> 's dstep \<Rightarrow> 's dres" where
  "dec_then r g = (case r of None \<Rightarrow> None | Some (ok, s, h) \<Rightarrow> if ok then g s h else Some (False, s, h))"

lemma dec_then_simps [simp]:
  "dec_then None g = None" "dec_then (Some (True, s, h)) g = g s h" "dec_then (Some (False, s, h)) g = Some (False, s, h)"
  by (simp_all add: dec_then_def)

text \<open>A wire decoder: \<open>if (!pb_decode_...(stream, &v)) return false\<close>.\<close>

definition wire_then :: "'a option \<times> 's pb_istream \<Rightarrow> heap \<Rightarrow> ('a \<Rightarrow> 's dstep) \<Rightarrow> 's dres" where
  "wire_then r h g = (case r of (None, s) \<Rightarrow> Some (False, s, h) | (Some v, s) \<Rightarrow> g v s h)"

text \<open>A store, and the result that follows it.\<close>

definition store_then :: "heap option \<Rightarrow> (heap \<Rightarrow> 's dres) \<Rightarrow> 's dres" where
  "store_then r g = (case r of None \<Rightarrow> None | Some h \<Rightarrow> g h)"

lemma store_then_simps [simp]: "store_then None g = None" "store_then (Some h) g = g h"
  by (simp_all add: store_then_def)

text \<open>\<open>pb_read\<close> into memory.\<close>

definition pb_read_mem :: "addr \<Rightarrow> u64 \<Rightarrow> 's dstep" where
  "pb_read_mem p n s h = wire_then (pb_read s True n) h (\<lambda>bs s h. store_then (h_store h p bs) (\<lambda>h. Some (True, s, h)))"

section \<open>Allocation\<close>

definition allocate_field :: "'s dec_env \<Rightarrow> addr \<Rightarrow> u64 \<Rightarrow> u64 \<Rightarrow> 's dstep" where
  "allocate_field env data dsize asize s h =
    do {
      p \<leftarrow> h_ptr h data;
      if dsize = 0 \<or> asize = 0 then d_fail ''invalid size'' s h
      else if (dsize \<ge> 0x100000000 \<or> asize \<ge> 0x100000000) \<and> (- 1) div asize < dsize then
        d_fail ''size too large'' s h
      else do {
        (q, h) \<leftarrow> pb_realloc env h p (asize * dsize);
        if q = 0 then d_fail ''realloc failed'' s h
        else store_then (h_store_word h data 8 q) (\<lambda>h. Some (True, s, h))
      }
    }"

section \<open>Values\<close>

definition pb_dec_bool :: "'s decoder" where
  "pb_dec_bool field dest s h =
    wire_then (pb_decode_varint32 s) h (\<lambda>v s h.
      store_then (h_store h dest [if v \<noteq> 0 then 1 else 0]) (\<lambda>h. Some (True, s, h)))"

text \<open>
  The assignment \<open>clamped = *(T*)dest = (T)v\<close> for the type of the size, and the comparison of
  \<open>clamped\<close> with the value, for a signed or an unsigned type.
\<close>

definition store_int :: "bool \<Rightarrow> u32 \<Rightarrow> addr \<Rightarrow> u64 \<Rightarrow> 's dstep" where
  "store_int sg sz dest v s h =
    (if sz \<in> {1, 2, 4, 8} then
       store_then (h_store h dest (le_bytes (unat sz) (unat v))) (\<lambda>h.
         let clamped =
               (if sz = 8 then v
                else if sz = 4 then (if sg then scast (to_u32 v) else ucast (to_u32 v))
                else if sz = 2 then (if sg then scast (to_u16 v) else ucast (to_u16 v))
                else (if sg then scast (to_u8 v) else ucast (to_u8 v)))
         in if clamped \<noteq> v then d_fail ''integer too large'' s h else Some (True, s, h))
     else d_fail ''invalid data_size'' s h)"

definition pb_dec_varint :: "'s decoder" where
  "pb_dec_varint field dest s h =
    wire_then (pb_decode_varint s) h (\<lambda>v.
      store_int True (f_data_size field) dest (if f_data_size field = 8 then v else scast (to_u32 v)))"

definition pb_dec_uvarint :: "'s decoder" where
  "pb_dec_uvarint field dest s h = wire_then (pb_decode_varint s) h (store_int False (f_data_size field) dest)"

definition pb_dec_svarint :: "'s decoder" where
  "pb_dec_svarint field dest s h = wire_then (pb_decode_svarint s) h (store_int True (f_data_size field) dest)"

definition pb_dec_fixed32 :: "'s decoder" where
  "pb_dec_fixed32 field dest s h =
    wire_then (pb_decode_fixed32 s) h (\<lambda>v s h. store_then (h_store_word h dest 4 v) (\<lambda>h. Some (True, s, h)))"

definition pb_dec_fixed64 :: "'s decoder" where
  "pb_dec_fixed64 field dest s h =
    wire_then (pb_decode_fixed64 s) h (\<lambda>v s h. store_then (h_store_word h dest 8 v) (\<lambda>h. Some (True, s, h)))"

definition pb_dec_bytes :: "'s dec_env \<Rightarrow> 's decoder" where
  "pb_dec_bytes env field dest s h =
    wire_then (pb_decode_varint32 s) h (\<lambda>sz s h.
      let alloc_size = to_u64 sz + 4;
          fill = (\<lambda>bdest s h. store_then (h_store_word h bdest 4 sz) (pb_read_mem (bdest + 4) (to_u64 sz) s)) in
      if sz > PB_SIZE_MAX then d_fail ''bytes overflow'' s h
      else if to_u64 sz > alloc_size then d_fail ''size too large'' s h
      else if atype field = PB_ATYPE_POINTER then
        (if bytes_left s < to_u64 sz then d_fail ''end-of-stream'' s h
         else dec_then (allocate_field env dest alloc_size 1 s h) (\<lambda>s h. do { bdest \<leftarrow> h_ptr h dest; fill bdest s h }))
      else if alloc_size > data_size field then d_fail ''bytes overflow'' s h
      else fill dest s h)"

definition pb_dec_string :: "'s dec_env \<Rightarrow> 's decoder" where
  "pb_dec_string env field dest s h =
    wire_then (pb_decode_varint32 s) h (\<lambda>sz s h.
      let alloc_size = to_u64 (sz + 1);
          fill = (\<lambda>dest s h. do {
            (status, s, h) \<leftarrow> pb_read_mem dest (to_u64 sz) s h;
            store_then (h_store h (dest + to_u64 sz) [0]) (\<lambda>h. Some (status, s, h)) }) in
      if alloc_size < to_u64 sz then d_fail ''size too large'' s h
      else if atype field = PB_ATYPE_POINTER then
        (if bytes_left s < to_u64 sz then d_fail ''end-of-stream'' s h
         else dec_then (allocate_field env dest alloc_size 1 s h) (\<lambda>s h. do { dest \<leftarrow> h_ptr h dest; fill dest s h }))
      else if alloc_size > data_size field then d_fail ''string overflow'' s h
      else fill dest s h)"

definition pb_dec_fixed_length_bytes :: "'s decoder" where
  "pb_dec_fixed_length_bytes field dest s h =
    wire_then (pb_decode_varint32 s) h (\<lambda>sz s h.
      if sz > PB_SIZE_MAX then d_fail ''bytes overflow'' s h
      else if sz = 0 then
        store_then (h_store h dest (replicate (unat (f_data_size field)) 0)) (\<lambda>h. Some (True, s, h))
      else if sz \<noteq> f_data_size field then d_fail ''incorrect fixed length bytes size'' s h
      else pb_read_mem dest (data_size field) s h)"

text \<open>\<open>init\<close> is \<open>pb_decode\<close> and \<open>noinit\<close> is \<open>pb_decode_noinit\<close>, one level down.\<close>

definition pb_dec_submessage :: "'s dec_env \<Rightarrow> 's msg_decoder \<Rightarrow> 's msg_decoder \<Rightarrow> 's decoder" where
  "pb_dec_submessage env init noinit field dest s h =
    (case pb_make_string_substream s of
       (None, s) \<Rightarrow> Some (False, s, h)
     | (Some substream, s) \<Rightarrow>
         if f_ptr field = 0 then d_fail ''invalid field descriptor'' s h
         else do {
           fs \<leftarrow> fields_at (d_fields env) (f_ptr field);
           (status, substream, h) \<leftarrow>
             (if htype field = PB_HTYPE_REPEATED then init fs dest substream h else noinit fs dest substream h);
           wire_then (pb_close_string_substream s substream) h (\<lambda>_ s h. Some (status, s, h))
         })"

definition PB_DECODERS :: "'s dec_env \<Rightarrow> 's msg_decoder \<Rightarrow> 's msg_decoder \<Rightarrow> u8 \<Rightarrow> 's decoder option" where
  "PB_DECODERS env init noinit t =
    (if t = PB_LTYPE_BOOL then Some pb_dec_bool
     else if t = PB_LTYPE_VARINT then Some pb_dec_varint
     else if t = PB_LTYPE_UVARINT then Some pb_dec_uvarint
     else if t = PB_LTYPE_SVARINT then Some pb_dec_svarint
     else if t = PB_LTYPE_FIXED32 then Some pb_dec_fixed32
     else if t = PB_LTYPE_FIXED64 then Some pb_dec_fixed64
     else if t = PB_LTYPE_BYTES then Some (pb_dec_bytes env)
     else if t = PB_LTYPE_STRING then Some (pb_dec_string env)
     else if t = PB_LTYPE_SUBMESSAGE then Some (pb_dec_submessage env init noinit)
     else if t = PB_LTYPE_EXTENSION then Some (\<lambda>field dest s h. None)
     else if t = PB_LTYPE_FIXED_LENGTH_BYTES then Some pb_dec_fixed_length_bytes
     else None)"

end
