(* ===== verification/NanopbRelease.thy ===== *)
theory NanopbRelease
  imports NanopbDecode
begin

text \<open>
  The walks of \<open>pb_decode.c\<close> over a message in memory: setting its fields to their defaults, and
  releasing what it owns. Both recurse into the messages inside and along the lists of extensions; the
  recursion is closed with fuel.
\<close>

section \<open>Walking over the fields\<close>

function each_field :: "(pb_field_iter \<Rightarrow> heap \<Rightarrow> heap option) \<Rightarrow> pb_field_iter \<Rightarrow> heap \<Rightarrow> heap option" where
  "each_field f it h =
    (case f it h of
       None \<Rightarrow> None
     | Some h \<Rightarrow>
         (case pb_field_iter_next it of
            (True, it) \<Rightarrow> each_field f it h
          | (False, _) \<Rightarrow> Some h))"
  by pat_completeness auto
termination
  by (relation "measure (\<lambda>(f, it, h). length (it_start it) - it_pos it)") (auto dest: iter_next_measure)

declare each_field.simps [simp del]

text \<open>\<open>if (!pb_field_iter_begin(...)) return; do f(&iter); while (pb_field_iter_next(&iter));\<close>\<close>

definition for_fields :: "(pb_field_iter \<Rightarrow> heap \<Rightarrow> heap option) \<Rightarrow> pb_field list \<Rightarrow> addr \<Rightarrow> heap \<Rightarrow> heap option" where
  "for_fields f fs dest h =
    (case pb_field_iter_begin fs dest of (False, _) \<Rightarrow> Some h | (True, it) \<Rightarrow> each_field f it h)"

text \<open>The iterator for an extension: \<open>pb_extension_t\<close> has \<open>dest\<close> at offset 8 and \<open>found\<close> at 24.\<close>

definition iter_from_extension :: "desc_table \<Rightarrow> heap \<Rightarrow> addr \<Rightarrow> pb_field_iter option" where
  "iter_from_extension D h extension =
    do {
      typ \<leftarrow> h_ptr h extension;
      arg \<leftarrow> h_ptr h (typ + 16);
      fs \<leftarrow> fields_at D arg;
      dest \<leftarrow> h_ptr h (extension + 8);
      let it = (snd (pb_field_iter_begin fs dest))\<lparr>pData := dest, pSize := At (extension + 24)\<rparr>;
      Some (if atype (field_at fs 0) = PB_ATYPE_POINTER then it\<lparr>pData := extension + 8\<rparr> else it)
    }"

text \<open>The list of extensions: \<open>f\<close> on each, then \<open>ext = ext->next\<close>.\<close>

fun each_extension :: "nat \<Rightarrow> (addr \<Rightarrow> heap \<Rightarrow> heap option) \<Rightarrow> addr \<Rightarrow> heap \<Rightarrow> heap option" where
  "each_extension 0 f ext h = None"
| "each_extension (Suc k) f ext h =
    (if ext = 0 then Some h
     else do { h \<leftarrow> f ext h; ext \<leftarrow> h_ptr h (ext + 16); each_extension k f ext h })"

text \<open>Access through \<open>pSize\<close>, which may be the decoder's own variable.\<close>

fun load_ref :: "heap \<Rightarrow> size_ref \<Rightarrow> u32 option" where
  "load_ref h (At p) = h_size h p"
| "load_ref h (Fixed_count c) = Some c"

fun store_ref :: "pb_field_iter \<Rightarrow> heap \<Rightarrow> u32 \<Rightarrow> (pb_field_iter \<times> heap) option" where
  "store_ref it h v =
    (case pSize it of
       At p \<Rightarrow> map_option (\<lambda>h. (it, h)) (h_store_word h p 4 v)
     | Fixed_count c \<Rightarrow> Some (it\<lparr>pSize := Fixed_count v\<rparr>, h))"

fun store_flag :: "pb_field_iter \<Rightarrow> heap \<Rightarrow> bool \<Rightarrow> heap option" where
  "store_flag it h b =
    (case pSize it of At p \<Rightarrow> h_store h p [if b then 1 else 0] | Fixed_count c \<Rightarrow> None)"

definition store_size :: "pb_field_iter \<Rightarrow> heap \<Rightarrow> u32 \<Rightarrow> heap option" where
  "store_size it h v = map_option snd (store_ref it h v)"

section \<open>Defaults\<close>

definition set_default_body ::
  "nat \<Rightarrow> desc_table \<Rightarrow> (pb_field_iter \<Rightarrow> heap \<Rightarrow> heap option) \<Rightarrow> pb_field_iter \<Rightarrow> heap \<Rightarrow> heap option" where
  "set_default_body n D single it h =
    (let field = cur it in
     if ltype field = PB_LTYPE_EXTENSION then
       do { ext \<leftarrow> h_ptr h (pData it);
            each_extension (Suc n)
              (\<lambda>ext h. do {
                 h \<leftarrow> h_store h (ext + 24) [0];
                 ext_iter \<leftarrow> iter_from_extension D h ext;
                 single ext_iter h })
              ext h }
     else if atype field = PB_ATYPE_STATIC then
       do {
         (init_data, h) \<leftarrow>
           (if htype field = PB_HTYPE_OPTIONAL \<and> pSize it \<noteq> At (pData it) then
              map_option (\<lambda>h. (True, h)) (store_flag it h False)
            else if htype field = PB_HTYPE_REPEATED \<or> htype field = PB_HTYPE_ONEOF then
              map_option (\<lambda>h. (False, h)) (store_size it h 0)
            else Some (True, h));
         if init_data then
           (if ltype field = PB_LTYPE_SUBMESSAGE then
              do { fs \<leftarrow> fields_at D (f_ptr field); for_fields single fs (pData it) h }
            else if f_ptr field \<noteq> 0 then
              do { bs \<leftarrow> load_bytes (h_mem h) (f_ptr field) (unat (f_data_size field)); h_store h (pData it) bs }
            else h_store h (pData it) (replicate (unat (f_data_size field)) 0))
         else Some h
       }
     else if atype field = PB_ATYPE_POINTER then
       do {
         h \<leftarrow> h_store_word h (pData it) 8 (0 :: addr);
         if htype field = PB_HTYPE_REPEATED \<or> htype field = PB_HTYPE_ONEOF then store_size it h 0 else Some h
       }
     else Some h)"

fun pb_field_set_to_default :: "nat \<Rightarrow> desc_table \<Rightarrow> pb_field_iter \<Rightarrow> heap \<Rightarrow> heap option" where
  "pb_field_set_to_default 0 D it h = None"
| "pb_field_set_to_default (Suc n) D it h = set_default_body n D (pb_field_set_to_default n D) it h"

definition pb_message_set_to_defaults :: "'s dec_env \<Rightarrow> pb_field list \<Rightarrow> addr \<Rightarrow> heap \<Rightarrow> heap option" where
  "pb_message_set_to_defaults env fs dest h =
    for_fields (pb_field_set_to_default (d_depth env) (d_fields env)) fs dest h"

section \<open>Release\<close>

text \<open>\<open>pb_release\<close>, given how a field is released.\<close>

definition release_message ::
  "(pb_field_iter \<Rightarrow> heap \<Rightarrow> heap option) \<Rightarrow> pb_field list \<Rightarrow> addr \<Rightarrow> heap \<Rightarrow> heap option" where
  "release_message single fs dest h = (if dest = 0 then Some h else for_fields single fs dest h)"

text \<open>The loops over \<open>count\<close> messages, and over \<open>count\<close> pointers that are freed and cleared.\<close>

fun release_items :: "(addr \<Rightarrow> heap \<Rightarrow> heap option) \<Rightarrow> addr \<Rightarrow> nat \<Rightarrow> addr \<Rightarrow> heap \<Rightarrow> heap option" where
  "release_items rel width 0 p h = Some h"
| "release_items rel width (Suc count) p h = do { h \<leftarrow> rel p h; release_items rel width count (p + width) h }"

definition free_pointer :: "addr \<Rightarrow> heap \<Rightarrow> heap option" where
  "free_pointer p h = do { q \<leftarrow> h_ptr h p; h \<leftarrow> pb_free h q; h_store_word h p 8 (0 :: addr) }"

definition release_contents ::
  "nat \<Rightarrow> desc_table \<Rightarrow> (pb_field_iter \<Rightarrow> heap \<Rightarrow> heap option) \<Rightarrow> pb_field_iter \<Rightarrow> heap \<Rightarrow> heap option" where
  "release_contents n D single it h =
    (let field = cur it in
     if ltype field = PB_LTYPE_EXTENSION then
       do { ext \<leftarrow> h_ptr h (pData it);
            each_extension (Suc n) (\<lambda>ext h. do { ext_iter \<leftarrow> iter_from_extension D h ext; single ext_iter h }) ext h }
     else if ltype field = PB_LTYPE_SUBMESSAGE \<and> atype field \<noteq> PB_ATYPE_CALLBACK then
       do {
         item \<leftarrow> (if atype field = PB_ATYPE_POINTER then h_ptr h (pData it) else Some (pData it));
         count \<leftarrow>
           (if htype field = PB_HTYPE_REPEATED then
              do { count \<leftarrow> (if atype field = PB_ATYPE_STATIC \<and> pSize it = At (pData it) then Some (f_array_size field)
                            else load_ref h (pSize it));
                   Some (if atype field = PB_ATYPE_STATIC \<and> count > f_array_size field then f_array_size field else count) }
            else Some 1);
         if item \<noteq> 0 \<and> count > 0 then
           do { fs \<leftarrow> fields_at D (f_ptr field);
                release_items (release_message single fs) (data_size field) (unat count) item h }
         else Some h
       }
     else Some h)"

definition release_body ::
  "nat \<Rightarrow> desc_table \<Rightarrow> (pb_field_iter \<Rightarrow> heap \<Rightarrow> heap option) \<Rightarrow> pb_field_iter \<Rightarrow> heap \<Rightarrow> heap option" where
  "release_body n D single it h =
    (let field = cur it in
     do {
       current \<leftarrow> (if htype field = PB_HTYPE_ONEOF then map_option (\<lambda>w. w = f_tag field) (load_ref h (pSize it)) else Some True);
       if \<not> current then Some h
       else do {
         h \<leftarrow> release_contents n D single it h;
         if atype field = PB_ATYPE_POINTER then
           do {
             h \<leftarrow> (if htype field = PB_HTYPE_REPEATED \<and> (ltype field = PB_LTYPE_STRING \<or> ltype field = PB_LTYPE_BYTES) then
                     do { item \<leftarrow> h_ptr h (pData it);
                          count \<leftarrow> load_ref h (pSize it);
                          release_items free_pointer 8 (unat count) item h }
                   else Some h);
             h \<leftarrow> (if htype field = PB_HTYPE_REPEATED then store_size it h 0 else Some h);
             free_pointer (pData it) h
           }
         else Some h
       }
     })"

fun pb_release_single_field :: "nat \<Rightarrow> desc_table \<Rightarrow> pb_field_iter \<Rightarrow> heap \<Rightarrow> heap option" where
  "pb_release_single_field 0 D it h = None"
| "pb_release_single_field (Suc n) D it h = release_body n D (pb_release_single_field n D) it h"

definition pb_release :: "'s dec_env \<Rightarrow> pb_field list \<Rightarrow> addr \<Rightarrow> heap \<Rightarrow> heap option" where
  "pb_release env fs dest h = release_message (pb_release_single_field (d_depth env) (d_fields env)) fs dest h"

end
