(* ===== verification/NanopbDecodeMsg.thy ===== *)
theory NanopbDecodeMsg
  imports NanopbRelease
begin

text \<open>
  Decoding of fields and messages: the functions of \<open>pb_decode.c\<close> from
  \<open>decode_static_field\<close> to \<open>pb_decode_delimited\<close>. The decoder of a field may change the
  iterator, so the iterator is part of its result.
\<close>

section \<open>Fields\<close>

type_synonym 's fres = "(bool \<times> 's pb_istream \<times> heap \<times> pb_field_iter) option"

definition f_fail :: "string \<Rightarrow> 's pb_istream \<Rightarrow> heap \<Rightarrow> pb_field_iter \<Rightarrow> 's fres" where
  "f_fail msg s h it = Some (False, i_set_error msg s, h, it)"

definition with_iter :: "pb_field_iter \<Rightarrow> 's dres \<Rightarrow> 's fres" where
  "with_iter it r = map_option (\<lambda>(ok, s, h). (ok, s, h, it)) r"

text \<open>The place of an array entry: \<open>data_size * (*size)\<close> is computed in 32 bits.\<close>

definition item_offset :: "pb_field \<Rightarrow> u32 \<Rightarrow> addr" where
  "item_offset field n = to_u64 (f_data_size field * n)"

text \<open>
  The loop over a packed static array: the status, the substream, the heap and the iterator. Every entry
  takes a byte at least, so the number of bytes of the substream bounds the number of rounds.
\<close>

fun packed_static_loop :: "nat \<Rightarrow> 's decoder \<Rightarrow> pb_field_iter \<Rightarrow> 's pb_istream \<Rightarrow> heap \<Rightarrow> 's fres" where
  "packed_static_loop k func it sub h =
    do {
      n \<leftarrow> load_ref h (pSize it);
      if bytes_left sub > 0 \<and> n < f_array_size (cur it) then
        (case k of
           0 \<Rightarrow> None
         | Suc k \<Rightarrow>
             do {
               (ok, sub, h) \<leftarrow> func (cur it) (pData it + item_offset (cur it) n) sub h;
               if \<not> ok then Some (False, sub, h, it)
               else do {
                 n \<leftarrow> load_ref h (pSize it);
                 (it, h) \<leftarrow> store_ref it h (n + 1);
                 packed_static_loop k func it sub h
               }
             })
      else Some (True, sub, h, it)
    }"

declare packed_static_loop.simps [simp del]

definition decode_packed_static :: "'s decoder \<Rightarrow> 's pb_istream \<Rightarrow> heap \<Rightarrow> pb_field_iter \<Rightarrow> 's fres" where
  "decode_packed_static func s h it =
    (case pb_make_string_substream s of
       (None, s) \<Rightarrow> Some (False, s, h, it)
     | (Some sub, s) \<Rightarrow>
         do {
           (status, sub, h, it) \<leftarrow> packed_static_loop (unat (bytes_left sub)) func it sub h;
           if bytes_left sub \<noteq> 0 then f_fail ''array overflow'' s h it
           else
             case pb_close_string_substream s sub of
               (None, s) \<Rightarrow> Some (False, s, h, it)
             | (Some _, s) \<Rightarrow> Some (status, s, h, it)
         })"

definition decode_static_field ::
  "'s dec_env \<Rightarrow> (u8 \<Rightarrow> 's decoder option) \<Rightarrow> pb_wire_type_t \<Rightarrow> 's pb_istream \<Rightarrow> heap \<Rightarrow> pb_field_iter \<Rightarrow> 's fres" where
  "decode_static_field env decoders wire_type s h it =
    do {
      let field = cur it;
      func \<leftarrow> decoders (ltype field);
      if htype field = PB_HTYPE_REQUIRED then with_iter it (func field (pData it) s h)
      else if htype field = PB_HTYPE_OPTIONAL then
        do { h \<leftarrow> (if pSize it \<noteq> At (pData it) then store_flag it h True else Some h);
             with_iter it (func field (pData it) s h) }
      else if htype field = PB_HTYPE_REPEATED then
        (if wire_type = PB_WT_STRING \<and> ltype field \<le> PB_LTYPE_LAST_PACKABLE then decode_packed_static func s h it
         else do {
           n \<leftarrow> load_ref h (pSize it);
           (it, h) \<leftarrow> store_ref it h (n + 1);
           if n \<ge> f_array_size field then f_fail ''array overflow'' s h it
           else with_iter it (func field (pData it + item_offset field n) s h)
         })
      else if htype field = PB_HTYPE_ONEOF then
        do {
          which \<leftarrow> load_ref h (pSize it);
          h \<leftarrow> (if ltype field = PB_LTYPE_SUBMESSAGE \<and> which \<noteq> f_tag field then
                  do { h \<leftarrow> h_store h (pData it) (replicate (unat (f_data_size field)) 0);
                       fs \<leftarrow> fields_at (d_fields env) (f_ptr field);
                       pb_message_set_to_defaults env fs (pData it) h }
                else Some h);
          (it, h) \<leftarrow> store_ref it h (f_tag field);
          with_iter it (func field (pData it) s h)
        }
      else f_fail ''invalid field type'' s h it
    }"

definition initialize_pointer_field :: "'s dec_env \<Rightarrow> addr \<Rightarrow> pb_field_iter \<Rightarrow> heap \<Rightarrow> heap option" where
  "initialize_pointer_field env item it h =
    (let field = cur it in
     if ltype field = PB_LTYPE_STRING \<or> ltype field = PB_LTYPE_BYTES then h_store_word h item 8 (0 :: addr)
     else if ltype field = PB_LTYPE_SUBMESSAGE then
       do { h \<leftarrow> h_store h item (replicate (unat (f_data_size field)) 0);
            fs \<leftarrow> fields_at (d_fields env) (f_ptr field);
            pb_message_set_to_defaults env fs item h }
     else Some h)"

text \<open>
  The loop over a packed array on the heap. The status also carries the error that is set on the parent
  stream instead of on the substream.
\<close>

fun packed_pointer_loop ::
  "nat \<Rightarrow> 's dec_env \<Rightarrow> 's decoder \<Rightarrow> pb_field_iter \<Rightarrow> u64 \<Rightarrow> 's pb_istream \<Rightarrow> heap \<Rightarrow>
    ((bool \<times> string option) \<times> 's pb_istream \<times> heap \<times> pb_field_iter) option" where
  "packed_pointer_loop k env func it allocated_size sub h =
    (let field = cur it in
     if bytes_left sub = 0 then Some ((True, None), sub, h, it)
     else
       case k of
         0 \<Rightarrow> None
       | Suc k \<Rightarrow>
           do {
             n \<leftarrow> load_ref h (pSize it);
             if n = PB_SIZE_MAX then Some ((False, Some ''too many array entries''), sub, h, it)
             else do {
               let remain = (bytes_left sub - 1) div data_size field + 1;
               let allocated_size' =
                 (if to_u64 n + 1 > allocated_size then
                    (if remain < to_u64 PB_SIZE_MAX - allocated_size then allocated_size + remain else allocated_size + 1)
                  else allocated_size);
               (ok, sub, h) \<leftarrow>
                 (if to_u64 n + 1 > allocated_size then
                    (if f_data_size field = 0 then None else allocate_field env (pData it) (data_size field) allocated_size' sub h)
                  else Some (True, sub, h));
               if \<not> ok then Some ((False, None), sub, h, it)
               else do {
                 array \<leftarrow> h_ptr h (pData it);
                 n \<leftarrow> load_ref h (pSize it);
                 let item = array + item_offset field n;
                 if item = 0 then Some ((False, None), sub, h, it)
                 else do {
                   h \<leftarrow> initialize_pointer_field env item it h;
                   (ok, sub, h) \<leftarrow> func field item sub h;
                   if \<not> ok then Some ((False, None), sub, h, it)
                   else do {
                     n \<leftarrow> load_ref h (pSize it);
                     (it, h) \<leftarrow> store_ref it h (n + 1);
                     packed_pointer_loop k env func it allocated_size' sub h
                   }
                 }
               }
             }
           })"

declare packed_pointer_loop.simps [simp del]

definition decode_packed_pointer :: "'s dec_env \<Rightarrow> 's decoder \<Rightarrow> 's pb_istream \<Rightarrow> heap \<Rightarrow> pb_field_iter \<Rightarrow> 's fres" where
  "decode_packed_pointer env func s h it =
    do {
      n \<leftarrow> load_ref h (pSize it);
      case pb_make_string_substream s of
        (None, s) \<Rightarrow> Some (False, s, h, it)
      | (Some sub, s) \<Rightarrow>
          do {
            ((status, err), sub, h, it) \<leftarrow> packed_pointer_loop (unat (bytes_left sub)) env func it (to_u64 n) sub h;
            let s = (case err of None \<Rightarrow> s | Some e \<Rightarrow> s\<lparr>i_errmsg := Some e\<rparr>);
            case pb_close_string_substream s sub of
              (None, s) \<Rightarrow> Some (False, s, h, it)
            | (Some _, s) \<Rightarrow> Some (status, s, h, it)
          }
    }"

definition decode_pointer_field ::
  "'s dec_env \<Rightarrow> (u8 \<Rightarrow> 's decoder option) \<Rightarrow> pb_wire_type_t \<Rightarrow> 's pb_istream \<Rightarrow> heap \<Rightarrow> pb_field_iter \<Rightarrow> 's fres" where
  "decode_pointer_field env decoders wire_type s h it =
    do {
      let field = cur it;
      let string_or_bytes = (ltype field = PB_LTYPE_STRING \<or> ltype field = PB_LTYPE_BYTES);
      func \<leftarrow> decoders (ltype field);
      if htype field = PB_HTYPE_REQUIRED \<or> htype field = PB_HTYPE_OPTIONAL \<or> htype field = PB_HTYPE_ONEOF then
        do {
          old \<leftarrow> (if ltype field = PB_LTYPE_SUBMESSAGE then h_ptr h (pData it) else Some 0);
          h \<leftarrow> (if ltype field = PB_LTYPE_SUBMESSAGE \<and> old \<noteq> 0 then
                  pb_release_single_field (d_depth env) (d_fields env) it h else Some h);
          (it, h) \<leftarrow> (if htype field = PB_HTYPE_ONEOF then store_ref it h (f_tag field) else Some (it, h));
          if string_or_bytes then with_iter it (func field (pData it) s h)
          else do {
            (ok, s, h) \<leftarrow> allocate_field env (pData it) (data_size field) 1 s h;
            if \<not> ok then Some (False, s, h, it)
            else do {
              item \<leftarrow> h_ptr h (pData it);
              h \<leftarrow> initialize_pointer_field env item it h;
              item \<leftarrow> h_ptr h (pData it);
              with_iter it (func field item s h)
            }
          }
        }
      else if htype field = PB_HTYPE_REPEATED then
        (if wire_type = PB_WT_STRING \<and> ltype field \<le> PB_LTYPE_LAST_PACKABLE then decode_packed_pointer env func s h it
         else do {
           n \<leftarrow> load_ref h (pSize it);
           if n = PB_SIZE_MAX then f_fail ''too many array entries'' s h it
           else do {
             (ok, s, h) \<leftarrow> allocate_field env (pData it) (data_size field) (to_u64 (n + 1)) s h;
             if \<not> ok then Some (False, s, h, it)
             else do {
               array \<leftarrow> h_ptr h (pData it);
               n \<leftarrow> load_ref h (pSize it);
               let item = array + item_offset field n;
               (it, h) \<leftarrow> store_ref it h (n + 1);
               h \<leftarrow> initialize_pointer_field env item it h;
               with_iter it (func field item s h)
             }
           }
         })
      else f_fail ''invalid field type'' s h it
    }"

text \<open>
  A stream over a local buffer, with the bytes \<open>bs\<close> in it (\<open>pb_istream_from_buffer\<close>).
\<close>

definition local_istream :: "'s \<Rightarrow> u8 list \<Rightarrow> 's pb_istream" where
  "local_istream st bs =
    \<lparr>i_callback = Buf_read, i_ptr = bs, i_state = st, bytes_left = word_of_nat (length bs), i_errmsg = None, i_fault = False\<rparr>"

text \<open>The callback is called until it has read everything; one that reads nothing makes the code loop.\<close>

fun callback_loop :: "nat \<Rightarrow> 's dstep \<Rightarrow> 's pb_istream \<Rightarrow> heap \<Rightarrow> 's dres" where
  "callback_loop 0 f sub h = None"
| "callback_loop (Suc k) f sub h =
    do { (ok, sub, h) \<leftarrow> f sub h;
         if \<not> ok then Some (False, sub, h)
         else if bytes_left sub \<noteq> 0 then callback_loop k f sub h
         else Some (True, sub, h) }"

definition decode_callback_field ::
  "'s dec_env \<Rightarrow> pb_wire_type_t \<Rightarrow> 's pb_istream \<Rightarrow> heap \<Rightarrow> pb_field_iter \<Rightarrow> 's fres" where
  "decode_callback_field env wire_type s h it =
    do {
      decode \<leftarrow> (if pData it = 0 then Some 0 else h_ptr h (pData it));
      if decode = 0 then with_iter it (wire_then (pb_skip_field s wire_type) h (\<lambda>_ s h. Some (True, s, h)))
      else
        let f = d_decode env decode (cur it) (pData it + 8) in
        if wire_type = PB_WT_STRING then
          (case pb_make_string_substream s of
             (None, s) \<Rightarrow> Some (False, s, h, it)
           | (Some sub, s) \<Rightarrow>
               do {
                 (ok, sub, h) \<leftarrow> callback_loop (Suc (unat (bytes_left sub))) f sub h;
                 if \<not> ok then f_fail ''callback failed'' s h it
                 else with_iter it (wire_then (pb_close_string_substream s sub) h (\<lambda>_ s h. Some (True, s, h)))
               })
        else
          (case read_raw_value s wire_type 10 of
             (None, s) \<Rightarrow> Some (False, s, h, it)
           | (Some bs, s) \<Rightarrow>
               do { (ok, _, h) \<leftarrow> f (local_istream (i_state s) bs) h; Some (ok, s, h, it) })
    }"

definition pb_release_union_field :: "'s dec_env \<Rightarrow> 's pb_istream \<Rightarrow> heap \<Rightarrow> pb_field_iter \<Rightarrow> 's fres" where
  "pb_release_union_field env s h it =
    do {
      old_tag \<leftarrow> load_ref h (pSize it);
      let new_tag = f_tag (cur it);
      if old_tag = 0 \<or> old_tag = new_tag then Some (True, s, h, it)
      else
        case pb_field_iter_find it old_tag of
          (False, it) \<Rightarrow> f_fail ''invalid union tag'' s h it
        | (True, it) \<Rightarrow>
            do {
              h \<leftarrow> pb_release_single_field (d_depth env) (d_fields env) it h;
              case pb_field_iter_find it new_tag of
                (False, it) \<Rightarrow> f_fail ''iterator error'' s h it
              | (True, it) \<Rightarrow>
                  do { h \<leftarrow> (if atype (cur it) = PB_ATYPE_POINTER then h_store_word h (pData it) 8 (0 :: addr) else Some h);
                       Some (True, s, h, it) }
            }
    }"

definition decode_field ::
  "'s dec_env \<Rightarrow> (u8 \<Rightarrow> 's decoder option) \<Rightarrow> pb_wire_type_t \<Rightarrow> 's pb_istream \<Rightarrow> heap \<Rightarrow> pb_field_iter \<Rightarrow> 's fres" where
  "decode_field env decoders wire_type s h it =
    do {
      (ok, s, h, it) \<leftarrow>
        (if htype (cur it) = PB_HTYPE_ONEOF then pb_release_union_field env s h it else Some (True, s, h, it));
      if \<not> ok then Some (False, s, h, it)
      else if atype (cur it) = PB_ATYPE_STATIC then decode_static_field env decoders wire_type s h it
      else if atype (cur it) = PB_ATYPE_POINTER then decode_pointer_field env decoders wire_type s h it
      else if atype (cur it) = PB_ATYPE_CALLBACK then decode_callback_field env wire_type s h it
      else f_fail ''invalid field type'' s h it
    }"

section \<open>Extensions\<close>

definition default_extension_decoder ::
  "'s dec_env \<Rightarrow> (u8 \<Rightarrow> 's decoder option) \<Rightarrow> addr \<Rightarrow> u32 \<Rightarrow> pb_wire_type_t \<Rightarrow> 's dstep" where
  "default_extension_decoder env decoders extension tag wire_type s h =
    do {
      typ \<leftarrow> h_ptr h extension;
      arg \<leftarrow> h_ptr h (typ + 16);
      fs \<leftarrow> fields_at (d_fields env) arg;
      if f_tag (field_at fs 0) \<noteq> tag then Some (True, s, h)
      else do {
        it \<leftarrow> iter_from_extension (d_fields env) h extension;
        h \<leftarrow> h_store h (extension + 24) [1];
        map_option (\<lambda>(ok, s, h, it). (ok, s, h)) (decode_field env decoders wire_type s h it)
      }
    }"

fun decode_extensions ::
  "nat \<Rightarrow> 's dec_env \<Rightarrow> (u8 \<Rightarrow> 's decoder option) \<Rightarrow> u32 \<Rightarrow> pb_wire_type_t \<Rightarrow> u64 \<Rightarrow> addr \<Rightarrow> 's dstep" where
  "decode_extensions 0 env decoders tag wire_type pos extension s h = None"
| "decode_extensions (Suc k) env decoders tag wire_type pos extension s h =
    (if extension \<noteq> 0 \<and> pos = bytes_left s then
       do {
         typ \<leftarrow> h_ptr h extension;
         decode \<leftarrow> h_ptr h typ;
         dec_then
           (if decode \<noteq> 0 then d_extension env decode extension tag wire_type s h
            else default_extension_decoder env decoders extension tag wire_type s h)
           (\<lambda>s h. do { after \<leftarrow> h_ptr h (extension + 16); decode_extensions k env decoders tag wire_type pos after s h })
       }
     else Some (True, s, h))"

definition decode_extension ::
  "'s dec_env \<Rightarrow> (u8 \<Rightarrow> 's decoder option) \<Rightarrow> u32 \<Rightarrow> pb_wire_type_t \<Rightarrow> pb_field_iter \<Rightarrow> 's dstep" where
  "decode_extension env decoders tag wire_type it s h =
    do { extension \<leftarrow> h_ptr h (pData it);
         decode_extensions (Suc (d_depth env)) env decoders tag wire_type (bytes_left s) extension s h }"

definition find_extension_field :: "pb_field_iter \<Rightarrow> bool \<times> pb_field_iter" where
  "find_extension_field it =
    iter_find_loop (length (it_start it)) (it_pos it) (\<lambda>f. ltype f = PB_LTYPE_EXTENSION) it"

section \<open>Messages\<close>

text \<open>
  The local variables of \<open>pb_decode_noinit\<close>; \<open>fixed_count_field\<close> is a position in the array of
  descriptors. While the iterator points at \<open>fixed_count_size\<close>, its value is in the iterator too.
\<close>

record decoding =
  fields_seen :: "u32 list"
  extension_range_start :: u32
  fixed_count_field :: "nat option"
  fixed_count_size :: u32
  iter :: pb_field_iter

definition fixed_count_wrong :: "decoding \<Rightarrow> bool" where
  "fixed_count_wrong d =
    (case fixed_count_field d of
       None \<Rightarrow> False
     | Some pos \<Rightarrow> fixed_count_size d \<noteq> f_array_size (field_at (it_start (iter d)) pos))"

text \<open>Before a field is decoded: the size of a fixed count field, and the bit of a required field.
  \<open>None\<close> is the error.\<close>

definition enter_fixed_count :: "decoding \<Rightarrow> decoding option" where
  "enter_fixed_count d =
    (let it = iter d in
     if htype (cur it) = PB_HTYPE_REPEATED \<and> pSize it = At (pData it) then
       (if fixed_count_field d \<noteq> Some (it_pos it) then
          (if fixed_count_wrong d then None
           else Some (d\<lparr>fixed_count_field := Some (it_pos it), fixed_count_size := 0, iter := it\<lparr>pSize := Fixed_count 0\<rparr>\<rparr>))
        else Some (d\<lparr>iter := it\<lparr>pSize := Fixed_count (fixed_count_size d)\<rparr>\<rparr>))
     else Some d)"

definition mark_required :: "decoding \<Rightarrow> decoding" where
  "mark_required d =
    (let i = required_field_index (iter d) in
     if htype (cur (iter d)) = PB_HTYPE_REQUIRED \<and> i < 64 then
       d\<lparr>fields_seen := (fields_seen d)[i div 32 := fields_seen d ! (i div 32) OR push_bit (i mod 32) 1]\<rparr>
     else d)"

definition leave_field :: "pb_field_iter \<Rightarrow> decoding \<Rightarrow> decoding" where
  "leave_field it d =
    d\<lparr>iter := it, fixed_count_size := (case pSize it of Fixed_count c \<Rightarrow> c | At _ \<Rightarrow> fixed_count_size d)\<rparr>"

text \<open>The loop over the fields of the input. Its result is the error status and, without error, the local
  variables; a round takes a byte at least.\<close>

fun decode_loop ::
  "nat \<Rightarrow> 's dec_env \<Rightarrow> (u8 \<Rightarrow> 's decoder option) \<Rightarrow> decoding \<Rightarrow> 's pb_istream \<Rightarrow> heap \<Rightarrow>
    (decoding option \<times> 's pb_istream \<times> heap) option" where
  "decode_loop k env decoders d s h =
    (if bytes_left s = 0 then Some (Some d, s, h)
     else
       case k of
         0 \<Rightarrow> None
       | Suc k \<Rightarrow>
           (case pb_decode_tag s of
              (None, eof, s) \<Rightarrow> Some (if eof then Some d else None, s, h)
            | (Some (wire_type, tag), _, s) \<Rightarrow>
                (case pb_field_iter_find (iter d) tag of
                   (False, it) \<Rightarrow>
                     let d = d\<lparr>iter := it\<rparr>;
                         skip = (\<lambda>d s h.
                           case pb_skip_field s wire_type of
                             (None, s) \<Rightarrow> Some (None, s, h)
                           | (Some _, s) \<Rightarrow> decode_loop k env decoders d s h) in
                     if tag \<ge> extension_range_start d then
                       (case find_extension_field (iter d) of
                          (found, it) \<Rightarrow>
                            let d = d\<lparr>iter := it, extension_range_start := (if found then f_tag (cur it) else - 1)\<rparr> in
                            if tag \<ge> extension_range_start d then
                              (case decode_extension env decoders tag wire_type it s h of
                                 None \<Rightarrow> None
                               | Some (ok, s', h) \<Rightarrow>
                                   if \<not> ok then Some (None, s', h)
                                   else if bytes_left s \<noteq> bytes_left s' then decode_loop k env decoders d s' h
                                   else skip d s' h)
                            else skip d s h)
                     else skip d s h
                 | (True, it) \<Rightarrow>
                     (case enter_fixed_count (d\<lparr>iter := it\<rparr>) of
                        None \<Rightarrow> Some (None, i_set_error ''wrong size for fixed count field'' s, h)
                      | Some d \<Rightarrow>
                          let d = mark_required d in
                          (case decode_field env decoders wire_type s h (iter d) of
                             None \<Rightarrow> None
                           | Some (ok, s, h, it) \<Rightarrow>
                               if \<not> ok then Some (None, s, h)
                               else decode_loop k env decoders (leave_field it d) s h)))))"

declare decode_loop.simps [simp del]

text \<open>Seeking to the end of the fields: the index and the type of the last one, and the iterator.\<close>

function seek_end :: "pb_field_iter \<Rightarrow> nat \<times> u8 \<times> pb_field_iter" where
  "seek_end it =
    (case pb_field_iter_next it of
       (True, it') \<Rightarrow> seek_end it'
     | (False, it') \<Rightarrow> (required_field_index it, f_type (cur it), it'))"
  by pat_completeness auto
termination
  by (relation "measure (\<lambda>it. length (it_start it) - it_pos it)") (auto dest: iter_next_measure)

declare seek_end.simps [simp del]

definition required_field_count :: "pb_field_iter \<Rightarrow> nat" where
  "required_field_count it =
    (case seek_end it of
       (n, last_type, it) \<Rightarrow>
         min 64 (if PB_HTYPE last_type = PB_HTYPE_REQUIRED \<and> f_tag (cur it) \<noteq> 0 then n + 1 else n))"

definition required_fields_missing :: "u32 list \<Rightarrow> nat \<Rightarrow> bool" where
  "required_fields_missing seen n \<longleftrightarrow>
    (\<exists>i<n div 32. seen ! i \<noteq> - 1) \<or> (n mod 32 \<noteq> 0 \<and> seen ! (n div 32) \<noteq> drop_bit (32 - n mod 32) (- 1))"

definition decode_message :: "'s dec_env \<Rightarrow> (u8 \<Rightarrow> 's decoder option) \<Rightarrow> 's msg_decoder" where
  "decode_message env decoders fs dest s h =
    (let d = \<lparr>fields_seen = [0, 0], extension_range_start = 0, fixed_count_field = None, fixed_count_size = 0,
              iter = snd (pb_field_iter_begin fs dest)\<rparr> in
     case decode_loop (unat (bytes_left s)) env decoders d s h of
       None \<Rightarrow> None
     | Some (None, s, h) \<Rightarrow> Some (False, s, h)
     | Some (Some d, s, h) \<Rightarrow>
         if fixed_count_wrong d then d_fail ''wrong size for fixed count field'' s h
         else if required_fields_missing (fields_seen d) (required_field_count (iter d)) then
           d_fail ''missing required field'' s h
         else Some (True, s, h))"

text \<open>\<open>pb_decode\<close>, given \<open>pb_decode_noinit\<close>.\<close>

definition init_and_decode :: "'s dec_env \<Rightarrow> 's msg_decoder \<Rightarrow> 's msg_decoder" where
  "init_and_decode env noinit fs dest s h =
    do {
      h \<leftarrow> pb_message_set_to_defaults env fs dest h;
      (status, s, h) \<leftarrow> noinit fs dest s h;
      h \<leftarrow> (if status then Some h else pb_release env fs dest h);
      Some (status, s, h)
    }"

fun pb_decode_noinit :: "nat \<Rightarrow> 's dec_env \<Rightarrow> 's msg_decoder" where
  "pb_decode_noinit 0 env fs dest s h = None"
| "pb_decode_noinit (Suc n) env fs dest s h =
    decode_message env
      (PB_DECODERS env (init_and_decode env (pb_decode_noinit n env)) (pb_decode_noinit n env)) fs dest s h"

definition pb_decode :: "nat \<Rightarrow> 's dec_env \<Rightarrow> 's msg_decoder" where
  "pb_decode n env = init_and_decode env (pb_decode_noinit n env)"

definition in_substream :: "'s msg_decoder \<Rightarrow> 's msg_decoder" where
  "in_substream dec fs dest s h =
    (case pb_make_string_substream s of
       (None, s) \<Rightarrow> Some (False, s, h)
     | (Some substream, s) \<Rightarrow>
         do { (status, substream, h) \<leftarrow> dec fs dest substream h;
              wire_then (pb_close_string_substream s substream) h (\<lambda>_ s h. Some (status, s, h)) })"

definition pb_decode_delimited_noinit :: "nat \<Rightarrow> 's dec_env \<Rightarrow> 's msg_decoder" where
  "pb_decode_delimited_noinit n env = in_substream (pb_decode_noinit n env)"

definition pb_decode_delimited :: "nat \<Rightarrow> 's dec_env \<Rightarrow> 's msg_decoder" where
  "pb_decode_delimited n env = in_substream (pb_decode n env)"

definition pb_decode_nullterminated :: "nat \<Rightarrow> 's dec_env \<Rightarrow> 's msg_decoder" where
  "pb_decode_nullterminated n env = pb_decode n env"

end
