(* ===== verification/NanopbDecodeSafe.thy ===== *)
theory NanopbDecodeSafe
  imports NanopbDecodeMsg NanopbWireFacts
begin

text \<open>
  The message decoder reads nothing but its input: whatever the bytes, the descriptors, the heap and
  the allocator, every function of it leaves a memory stream that reads on in the same memory and
  does not reach further than before.
\<close>

section \<open>Consuming a memory stream\<close>

text \<open>
  \<open>s'\<close> reads on in the memory of \<open>s\<close>, does not reach further than \<open>s\<close> did, and no read has
  gone past the end. A decoder that failed may have left bytes unread that it no longer counts.
\<close>

definition consumes :: "'s pb_istream \<Rightarrow> 's pb_istream \<Rightarrow> bool" where
  "consumes s s' \<longleftrightarrow> buf_ok s' \<and>
    (\<exists>n. n + unat (bytes_left s') \<le> unat (bytes_left s) \<and> n \<le> length (i_ptr s) \<and> i_ptr s' = drop n (i_ptr s))"

lemma consumes_refl: "buf_ok s \<Longrightarrow> consumes s s"
  unfolding consumes_def by (intro conjI exI [of _ 0]) simp_all

lemma consumes_ok: "consumes s s' \<Longrightarrow> buf_ok s'" and consumes_left: "consumes s s' \<Longrightarrow> unat (bytes_left s') \<le> unat (bytes_left s)"
  by (auto simp: consumes_def)

lemma consumes_trans:
  assumes "consumes s t" "consumes t u"
  shows "consumes s u"
proof -
  obtain n where n: "n + unat (bytes_left t) \<le> unat (bytes_left s)" "n \<le> length (i_ptr s)" "i_ptr t = drop n (i_ptr s)"
    using assms(1) by (auto simp: consumes_def)
  obtain k where k: "k + unat (bytes_left u) \<le> unat (bytes_left t)" "k \<le> length (i_ptr t)" "i_ptr u = drop k (i_ptr t)" "buf_ok u"
    using assms(2) by (auto simp: consumes_def)
  show ?thesis unfolding consumes_def using n k by (intro conjI exI [of _ "n + k"]) (simp_all add: add.commute)
qed

lemma reads_consumes:
  assumes "buf_ok s" "reads s s'"
  shows "consumes s s'"
proof -
  obtain n e where n: "n \<le> unat (bytes_left s)" "s' = (buf_adv n s)\<lparr>i_errmsg := e\<rparr>" using assms(2) by (auto simp: reads_def)
  show ?thesis
    unfolding consumes_def using n reads_ok [OF assms] assms(1)
    by (intro conjI exI [of _ n]) (auto simp: buf_adv_def unat_minus_word_of_nat buf_ok_def)
qed

lemma consumes_error [simp]: "consumes s (s'\<lparr>i_errmsg := e\<rparr>) = consumes s s'" "consumes s (i_set_error msg s') = consumes s s'"
  by (simp_all add: consumes_def buf_ok_def i_set_error_def)

lemma safe_dec_consumes: "safe_dec f \<Longrightarrow> consumes s0 s \<Longrightarrow> consumes s0 (snd (f s))"
  using reads_consumes [OF consumes_ok safe_dec_snd [OF _ consumes_ok]] consumes_trans by blast

lemma make_substream_None:
  assumes "buf_ok s" "pb_make_string_substream s = (None, s')"
  shows "reads s s'"
proof -
  obtain r t where t: "pb_decode_varint32 s = (r, t)" by (cases "pb_decode_varint32 s")
  have "reads s t" using safe_decD [OF safe_varint32 assms(1) t] by simp
  then have "reads s (snd (i_fail msg t))" for msg by (rule reads_i_fail)
  then show ?thesis
    using assms(2) t \<open>reads s t\<close> by (auto simp: pb_make_string_substream_def i_fail_def split: option.splits if_splits)
qed

lemma make_substream_consumes:
  assumes "consumes s0 s" "pb_make_string_substream s = (r, s')"
  shows "consumes s0 s'"
proof (cases r)
  case None
  then show ?thesis
    using assms consumes_ok reads_consumes make_substream_None consumes_trans by (metis (no_types))
next
  case (Some sub)
  note ok = consumes_ok [OF assms(1)]
  obtain sz t where t: "pb_decode_varint32 s = (Some sz, t)" and le: "\<not> bytes_left t < to_u64 sz"
    and s': "s' = t\<lparr>bytes_left := bytes_left t - to_u64 sz\<rparr>"
    using assms(2) Some by (auto simp: pb_make_string_substream_def i_fail_def split: prod.splits option.splits if_splits)
  have "consumes s t" using reads_consumes [OF ok] safe_decD [OF safe_varint32 ok t] by blast
  moreover have "consumes t s'"
    using consumes_ok [OF \<open>consumes s t\<close>] le
    unfolding consumes_def s' by (intro conjI exI [of _ 0]) (auto simp: buf_ok_def unat_sub linorder_not_less)
  ultimately show ?thesis using assms(1) consumes_trans by blast
qed

lemma varint32_shorter:
  assumes "buf_ok s" "pb_decode_varint32 s = (Some v, t)"
  shows "unat (bytes_left t) < unat (bytes_left s)"
proof -
  obtain b s1 where b: "pb_readbyte s = (Some b, s1)"
    using assms(2) by (auto simp: pb_decode_varint32_def pb_decode_varint32_eof_def split: prod.splits option.splits)
  have lt: "unat (bytes_left s1) < unat (bytes_left s)" by (rule pb_readbyte_less [OF b])
  have ok: "buf_ok s1" using safe_decD [OF safe_readbyte assms(1) b] by simp
  have "t = s1 \<or> t = snd (varint32_loop s1 7 (to_u32 (b AND 0x7F)))"
    using assms(2) b by (auto simp: pb_decode_varint32_def pb_decode_varint32_eof_def split: prod.splits if_splits)
  then have "unat (bytes_left t) \<le> unat (bytes_left s1)"
    using reads_left [OF safe_varint32_loop [OF ok]] by auto
  then show ?thesis using lt by simp
qed

lemma make_substream_shorter:
  assumes "buf_ok s" "pb_make_string_substream s = (Some sub, s')"
  shows "unat (bytes_left sub) < unat (bytes_left s)"
proof -
  obtain sz t where t: "pb_decode_varint32 s = (Some sz, t)" and le: "\<not> bytes_left t < to_u64 sz"
    and sub: "sub = t\<lparr>bytes_left := to_u64 sz\<rparr>"
    using assms(2) by (auto simp: pb_make_string_substream_def i_fail_def split: prod.splits option.splits if_splits)
  have "unat (bytes_left t) < unat (bytes_left s)" by (rule varint32_shorter [OF assms(1) t])
  then show ?thesis using le by (simp add: sub word_less_nat_alt)
qed

lemma close_substream_consumes:
  assumes mk: "consumes s0 s" "pb_make_string_substream s = (Some sub, s1)" and sub: "consumes sub sub'"
  shows "\<exists>s2. pb_close_string_substream (s1\<lparr>i_errmsg := e\<rparr>) sub' = (Some (), s2) \<and> consumes s0 s2"
proof -
  note m = make_substream [OF consumes_ok [OF mk(1)] mk(2)]
  obtain n where n: "n + unat (bytes_left sub') \<le> unat (bytes_left sub)" "n \<le> length (i_ptr sub)" "i_ptr sub' = drop n (i_ptr sub)"
    "buf_ok sub'" using sub by (auto simp: consumes_def)
  let ?k = "unat (bytes_left sub')"
  have skip: "bytes_left sub' \<noteq> 0 \<Longrightarrow> pb_skip_bytes sub' (bytes_left sub') = (Some (), buf_adv ?k sub')"
    using buf_pb_read [OF n(4), of "bytes_left sub'" False] by (simp add: pb_skip_bytes_def)
  have adv: "buf_ok (buf_adv ?k sub')" by (rule buf_adv_ok [OF n(4)]) simp
  obtain s2 where s2: "pb_close_string_substream (s1\<lparr>i_errmsg := e\<rparr>) sub' = (Some (), s2)"
    "i_callback s2 = i_callback s1" "bytes_left s2 = bytes_left s1" "\<not> i_fault s2" "i_ptr s2 = drop (n + ?k) (i_ptr s1)"
  proof (cases "bytes_left sub' = 0")
    case True
    then show ?thesis using n(3,4) m(3) that by (simp add: pb_close_string_substream_def buf_ok_def)
  next
    case False
    then show ?thesis
      using skip n(3,4) adv m(3) that by (simp add: pb_close_string_substream_def buf_ok_def buf_adv_def add.commute)
  qed
  note ok = consumes_ok [OF mk(1)]
  obtain sz t where t: "pb_decode_varint32 s = (Some sz, t)" and le: "\<not> bytes_left t < to_u64 sz"
    and s1: "s1 = t\<lparr>bytes_left := bytes_left t - to_u64 sz\<rparr>" "bytes_left sub = to_u64 sz"
    using mk(2) by (auto simp: pb_make_string_substream_def i_fail_def split: prod.splits option.splits if_splits)
  have "consumes s t" using reads_consumes [OF ok] safe_decD [OF safe_varint32 ok t] by blast
  moreover have "consumes t s2"
  proof -
    have l: "unat (bytes_left s1) + unat (bytes_left sub) = unat (bytes_left t)"
      using le by (simp add: s1 unat_sub linorder_not_less word_le_nat_alt)
    have "buf_ok s2"
      using s2 m(2,4) n(1) by (auto simp: buf_ok_def)
    moreover have "n + ?k + unat (bytes_left s2) \<le> unat (bytes_left t)" using s2(3) l n(1) by simp
    moreover have "i_ptr s2 = drop (n + ?k) (i_ptr t)" using s2(5) s1 by simp
    moreover have "n + ?k \<le> length (i_ptr t)" using m(4) n(1) s1 by simp
    ultimately show ?thesis unfolding consumes_def by blast
  qed
  ultimately show ?thesis using s2(1) mk(1) consumes_trans by blast
qed

section \<open>Results\<close>

text \<open>The stream of a result consumes \<open>s0\<close>. All results have their stream in the second place.\<close>

definition safe_res :: "'s pb_istream \<Rightarrow> ('a \<times> 's pb_istream \<times> 'b) option \<Rightarrow> bool" where
  "safe_res s0 r \<longleftrightarrow> (\<forall>a s b. r = Some (a, s, b) \<longrightarrow> consumes s0 s)"

named_theorems safe_intros

lemma safe_None [safe_intros, simp]: "safe_res s0 None"
  by (simp add: safe_res_def)

lemma safe_Some [safe_intros]: "consumes s0 s \<Longrightarrow> safe_res s0 (Some (a, s, b))"
  by (simp add: safe_res_def)

lemma safe_if [safe_intros]: "(P \<Longrightarrow> safe_res s0 r) \<Longrightarrow> (\<not> P \<Longrightarrow> safe_res s0 r') \<Longrightarrow> safe_res s0 (if P then r else r')"
  by simp

lemma safe_bind: "(\<And>v. safe_res s0 (f v)) \<Longrightarrow> safe_res s0 (do { v \<leftarrow> x; f v })"
  by (cases x) simp_all

lemma safe_bind_res:
  "safe_res s1 r \<Longrightarrow> (\<And>a s b. consumes s1 s \<Longrightarrow> safe_res s0 (f (a, s, b))) \<Longrightarrow> safe_res s0 (do { v \<leftarrow> r; f v })"
proof (cases r)
  case (Some p)
  obtain a s b where "p = (a, s, b)" by (cases p)
  then show "safe_res s1 r \<Longrightarrow> (\<And>a s b. consumes s1 s \<Longrightarrow> safe_res s0 (f (a, s, b))) \<Longrightarrow> ?thesis"
    using Some by (simp add: safe_res_def)
qed simp

lemma safe_store_then [safe_intros]: "(\<And>h. safe_res s0 (g h)) \<Longrightarrow> safe_res s0 (store_then r g)"
  by (cases r) simp_all

lemma safe_dec_then_res [safe_intros]:
  assumes r: "safe_res s0 r" and g: "\<And>s h. consumes s0 s \<Longrightarrow> safe_res s0 (g s h)"
  shows "safe_res s0 (dec_then r g)"
proof (cases r)
  case (Some p)
  obtain ok s h where p: "p = (ok, s, h)" by (cases p)
  have "consumes s0 s" using r Some p by (simp add: safe_res_def)
  then show ?thesis using Some p g [of s h] by (cases ok) (simp_all add: safe_Some)
qed simp

lemma safe_wire_then:
  "consumes s0 (snd r) \<Longrightarrow> (\<And>v s. r = (Some v, s) \<Longrightarrow> consumes s0 s \<Longrightarrow> safe_res s0 (g v s h)) \<Longrightarrow> safe_res s0 (wire_then r h g)"
  by (cases r) (auto simp: wire_then_def split: option.split intro: safe_intros)

lemma safe_wire:
  "safe_dec f \<Longrightarrow> consumes s0 s \<Longrightarrow> (\<And>v s. consumes s0 s \<Longrightarrow> safe_res s0 (g v s h)) \<Longrightarrow> safe_res s0 (wire_then (f s) h g)"
  by (rule safe_wire_then) (auto dest: safe_dec_consumes)

lemma safe_d_fail [safe_intros]: "consumes s0 s \<Longrightarrow> safe_res s0 (d_fail msg s h)"
  by (simp add: d_fail_def safe_Some)

lemma safe_f_fail [safe_intros]: "consumes s0 s \<Longrightarrow> safe_res s0 (f_fail msg s h it)"
  by (simp add: f_fail_def safe_Some)

lemma safe_with_iter [safe_intros]: "safe_res s0 r \<Longrightarrow> safe_res s0 (with_iter it r)"
  by (auto simp: safe_res_def with_iter_def)

text \<open>A step of the decoder, whatever the heap.\<close>

definition safe_step :: "'s dstep \<Rightarrow> bool" where
  "safe_step f \<longleftrightarrow> (\<forall>s0 s h. consumes s0 s \<longrightarrow> safe_res s0 (f s h))"

lemma safe_stepI: "(\<And>s0 s h. consumes s0 s \<Longrightarrow> safe_res s0 (f s h)) \<Longrightarrow> safe_step f"
  by (simp add: safe_step_def)

lemma safe_stepD: "safe_step f \<Longrightarrow> consumes s0 s \<Longrightarrow> safe_res s0 (f s h)"
  by (simp add: safe_step_def)

lemmas safe_wire_calls [safe_intros] = safe_varint32 [THEN safe_wire] safe_decode_varint [THEN safe_wire]
  safe_svarint [THEN safe_wire] safe_fixed32 [THEN safe_wire] safe_fixed64 [THEN safe_wire] safe_pb_read [THEN safe_wire]
  safe_skip_field [THEN safe_wire]

section \<open>Values\<close>

lemma safe_read_mem: "safe_step (pb_read_mem p n)"
  unfolding pb_read_mem_def [abs_def] by (intro safe_stepI safe_intros; assumption)

lemma safe_allocate: "safe_step (allocate_field env data dsize asize)"
  unfolding allocate_field_def [abs_def] split_def by (intro safe_stepI safe_bind safe_intros; assumption)

lemma safe_store_int: "safe_step (store_int sg sz dest v)"
  unfolding store_int_def [abs_def] Let_def by (intro safe_stepI safe_intros; assumption)

lemmas safe_calls [safe_intros] = safe_read_mem [THEN safe_stepD] safe_allocate [THEN safe_stepD] safe_store_int [THEN safe_stepD]

lemma safe_values:
  "safe_step (pb_dec_bool field dest)" "safe_step (pb_dec_varint field dest)" "safe_step (pb_dec_uvarint field dest)"
  "safe_step (pb_dec_svarint field dest)" "safe_step (pb_dec_fixed32 field dest)" "safe_step (pb_dec_fixed64 field dest)"
  "safe_step (pb_dec_fixed_length_bytes field dest)"
  unfolding pb_dec_bool_def [abs_def] pb_dec_varint_def [abs_def] pb_dec_uvarint_def [abs_def] pb_dec_svarint_def [abs_def]
    pb_dec_fixed32_def [abs_def] pb_dec_fixed64_def [abs_def] pb_dec_fixed_length_bytes_def [abs_def]
  by (intro safe_stepI safe_intros; assumption)+

lemma safe_bytes: "safe_step (pb_dec_bytes env field dest)"
  unfolding pb_dec_bytes_def [abs_def] Let_def
  by (intro safe_stepI safe_intros safe_bind; assumption)

lemma safe_string: "safe_step (pb_dec_string env field dest)"
  unfolding pb_dec_string_def [abs_def] Let_def split_def
  by (intro safe_stepI safe_intros safe_bind_res [OF safe_read_mem [THEN safe_stepD]] safe_bind; (assumption | simp))

section \<open>Fields\<close>

text \<open>What is asked of the user functions and of the decoders of the messages inside.\<close>

definition user_reads :: "'s dec_env \<Rightarrow> bool" where
  "user_reads env \<longleftrightarrow>
    (\<forall>f field arg. safe_step (d_decode env f field arg)) \<and> (\<forall>f ext tag wt. safe_step (d_extension env f ext tag wt))"

definition safe_msg :: "'s msg_decoder \<Rightarrow> bool" where
  "safe_msg dec \<longleftrightarrow> (\<forall>fs dest. safe_step (dec fs dest))"

definition safe_decoders :: "(u8 \<Rightarrow> 's decoder option) \<Rightarrow> bool" where
  "safe_decoders decoders \<longleftrightarrow> (\<forall>t func field dest. decoders t = Some func \<longrightarrow> safe_step (func field dest))"

text \<open>A substream: what is done in it, and closing it.\<close>

definition closable :: "'s pb_istream \<Rightarrow> 's pb_istream \<Rightarrow> 's pb_istream \<Rightarrow> bool" where
  "closable s0 sub s \<longleftrightarrow>
    (\<forall>sub' e. consumes sub sub' \<longrightarrow> (\<exists>s'. pb_close_string_substream (s\<lparr>i_errmsg := e\<rparr>) sub' = (Some (), s') \<and> consumes s0 s'))"

lemma closableE:
  assumes "closable s0 sub s" "consumes sub sub'"
  obtains s' where "pb_close_string_substream s sub' = (Some (), s')" "consumes s0 s'"
proof -
  obtain s' where "pb_close_string_substream (s\<lparr>i_errmsg := i_errmsg s\<rparr>) sub' = (Some (), s')" "consumes s0 s'"
    using assms unfolding closable_def by blast
  then show thesis using that by simp
qed

lemma closable_error: "closable s0 sub s \<Longrightarrow> closable s0 sub (s\<lparr>i_errmsg := e\<rparr>)"
  by (simp add: closable_def)

lemma safe_substream:
  assumes c: "consumes s0 s"
    and f: "\<And>s. consumes s0 s \<Longrightarrow> safe_res s0 (f s)"
    and g: "\<And>sub s. buf_ok sub \<Longrightarrow> consumes s0 s \<Longrightarrow> closable s0 sub s \<Longrightarrow> safe_res s0 (g sub s)"
  shows "safe_res s0 (case pb_make_string_substream s of (None, s) \<Rightarrow> f s | (Some sub, s) \<Rightarrow> g sub s)"
proof (cases "pb_make_string_substream s")
  case (Pair r s')
  have c': "consumes s0 s'" by (rule make_substream_consumes [OF c Pair])
  show ?thesis
  proof (cases r)
    case None
    then show ?thesis using Pair f [OF c'] by simp
  next
    case (Some sub)
    have mk: "pb_make_string_substream s = (Some sub, s')" using Pair Some by simp
    have "closable s0 sub s'" unfolding closable_def using close_substream_consumes [OF c mk] by blast
    then show ?thesis using g [OF make_substream(1) [OF consumes_ok [OF c] mk] c'] Pair Some by simp
  qed
qed

lemma safe_close:
  assumes "closable s0 sub s" "consumes sub sub'" "\<And>s'. consumes s0 s' \<Longrightarrow> safe_res s0 (g s')"
  shows "safe_res s0 (case pb_close_string_substream s sub' of (None, s) \<Rightarrow> f s | (Some _, s) \<Rightarrow> g s)"
  using closableE [OF assms(1,2)] assms(3) by (metis (no_types, lifting) case_prod_conv option.simps(5))

lemma safe_close_then:
  assumes "closable s0 sub s" "consumes sub sub'" "\<And>s' h. consumes s0 s' \<Longrightarrow> safe_res s0 (g s' h)"
  shows "safe_res s0 (wire_then (pb_close_string_substream s sub') h (\<lambda>_. g))"
  using closableE [OF assms(1,2)] assms(3) by (metis (no_types, lifting) wire_then_def case_prod_conv option.simps(5))

lemma safe_submessage:
  assumes "safe_msg init" "safe_msg noinit"
  shows "safe_step (pb_dec_submessage env init noinit field dest)"
proof (rule safe_stepI)
  fix s0 s :: "'a pb_istream" and h
  assume c: "consumes s0 s"
  have res: "safe_res sub (if htype field = PB_HTYPE_REPEATED then init fs dest sub h else noinit fs dest sub h)"
    if "buf_ok sub" for sub h fs
    using assms safe_stepD [OF _ consumes_refl [OF that]] by (simp add: safe_msg_def)
  have "safe_res s0 (do { (status, substream, h) \<leftarrow>
            (if htype field = PB_HTYPE_REPEATED then init fs dest sub h else noinit fs dest sub h);
          wire_then (pb_close_string_substream s substream) h (\<lambda>_ s h. Some (status, s, h)) })"
    if "buf_ok sub" "closable s0 sub s" for sub s h fs
    by (rule safe_bind_res [OF res [OF that(1)]]) (auto intro: safe_close_then [OF that(2)] safe_Some)
  note inner = this
  show "safe_res s0 (pb_dec_submessage env init noinit field dest s h)"
    unfolding pb_dec_submessage_def
    by (rule safe_substream [OF c], erule safe_Some, rule safe_if, erule safe_d_fail, rule safe_bind, rule inner)
qed

lemma safe_PB_DECODERS:
  assumes "safe_msg init" "safe_msg noinit"
  shows "safe_decoders (PB_DECODERS env init noinit)"
  using safe_values safe_bytes safe_string safe_submessage [OF assms]
  by (auto simp: safe_decoders_def PB_DECODERS_def intro: safe_stepI split: if_splits)

lemma safe_decodersD: "safe_decoders decoders \<Longrightarrow> decoders t = Some func \<Longrightarrow> safe_step (func field dest)"
  by (simp add: safe_decoders_def)

lemma safe_pair: "(\<And>a b. safe_res s0 (f a b)) \<Longrightarrow> safe_res s0 (case p of (a, b) \<Rightarrow> f a b)"
  by (cases p) simp

lemma safe_pair_case:
  "(\<And>a b. p = (a, b) \<Longrightarrow> safe_res s0 (f a b)) \<Longrightarrow> safe_res s0 (case p of (a, b) \<Rightarrow> f a b)"
  by (cases p) simp

lemma safe_bind_pair: "(\<And>a b. safe_res s0 (f a b)) \<Longrightarrow> safe_res s0 (do { (a, b) \<leftarrow> x; f a b })"
  by (rule safe_bind) (rule safe_pair)

text \<open>A step, the failure of which ends the decoding of the field.\<close>

lemma safe_ok_then:
  assumes "safe_res s0 r" "\<And>s h. consumes s0 s \<Longrightarrow> safe_res s0 (f s h)" "\<And>s h. consumes s0 s \<Longrightarrow> safe_res s0 (g s h)"
  shows "safe_res s0 (do { (ok, s, h) \<leftarrow> r; if \<not> ok then f s h else g s h })"
  by (rule safe_bind_res [OF assms(1)]) (auto intro: assms)

definition safe_decoder :: "'s decoder \<Rightarrow> bool" where
  "safe_decoder func \<longleftrightarrow> (\<forall>field dest. safe_step (func field dest))"

lemma safe_decoderD: "safe_decoder func \<Longrightarrow> consumes s0 s \<Longrightarrow> safe_res s0 (func field dest s h)"
  by (simp add: safe_decoder_def safe_stepD)

lemma safe_packed_static:
  assumes f: "safe_decoder func"
  shows "consumes s0 sub \<Longrightarrow> safe_res s0 (packed_static_loop k func it sub h)"
proof (induction k arbitrary: it sub h)
  case 0
  then show ?case by (subst packed_static_loop.simps) (intro safe_bind safe_if; simp add: safe_Some)
next
  case (Suc k)
  show ?case
    by (subst packed_static_loop.simps, simp only: nat.case)
      (rule safe_bind, rule safe_if, rule safe_ok_then, rule safe_decoderD [OF f Suc.prems], erule safe_Some,
       rule safe_bind, rule safe_bind_pair, erule Suc.IH, rule safe_Some [OF Suc.prems])
qed

lemma safe_decode_packed_static:
  assumes f: "safe_decoder func" and c: "consumes s0 s"
  shows "safe_res s0 (decode_packed_static func s h it)"
  unfolding decode_packed_static_def
proof (rule safe_substream [OF c], erule safe_Some)
  fix sub s
  assume *: "buf_ok sub" "consumes s0 s" "closable s0 sub s"
  show "safe_res s0 (do {
           (status, sub, h, it) \<leftarrow> packed_static_loop (unat (bytes_left sub)) func it sub h;
           if bytes_left sub \<noteq> 0 then f_fail ''array overflow'' s h it
           else case pb_close_string_substream s sub of
               (None, s) \<Rightarrow> Some (False, s, h, it)
             | (Some _, s) \<Rightarrow> Some (status, s, h, it) })"
    by (rule safe_bind_res [OF safe_packed_static [OF f consumes_refl [OF *(1)]]], simp only: case_prod_conv)
      (rule safe_pair, rule safe_if, rule safe_f_fail [OF *(2)], erule safe_close [OF *(3)], erule safe_Some)
qed

lemma safe_decode_static:
  assumes d: "safe_decoders decoders" and c: "consumes s0 s"
  shows "safe_res s0 (decode_static_field env decoders wt s h it)"
proof (cases "decoders (ltype (cur it))")
  case None
  then show ?thesis by (simp add: decode_static_field_def Let_def)
next
  case (Some func)
  have f: "safe_decoder func" using safe_decodersD [OF d Some] by (simp add: safe_decoder_def)
  show ?thesis
    unfolding decode_static_field_def Let_def Some bind.bind_lunit
    by (intro safe_if safe_with_iter safe_decoderD [OF f c] safe_bind safe_pair safe_decode_packed_static [OF f c] safe_f_fail c)
qed

lemma safe_packed_pointer:
  assumes f: "safe_decoder func"
  shows "consumes s0 sub \<Longrightarrow> safe_res s0 (packed_pointer_loop k env func it n sub h)"
proof (induction k arbitrary: it n sub h)
  case 0
  then show ?case by (subst packed_pointer_loop.simps) (simp add: Let_def safe_Some)
next
  case (Suc k)
  have alloc: "safe_res s0 (if P then (if Q then None else allocate_field env a b c sub h) else Some (True, sub, h))" for P Q a b c
    by (intro safe_if safe_None safe_stepD [OF safe_allocate] safe_Some Suc.prems)
  show ?case
    by (subst packed_pointer_loop.simps, simp only: nat.case Let_def)
      (rule safe_if, rule safe_Some [OF Suc.prems], rule safe_bind, rule safe_if, rule safe_Some [OF Suc.prems],
       rule safe_ok_then, rule alloc, erule safe_Some, rule safe_bind, rule safe_bind, rule safe_if, erule safe_Some,
       rule safe_bind, rule safe_ok_then, erule safe_decoderD [OF f], erule safe_Some, rule safe_bind, rule safe_bind_pair,
       erule Suc.IH)
qed

lemma closable_maybe:
  "closable s0 sub s \<Longrightarrow> closable s0 sub (case err of None \<Rightarrow> s | Some e \<Rightarrow> s\<lparr>i_errmsg := Some e\<rparr>)"
  by (simp add: closable_error split: option.split)

lemma safe_decode_packed_pointer:
  assumes f: "safe_decoder func" and c: "consumes s0 s"
  shows "safe_res s0 (decode_packed_pointer env func s h it)"
  unfolding decode_packed_pointer_def Let_def
proof (rule safe_bind, rule safe_substream [OF c], erule safe_Some)
  fix n sub s
  assume *: "buf_ok sub" "consumes s0 s" "closable s0 sub s"
  show "safe_res s0 (do {
            ((status, err), sub, h, it) \<leftarrow> packed_pointer_loop (unat (bytes_left sub)) env func it (to_u64 n) sub h;
            case pb_close_string_substream (case err of None \<Rightarrow> s | Some e \<Rightarrow> s\<lparr>i_errmsg := Some e\<rparr>) sub of
              (None, s) \<Rightarrow> Some (False, s, h, it)
            | (Some _, s) \<Rightarrow> Some (status, s, h, it) })"
    by (rule safe_bind_res [OF safe_packed_pointer [OF f consumes_refl [OF *(1)]]], simp only: case_prod_conv split_paired_all)
      (rule safe_close [OF closable_maybe [OF *(3)]], assumption, erule safe_Some)
qed

lemma safe_decode_pointer:
  assumes d: "safe_decoders decoders" and c: "consumes s0 s"
  shows "safe_res s0 (decode_pointer_field env decoders wt s h it)"
proof (cases "decoders (ltype (cur it))")
  case None
  then show ?thesis by (simp add: decode_pointer_field_def Let_def)
next
  case (Some func)
  have f: "safe_decoder func" using safe_decodersD [OF d Some] by (simp add: safe_decoder_def)
  note alloc = safe_stepD [OF safe_allocate c]
  note single = safe_with_iter [OF safe_decoderD [OF f]]
  show ?thesis
    unfolding decode_pointer_field_def Let_def Some bind.bind_lunit
    by (rule safe_if, rule safe_bind, rule safe_bind, rule safe_bind_pair, rule safe_if, rule single [OF c],
        rule safe_ok_then, rule alloc, erule safe_Some, rule safe_bind, rule safe_bind, rule safe_bind, erule single,
        rule safe_if, rule safe_if, rule safe_decode_packed_pointer [OF f c], rule safe_bind, rule safe_if, rule safe_f_fail [OF c],
        rule safe_ok_then, rule alloc, erule safe_Some, rule safe_bind, rule safe_bind, rule safe_bind_pair, rule safe_bind,
        erule single, rule safe_f_fail [OF c])
qed

lemma safe_callback_loop:
  assumes f: "safe_step f"
  shows "consumes s0 sub \<Longrightarrow> safe_res s0 (callback_loop k f sub h)"
proof (induction k arbitrary: sub h)
  case (Suc k)
  show ?case
    by (simp only: callback_loop.simps)
      (rule safe_ok_then, rule safe_stepD [OF f Suc.prems], erule safe_Some, rule safe_if, erule Suc.IH, erule safe_Some)
qed simp

lemma reads_raw_value:
  assumes "consumes s0 s" "read_raw_value s wt n = (r, s')"
  shows "consumes s0 s'"
  using safe_dec_consumes [OF safe_read_raw_value assms(1), of wt n] assms(2) by simp

lemma safe_decode_callback:
  assumes u: "user_reads env" and c: "consumes s0 s"
  shows "safe_res s0 (decode_callback_field env wt s h it)"
proof -
  have f: "safe_step (d_decode env p field arg)" for p field arg using u by (simp add: user_reads_def)
  have sub: "safe_res s0 (do { (ok, sub, h) \<leftarrow> callback_loop (Suc (unat (bytes_left sub))) (d_decode env p field arg) sub h;
                 if \<not> ok then f_fail ''callback failed'' s h it
                 else with_iter it (wire_then (pb_close_string_substream s sub) h (\<lambda>_ s h. Some (True, s, h))) })"
    if "buf_ok sub" "consumes s0 s" "closable s0 sub s" for sub s p field arg
    by (rule safe_bind_res [OF safe_callback_loop [OF f consumes_refl [OF that(1)]]], simp only: case_prod_conv)
      (rule safe_if, rule safe_f_fail [OF that(2)], rule safe_with_iter, erule safe_close_then [OF that(3)], erule safe_Some)
  have raw: "safe_res s0 (case read_raw_value s wt 10 of
             (None, s) \<Rightarrow> Some (False, s, h, it)
           | (Some bs, s) \<Rightarrow> do { (ok, _, h) \<leftarrow> d_decode env p field arg (local_istream (i_state s) bs) h; Some (ok, s, h, it) })"
    for p field arg
    using reads_raw_value [OF c] by (auto split: prod.split option.split bind_splits simp: safe_res_def)
  show ?thesis
    unfolding decode_callback_field_def Let_def
    by (rule safe_bind, rule safe_if, rule safe_with_iter, rule safe_wire [OF safe_skip_field c], erule safe_Some,
        rule safe_if, rule safe_substream [OF c], erule safe_Some, erule (2) sub, rule raw)
qed

lemma safe_found:
  "(\<And>it. safe_res s0 (f it)) \<Longrightarrow> (\<And>it. safe_res s0 (g it)) \<Longrightarrow>
    safe_res s0 (case p of (False, it) \<Rightarrow> f it | (True, it) \<Rightarrow> g it)"
  by (auto split: prod.split bool.split)

lemma safe_release_union: "consumes s0 s \<Longrightarrow> safe_res s0 (pb_release_union_field env s h it)"
  unfolding pb_release_union_field_def Let_def
  by (rule safe_bind, rule safe_if, erule safe_Some, rule safe_found, erule safe_f_fail, rule safe_bind, rule safe_found,
      erule safe_f_fail, rule safe_bind, erule safe_Some)

lemma safe_decode_field:
  assumes d: "safe_decoders decoders" and u: "user_reads env" and c: "consumes s0 s"
  shows "safe_res s0 (decode_field env decoders wt s h it)"
proof -
  have r: "safe_res s0 (if htype (cur it) = PB_HTYPE_ONEOF then pb_release_union_field env s h it else Some (True, s, h, it))"
    by (intro safe_if safe_release_union safe_Some c)
  show ?thesis
    unfolding decode_field_def
    by (rule safe_bind_res [OF r], simp only: case_prod_conv split_paired_all)
      (rule safe_if, erule safe_Some, rule safe_if, erule safe_decode_static [OF d], rule safe_if, erule safe_decode_pointer [OF d],
       rule safe_if, erule safe_decode_callback [OF u], erule safe_f_fail)
qed

lemma safe_drop_iter: "safe_res s0 r \<Longrightarrow> safe_res s0 (map_option (\<lambda>(ok, s, h, it). (ok, s, h)) r)"
  by (auto simp: safe_res_def)

lemma safe_default_extension:
  assumes d: "safe_decoders decoders" and u: "user_reads env" and c: "consumes s0 s"
  shows "safe_res s0 (default_extension_decoder env decoders ext tag wt s h)"
  unfolding default_extension_decoder_def
  by (rule safe_bind, rule safe_bind, rule safe_bind, rule safe_if, rule safe_Some [OF c], rule safe_bind, rule safe_bind,
      rule safe_drop_iter, rule safe_decode_field [OF assms])

lemma safe_decode_extensions:
  assumes d: "safe_decoders decoders" and u: "user_reads env"
  shows "consumes s0 s \<Longrightarrow> safe_res s0 (decode_extensions k env decoders tag wt pos ext s h)"
proof (induction k arbitrary: ext s h)
  case (Suc k)
  have user: "safe_step (d_extension env f ext tag wt)" for f ext using u by (simp add: user_reads_def)
  show ?case
    by (simp only: decode_extensions.simps)
      (rule safe_if, rule safe_bind, rule safe_bind, rule safe_dec_then_res, rule safe_if, rule safe_stepD [OF user Suc.prems],
       rule safe_default_extension [OF d u Suc.prems], rule safe_bind, erule Suc.IH, rule safe_Some [OF Suc.prems])
qed simp

lemma safe_decode_extension:
  assumes "safe_decoders decoders" "user_reads env" "consumes s0 s"
  shows "safe_res s0 (decode_extension env decoders tag wt it s h)"
  unfolding decode_extension_def by (rule safe_bind) (rule safe_decode_extensions [OF assms])

section \<open>Messages\<close>

lemma decode_tag_consumes: "consumes s0 s \<Longrightarrow> pb_decode_tag s = (r, e, s') \<Longrightarrow> consumes s0 s'"
  using safe_decode_tag [OF consumes_ok] reads_consumes [OF consumes_ok] consumes_trans by blast

lemma safe_decode_loop:
  assumes d: "safe_decoders decoders" and u: "user_reads env"
  shows "consumes s0 s \<Longrightarrow> safe_res s0 (decode_loop k env decoders d s h)"
proof (induction k arbitrary: d s h)
  case 0
  then show ?case by (subst decode_loop.simps) (simp add: safe_Some)
next
  case (Suc k)
  obtain r e s1 where t: "pb_decode_tag s = (r, e, s1)" by (cases "pb_decode_tag s")
  have c: "consumes s0 s1" by (rule decode_tag_consumes [OF Suc.prems t])
  have skip: "safe_res s0 (case pb_skip_field s wt of (None, s) \<Rightarrow> Some (None, s, h)
                           | (Some _, s) \<Rightarrow> decode_loop k env decoders d s h)" if "consumes s0 s" for s h d wt
    using safe_dec_consumes [OF safe_skip_field that, of wt]
    by (auto split: prod.split option.split intro: safe_Some Suc.IH)
  have field: "safe_res s0 (case decode_field env decoders wt s1 h it of None \<Rightarrow> None
       | Some (ok, s, h, it) \<Rightarrow> if \<not> ok then Some (None, s, h) else decode_loop k env decoders (leave_field it d) s h)" for wt h it d
    using safe_decode_field [OF d u c, of wt h it]
    by (auto simp: safe_res_def [of s0 "decode_field env decoders wt s1 h it"] split: option.split intro!: safe_Some Suc.IH)
  have ext: "safe_res s0 (case decode_extension env decoders tag wt it s1 h of None \<Rightarrow> None
       | Some (ok, s', h) \<Rightarrow>
           if \<not> ok then Some (None, s', h)
           else if bytes_left s1 \<noteq> bytes_left s' then decode_loop k env decoders d s' h
           else (case pb_skip_field s' wt of (None, s) \<Rightarrow> Some (None, s, h)
                           | (Some _, s) \<Rightarrow> decode_loop k env decoders d s h))" for tag wt it h d
    using safe_decode_extension [OF d u c, of tag wt it h]
    by (auto simp: safe_res_def [of s0 "decode_extension env decoders tag wt it s1 h"] split: option.split
        intro!: safe_Some Suc.IH skip safe_if)
  show ?case
  proof (cases r)
    case None
    then show ?thesis using Suc.prems c t by (subst decode_loop.simps) (auto intro!: safe_Some)
  next
    case (Some p)
    obtain wt tag where p: "p = (wt, tag)" by (cases p)
    have k: "safe_res s0 (case enter_fixed_count d of None \<Rightarrow> Some (None, i_set_error msg s1, h)
               | Some d \<Rightarrow> (case decode_field env decoders wt s1 h (iter (mark_required d)) of None \<Rightarrow> None
       | Some (ok, s, h, it) \<Rightarrow> if \<not> ok then Some (None, s, h)
                               else decode_loop k env decoders (leave_field it (mark_required d)) s h))" for d msg
      by (cases "enter_fixed_count d") (simp_all add: field safe_Some c)
    show ?thesis
      by (subst decode_loop.simps, simp only: nat.case t Some p prod.case option.case Let_def)
        (rule safe_if, rule safe_Some [OF Suc.prems], rule safe_found, rule safe_if, rule safe_pair, rule safe_if, rule ext,
         rule skip [OF c], rule skip [OF c], rule k)
  qed
qed

lemma safe_decode_message:
  assumes d: "safe_decoders decoders" and u: "user_reads env"
  shows "safe_msg (decode_message env decoders)"
  unfolding safe_msg_def
proof (intro allI safe_stepI)
  fix fs dest h and s0 s :: "'a pb_istream"
  assume c: "consumes s0 s"
  let ?d = "\<lparr>fields_seen = [0, 0], extension_range_start = 0, fixed_count_field = None, fixed_count_size = 0,
      iter = snd (pb_field_iter_begin fs dest)\<rparr>"
  have "consumes s0 t" if "decode_loop (unat (bytes_left s)) env decoders ?d s h = Some (r, t, h')" for r t h'
    using safe_decode_loop [OF d u c, of "unat (bytes_left s)" ?d h] that by (simp add: safe_res_def)
  then show "safe_res s0 (decode_message env decoders fs dest s h)"
    by (auto simp: decode_message_def Let_def split: option.split intro!: safe_Some safe_if safe_d_fail)
qed

lemma safe_init_and_decode: "safe_msg noinit \<Longrightarrow> safe_msg (init_and_decode env noinit)"
  unfolding safe_msg_def
proof (intro allI safe_stepI)
  fix fs dest h and s0 s :: "'a pb_istream"
  assume n: "\<forall>fs dest. safe_step (noinit fs dest)" and c: "consumes s0 s"
  show "safe_res s0 (init_and_decode env noinit fs dest s h)"
    unfolding init_and_decode_def
    by (rule safe_bind, rule safe_bind_res [OF safe_stepD [OF n [rule_format] c]], simp only: case_prod_conv)
      (rule safe_bind, erule safe_Some)
qed

lemma safe_decode_noinit: "user_reads env \<Longrightarrow> safe_msg (pb_decode_noinit n env)"
proof (induction n)
  case 0
  then show ?case by (simp add: safe_msg_def safe_step_def)
next
  case (Suc n)
  have eq: "pb_decode_noinit (Suc n) env =
      decode_message env (PB_DECODERS env (init_and_decode env (pb_decode_noinit n env)) (pb_decode_noinit n env))"
    by (intro ext) simp
  show ?case unfolding eq
    using Suc by (intro safe_decode_message safe_PB_DECODERS safe_init_and_decode) simp_all
qed

lemma safe_decode: "user_reads env \<Longrightarrow> safe_msg (pb_decode n env)"
  unfolding pb_decode_def by (intro safe_init_and_decode safe_decode_noinit)

lemma safe_in_substream: "safe_msg dec \<Longrightarrow> safe_msg (in_substream dec)"
  unfolding safe_msg_def
proof (intro allI safe_stepI)
  fix fs dest h and s0 s :: "'a pb_istream"
  assume n: "\<forall>fs dest. safe_step (dec fs dest)" and c: "consumes s0 s"
  have "safe_res s0 (do { (status, substream, h) \<leftarrow> dec fs dest sub h;
              wire_then (pb_close_string_substream s substream) h (\<lambda>_ s h. Some (status, s, h)) })"
    if "buf_ok sub" "consumes s0 s" "closable s0 sub s" for sub s
    by (rule safe_bind_res [OF safe_stepD [OF n [rule_format] consumes_refl [OF that(1)]]], simp only: case_prod_conv)
      (erule safe_close_then [OF that(3)], erule safe_Some)
  note inner = this
  show "safe_res s0 (in_substream dec fs dest s h)"
    unfolding in_substream_def by (rule safe_substream [OF c], erule safe_Some, rule inner)
qed

lemma safe_delimited: "user_reads env \<Longrightarrow> safe_msg (pb_decode_delimited n env)"
  unfolding pb_decode_delimited_def by (intro safe_in_substream safe_decode)

lemma safe_msgD: "safe_msg dec \<Longrightarrow> buf_ok s \<Longrightarrow> dec fs dest s h = Some (ok, s', h') \<Longrightarrow> consumes s s'"
  unfolding safe_msg_def using safe_stepD [OF _ consumes_refl] unfolding safe_res_def by blast

end
