(* ===== verification/NanopbDecodeStatic.thy ===== *)
theory NanopbDecodeStatic
  imports NanopbDecodeSafe
begin

text \<open>
  Decoding into a struct without pointers, callbacks and extensions: whatever the input, the decoder
  returns, and writes only inside the struct. A struct is described by its field descriptors, laid out by
  the field iterator; \<open>static_layout\<close> says that what the descriptors give to each field is inside
  the struct.
\<close>

section \<open>Regions of memory\<close>

definition bytes_of :: "addr \<Rightarrow> nat \<Rightarrow> addr set" where
  "bytes_of p n = (\<lambda>i. p + word_of_nat i) ` {..<n}"

lemma bytes_of_mono: "n \<le> k \<Longrightarrow> bytes_of p n \<subseteq> bytes_of p k"
  by (auto simp: bytes_of_def)

lemma bytes_of_0 [simp]: "bytes_of p 0 = {}"
  by (simp add: bytes_of_def)

lemma bytes_of_Suc: "bytes_of p (Suc n) = insert p (bytes_of (p + 1) n)"
  by (simp add: bytes_of_def lessThan_Suc_eq_insert_0 image_image add.assoc)

lemma bytes_of_inside: "j + k \<le> n \<Longrightarrow> bytes_of (p + word_of_nat j) k \<subseteq> bytes_of p n"
  by (auto simp: bytes_of_def image_iff add.assoc simp flip: of_nat_add intro!: bexI [of _ "j + _"])

definition mapped :: "heap \<Rightarrow> addr set \<Rightarrow> bool" where
  "mapped h R \<longleftrightarrow> R \<subseteq> dom (h_mem h)"

text \<open>\<open>h'\<close> differs from \<open>h\<close> in the bytes of \<open>R\<close> at most; the same memory is mapped.\<close>

definition alters :: "addr set \<Rightarrow> heap \<Rightarrow> heap \<Rightarrow> bool" where
  "alters R h h' \<longleftrightarrow> h_blocks h' = h_blocks h \<and> dom (h_mem h') = dom (h_mem h) \<and> (\<forall>a. a \<notin> R \<longrightarrow> h_mem h' a = h_mem h a)"

lemma alters_refl [simp]: "alters R h h" and alters_trans: "alters R h i \<Longrightarrow> alters R i j \<Longrightarrow> alters R h j"
  and alters_mono: "alters R h i \<Longrightarrow> R \<subseteq> S \<Longrightarrow> alters S h i"
  and alters_mapped: "alters R h i \<Longrightarrow> mapped i S = mapped h S"
  by (auto simp: alters_def mapped_def)

lemma mapped_mono: "mapped h R \<Longrightarrow> S \<subseteq> R \<Longrightarrow> mapped h S"
  by (auto simp: mapped_def)

lemma load_bytes_mapped: "bytes_of p n \<subseteq> dom m \<Longrightarrow> \<exists>bs. load_bytes m p n = Some bs \<and> length bs = n"
proof (induction n arbitrary: p)
  case (Suc n)
  obtain b where "m p = Some b" using Suc.prems by (auto simp: bytes_of_Suc)
  moreover obtain bs where "load_bytes m (p + 1) n = Some bs \<and> length bs = n" using Suc by (auto simp: bytes_of_Suc)
  ultimately show ?case by simp
qed simp

lemma load_bytes_dom: "load_bytes m p n \<noteq> None \<longleftrightarrow> bytes_of p n \<subseteq> dom m"
proof
  show "load_bytes m p n \<noteq> None \<Longrightarrow> bytes_of p n \<subseteq> dom m"
    by (induction n arbitrary: p) (auto simp: bytes_of_Suc split: bind_splits)
qed (use load_bytes_mapped [of p n m] in auto)

lemma load_word_mapped: "mapped h (bytes_of p n) \<Longrightarrow> \<exists>v. load_word (h_mem h) p n = Some v"
  using load_bytes_mapped [of p n] by (auto simp: load_word_def mapped_def)

lemma store_bytes_mapped:
  "bytes_of p (length bs) \<subseteq> dom m \<Longrightarrow>
    \<exists>m'. store_bytes m p bs = Some m' \<and> dom m' = dom m \<and> (\<forall>a. a \<notin> bytes_of p (length bs) \<longrightarrow> m' a = m a)"
proof (induction bs arbitrary: p m)
  case (Cons b bs)
  have d: "m p \<noteq> None" "bytes_of (p + 1) (length bs) \<subseteq> dom (m(p \<mapsto> b))"
    using Cons.prems by (auto simp: bytes_of_Suc)
  obtain m' where "store_bytes (m(p \<mapsto> b)) (p + 1) bs = Some m'" "dom m' = dom (m(p \<mapsto> b))"
    "\<forall>a. a \<notin> bytes_of (p + 1) (length bs) \<longrightarrow> m' a = (m(p \<mapsto> b)) a"
    using Cons.IH [OF d(2)] by blast
  moreover have "dom (m(p \<mapsto> b)) = dom m" using d(1) by auto
  ultimately show ?case using d(1) by (auto simp: bytes_of_Suc)
qed simp

lemma h_store_mapped:
  assumes "mapped h R" "bytes_of p (length bs) \<subseteq> R"
  obtains h' where "h_store h p bs = Some h'" "alters R h h'"
  using store_bytes_mapped [of p bs "h_mem h"] assms that by (fastforce simp: h_store_def mapped_def alters_def)

lemma length_le_bytes [simp]: "length (le_bytes n v) = n"
  by (induction n arbitrary: v) simp_all

section \<open>The layout of a struct\<close>

text \<open>The iterators on the fields of a struct, in their order.\<close>

function field_iters :: "pb_field_iter \<Rightarrow> pb_field_iter list" where
  "field_iters it =
    it # (case pb_field_iter_next it of (True, it') \<Rightarrow> field_iters it' | (False, _) \<Rightarrow> [])"
  by pat_completeness auto
termination
  by (relation "measure (\<lambda>it. length (it_start it) - it_pos it)") (auto dest: iter_next_measure)

declare field_iters.simps [simp del]

definition struct_iters :: "pb_field list \<Rightarrow> addr \<Rightarrow> pb_field_iter list" where
  "struct_iters fs dest = field_iters (snd (pb_field_iter_begin fs dest))"

text \<open>The room a decoded entry takes, and what the field takes in the struct.\<close>

definition item_room :: "pb_field \<Rightarrow> nat" where
  "item_room f =
    max (unat (f_data_size f))
      (if ltype f = PB_LTYPE_BOOL then 1 else if ltype f = PB_LTYPE_FIXED32 then 4
       else if ltype f = PB_LTYPE_FIXED64 then 8 else 0)"

definition inside :: "addr \<Rightarrow> nat \<Rightarrow> addr \<Rightarrow> nat \<Rightarrow> bool" where
  "inside dest n p k \<longleftrightarrow> unat (p - dest) + k \<le> n"

lemma inside_bytes: "inside dest n p k \<Longrightarrow> bytes_of p k \<subseteq> bytes_of dest n"
  using bytes_of_inside [of "unat (p - dest)" k n dest] by (simp add: inside_def)

definition count_room :: "pb_field_iter \<Rightarrow> nat" where
  "count_room it =
    (if htype (cur it) = PB_HTYPE_REPEATED \<or> htype (cur it) = PB_HTYPE_ONEOF then 4
     else if htype (cur it) = PB_HTYPE_OPTIONAL \<and> pSize it \<noteq> At (pData it) then 1 else 0)"

text \<open>
  A field of the struct at \<open>dest\<close> of \<open>n\<close> bytes, the messages in it being checked by
  \<open>sub\<close>: it is static, of a type the decoder knows, inside the struct with its size field, and its
  default value can be read. The size of an array has 32 bits, as its offsets have.
\<close>

definition static_field :: "(addr \<Rightarrow> addr \<Rightarrow> nat \<Rightarrow> bool) \<Rightarrow> mem \<Rightarrow> addr \<Rightarrow> nat \<Rightarrow> pb_field_iter \<Rightarrow> bool" where
  "static_field sub m dest n it \<longleftrightarrow>
    (let f = cur it;
         count = (if htype f = PB_HTYPE_REPEATED then unat (f_array_size f) else 1) in
     atype f = PB_ATYPE_STATIC \<and> ltype f \<le> PB_LTYPE_FIXED_LENGTH_BYTES \<and> ltype f \<noteq> PB_LTYPE_EXTENSION \<and>
     (htype f = PB_HTYPE_REPEATED \<longrightarrow> item_room f = unat (f_data_size f)) \<and>
     inside dest n (pData it) (count * item_room f) \<and> int (count * item_room f) < 2 ^ 32 \<and>
     (case pSize it of At p \<Rightarrow> inside dest n p (count_room it) | Fixed_count _ \<Rightarrow> htype f = PB_HTYPE_REPEATED) \<and>
     (if ltype f = PB_LTYPE_SUBMESSAGE then
        (\<forall>i \<in> set [0..<count]. sub (f_ptr f) (pData it + word_of_nat (i * unat (f_data_size f))) (unat (f_data_size f)))
      else f_ptr f \<noteq> 0 \<longrightarrow> load_bytes m (f_ptr f) (unat (f_data_size f)) \<noteq> None))"

fun static_layout :: "nat \<Rightarrow> desc_table \<Rightarrow> mem \<Rightarrow> pb_field list \<Rightarrow> addr \<Rightarrow> nat \<Rightarrow> bool" where
  "static_layout 0 D m fs dest n = False"
| "static_layout (Suc d) D m fs dest n =
    (dest \<noteq> 0 \<and> 0 < n \<and>
     (\<forall>it \<in> set (struct_iters fs dest).
       static_field (\<lambda>p dest n. case fields_at D p of None \<Rightarrow> False | Some fs \<Rightarrow> static_layout d D m fs dest n) m dest n it))"

section \<open>The iterator stays on the fields\<close>

lemma iter_next_dest [simp]: "dest_struct (snd (pb_field_iter_next it)) = dest_struct it"
  by (simp add: pb_field_iter_next_def pb_field_iter_begin_def Let_def)

lemma field_iters_refl [simp]: "it \<in> set (field_iters it)"
  by (subst field_iters.simps) simp

lemma in_field_iters:
  "j \<in> set (field_iters it) \<longleftrightarrow> j = it \<or> (\<exists>it'. pb_field_iter_next it = (True, it') \<and> j \<in> set (field_iters it'))"
  using field_iters.simps [of it] by (auto split: prod.splits bool.splits)

lemma field_iters_next: "j \<in> set (field_iters it) \<Longrightarrow> pb_field_iter_next j = (True, j') \<Longrightarrow> j' \<in> set (field_iters it)"
proof (induction it rule: field_iters.induct)
  case (1 it)
  show ?case
  proof (cases "j = it")
    case True
    then show ?thesis using "1.prems"(2) in_field_iters [of j' it] by simp
  next
    case False
    then obtain it' where it': "pb_field_iter_next it = (True, it')" "j \<in> set (field_iters it')"
      using "1.prems"(1) in_field_iters [of j it] by blast
    have "j' \<in> set (field_iters it')" using "1.IH" [OF it'(1) [symmetric] refl it'(2) "1.prems"(2)] .
    then show ?thesis using it'(1) in_field_iters [of j' it] by blast
  qed
qed

lemma field_iters_same:
  "j \<in> set (field_iters it) \<Longrightarrow> it_start j = it_start it \<and> dest_struct j = dest_struct it \<and>
    ((\<exists>p. pSize it = At p) \<longrightarrow> (\<exists>p. pSize j = At p))"
proof (induction it rule: field_iters.induct)
  case (1 it)
  show ?case
  proof (cases "j = it")
    case False
    then obtain it' where it': "pb_field_iter_next it = (True, it')" "j \<in> set (field_iters it')"
      using "1.prems" in_field_iters [of j it] by blast
    have "it_start it' = it_start it \<and> dest_struct it' = dest_struct it"
      using iter_next_start [of it] iter_next_dest [of it] it'(1) by simp
    moreover have "(\<exists>p. pSize it = At p) \<longrightarrow> (\<exists>p. pSize it' = At p)"
      using it'(1) by (auto simp: pb_field_iter_next_def pb_field_iter_begin_def Let_def split: if_splits)
    ultimately show ?thesis using "1.IH" [OF it'(1) [symmetric] refl it'(2)] by auto
  qed simp
qed

definition on_field :: "pb_field list \<Rightarrow> addr \<Rightarrow> pb_field_iter \<Rightarrow> bool" where
  "on_field fs dest it \<longleftrightarrow>
    (\<exists>it0 \<in> set (struct_iters fs dest). it = it0 \<or>
      (\<exists>c. it = it0\<lparr>pSize := Fixed_count c\<rparr> \<and> pSize it0 = At (pData it0) \<and> htype (cur it0) = PB_HTYPE_REPEATED))"

lemma on_field_begin: "on_field fs dest (snd (pb_field_iter_begin fs dest))"
  by (auto simp: on_field_def struct_iters_def)

lemma begin_same [simp]: "it_start (snd (pb_field_iter_begin fs dest)) = fs" "dest_struct (snd (pb_field_iter_begin fs dest)) = dest"
  by (simp_all add: pb_field_iter_begin_def Let_def)

lemma struct_iters_same: "it \<in> set (struct_iters fs dest) \<Longrightarrow> it_start it = fs \<and> dest_struct it = dest \<and> (\<exists>p. pSize it = At p)"
  using field_iters_same [of it "snd (pb_field_iter_begin fs dest)"]
  by (auto simp: struct_iters_def) (simp add: pb_field_iter_begin_def Let_def)

lemma struct_iters_next:
  assumes "it \<in> set (struct_iters fs dest)"
  shows "snd (pb_field_iter_next it) \<in> set (struct_iters fs dest)"
proof (cases "pb_field_iter_next it")
  case (Pair b it')
  show ?thesis
  proof (cases b)
    case True
    then show ?thesis using field_iters_next [of it] assms Pair by (simp add: struct_iters_def)
  next
    case False
    then have "it' = it \<or> it' = snd (pb_field_iter_begin fs dest)"
      using Pair struct_iters_same [OF assms] by (auto simp: pb_field_iter_next_def Let_def split: if_splits)
    then show ?thesis using Pair assms by (auto simp: struct_iters_def)
  qed
qed

lemma next_fixed_count:
  assumes "htype (cur it) \<noteq> PB_HTYPE_ONEOF" "f_tag (cur it) \<noteq> 0"
  shows "pb_field_iter_next (it\<lparr>pSize := r\<rparr>) = pb_field_iter_next it"
  using assms by (simp add: pb_field_iter_next_def Let_def cur_def)

lemma cur_pSize [simp]: "cur (it\<lparr>pSize := r\<rparr>) = cur it"
  by (simp add: cur_def)

lemma on_field_next:
  assumes "on_field fs dest it"
  shows "on_field fs dest (snd (pb_field_iter_next it))"
proof -
  obtain it0 where it0: "it0 \<in> set (struct_iters fs dest)" "it = it0 \<or>
      (\<exists>c. it = it0\<lparr>pSize := Fixed_count c\<rparr> \<and> pSize it0 = At (pData it0) \<and> htype (cur it0) = PB_HTYPE_REPEATED)"
    using assms by (auto simp: on_field_def)
  show ?thesis
  proof (cases "it = it0 \<or> f_tag (cur it0) \<noteq> 0")
    case True
    then have "pb_field_iter_next it = pb_field_iter_next it0" using it0(2) by (auto simp: next_fixed_count)
    then show ?thesis using struct_iters_next [OF it0(1)] by (auto simp: on_field_def)
  next
    case False
    then have "snd (pb_field_iter_next it) = it" using it0(2) by (auto simp: pb_field_iter_next_def Let_def)
    then show ?thesis using assms by simp
  qed
qed

lemma on_field_find: "on_field fs dest it \<Longrightarrow> on_field fs dest (snd (iter_find_loop n start wanted it))"
proof (induction n arbitrary: it)
  case 0
  then show ?case using on_field_next by (simp add: iter_find_loop.simps [of 0] Let_def)
next
  case (Suc n)
  show ?case
    using Suc.prems on_field_next [OF Suc.prems] Suc.IH [OF on_field_next [OF Suc.prems]]
    by (simp add: iter_find_loop.simps [of "Suc n"] Let_def)
qed

lemma on_field_iter_find:
  assumes "on_field fs dest it" "pb_field_iter_find it tag = (b, it')"
  shows "on_field fs dest it'"
proof -
  have "it' = snd (pb_field_iter_find it tag)" by (simp add: assms(2))
  then show ?thesis by (simp add: pb_field_iter_find_def on_field_find [OF assms(1)])
qed

section \<open>Steps that return\<close>

text \<open>What has been reached from \<open>s0\<close> and \<open>h0\<close>: the stream has been read, and only \<open>R\<close> written.\<close>

definition reached :: "addr set \<Rightarrow> 's pb_istream \<Rightarrow> heap \<Rightarrow> 's pb_istream \<Rightarrow> heap \<Rightarrow> bool" where
  "reached R s0 h0 s h \<longleftrightarrow> consumes s0 s \<and> alters R h0 h \<and> mapped h R"

definition runs :: "addr set \<Rightarrow> 's pb_istream \<Rightarrow> heap \<Rightarrow> 's dres \<Rightarrow> bool" where
  "runs R s0 h0 r \<longleftrightarrow> (\<exists>ok s h. r = Some (ok, s, h) \<and> reached R s0 h0 s h)"

lemma reached_start: "buf_ok s \<Longrightarrow> mapped h R \<Longrightarrow> reached R s h s h"
  by (simp add: reached_def consumes_refl)

lemma reached_ok: "reached R s0 h0 s h \<Longrightarrow> buf_ok s" and reached_mapped: "reached R s0 h0 s h \<Longrightarrow> mapped h R"
  by (auto simp: reached_def consumes_ok)

lemma reached_trans: "reached R s0 h0 s h \<Longrightarrow> reached R s h s' h' \<Longrightarrow> reached R s0 h0 s' h'"
  by (auto simp: reached_def intro: consumes_trans alters_trans)

lemma reached_inside: "reached R s0 h0 s h \<Longrightarrow> S \<subseteq> R \<Longrightarrow> reached S s h s' h' \<Longrightarrow> reached R s0 h0 s' h'"
  by (auto simp: reached_def alters_mapped intro: consumes_trans alters_trans alters_mono)

lemma reached_error [simp]: "reached R s0 h0 (s\<lparr>i_errmsg := e\<rparr>) h = reached R s0 h0 s h" "reached R s0 h0 (i_set_error msg s) h = reached R s0 h0 s h"
  by (simp_all add: reached_def)

lemma reached_writes: "reached R s0 h0 s h \<Longrightarrow> alters R h h' \<Longrightarrow> reached R s0 h0 s h'"
  by (auto simp: reached_def alters_mapped intro: alters_trans)

named_theorems runs_intros

lemma runs_Some [runs_intros]: "reached R s0 h0 s h \<Longrightarrow> runs R s0 h0 (Some (ok, s, h))"
  by (simp add: runs_def)

lemma runs_fail [runs_intros]: "reached R s0 h0 s h \<Longrightarrow> runs R s0 h0 (d_fail msg s h)"
  by (auto simp: runs_def d_fail_def)

lemma runs_if [runs_intros]: "(P \<Longrightarrow> runs R s0 h0 r) \<Longrightarrow> (\<not> P \<Longrightarrow> runs R s0 h0 r') \<Longrightarrow> runs R s0 h0 (if P then r else r')"
  by simp

lemma runs_store:
  assumes "reached R s0 h0 s h" "bytes_of p (length bs) \<subseteq> R" "\<And>h. reached R s0 h0 s h \<Longrightarrow> runs R s0 h0 (g h)"
  shows "runs R s0 h0 (store_then (h_store h p bs) g)"
proof -
  obtain h' where "h_store h p bs = Some h'" "alters R h h'"
    using h_store_mapped [OF reached_mapped [OF assms(1)] assms(2)] .
  then show ?thesis using assms(3) [OF reached_writes [OF assms(1)]] by simp
qed

lemma runs_store_word:
  assumes "reached R s0 h0 s h" "bytes_of p n \<subseteq> R" "\<And>h. reached R s0 h0 s h \<Longrightarrow> runs R s0 h0 (g h)"
  shows "runs R s0 h0 (store_then (h_store_word h p n v) g)"
  unfolding h_store_word_def using assms by (intro runs_store) simp_all

lemma runs_wire:
  assumes "safe_dec f" "reached R s0 h0 s h" "\<And>v s. reached R s0 h0 s h \<Longrightarrow> runs R s0 h0 (g v s h)"
  shows "runs R s0 h0 (wire_then (f s) h g)"
proof -
  obtain r s' where r: "f s = (r, s')" by (cases "f s")
  have "reached R s0 h0 s' h"
    using assms(1,2) safe_dec_consumes [OF assms(1), of s0 s] r by (simp add: reached_def)
  then show ?thesis using r assms(3) by (cases r) (simp_all add: wire_then_def runs_Some)
qed

lemma runs_read_mem:
  assumes r: "reached R s0 h0 s h" and i: "bytes_of p (unat n) \<subseteq> R"
  shows "runs R s0 h0 (pb_read_mem p n s h)"
proof (cases "bytes_left s < n")
  case True
  then have "pb_read s True n = i_fail ''end-of-stream'' s"
    using reached_ok [OF r] by (auto simp: pb_read_def pb_read_direct_def buf_ok_def)
  then show ?thesis using r by (simp add: pb_read_mem_def wire_then_def i_fail_def runs_Some)
next
  case False
  obtain bs s' where s': "pb_read s True n = (Some bs, s')" "length bs = unat n"
    using buf_pb_read [OF reached_ok [OF r], of n True] False buf_length_content [OF reached_ok [OF r]]
    by (auto simp: word_less_nat_alt)
  have "reached R s0 h0 s' h"
    using r safe_dec_consumes [OF safe_pb_read, of s0 s True n] s' by (simp add: reached_def)
  then show ?thesis using i s'(2) by (auto simp: pb_read_mem_def wire_then_def s'(1) intro!: runs_store runs_Some)
qed

lemmas runs_wires = safe_varint32 [THEN runs_wire] safe_decode_varint [THEN runs_wire] safe_svarint [THEN runs_wire]
  safe_fixed32 [THEN runs_wire] safe_fixed64 [THEN runs_wire]

section \<open>Values\<close>

lemma runs_store_int:
  assumes "reached R s0 h0 s h" "bytes_of p (unat sz) \<subseteq> R"
  shows "runs R s0 h0 (store_int sg sz p v s h)"
  unfolding store_int_def Let_def
  using assms by (auto intro!: runs_if runs_store runs_fail runs_Some)

text \<open>The entry at \<open>dest\<close>, inside what may be written.\<close>

lemma room_bytes:
  assumes "bytes_of dest (item_room f) \<subseteq> R"
  shows "bytes_of dest (unat (f_data_size f)) \<subseteq> R" "ltype f = PB_LTYPE_BOOL \<Longrightarrow> bytes_of dest 1 \<subseteq> R"
    "ltype f = PB_LTYPE_FIXED32 \<Longrightarrow> bytes_of dest 4 \<subseteq> R" "ltype f = PB_LTYPE_FIXED64 \<Longrightarrow> bytes_of dest 8 \<subseteq> R"
  by (rule subset_trans [OF bytes_of_mono assms], simp add: item_room_def)+

lemma runs_values:
  assumes r: "reached R s0 h0 s h" and room: "bytes_of dest (item_room f) \<subseteq> R"
  shows "ltype f = PB_LTYPE_BOOL \<Longrightarrow> runs R s0 h0 (pb_dec_bool f dest s h)" "runs R s0 h0 (pb_dec_varint f dest s h)"
    "runs R s0 h0 (pb_dec_uvarint f dest s h)" "runs R s0 h0 (pb_dec_svarint f dest s h)"
    "ltype f = PB_LTYPE_FIXED32 \<Longrightarrow> runs R s0 h0 (pb_dec_fixed32 f dest s h)"
    "ltype f = PB_LTYPE_FIXED64 \<Longrightarrow> runs R s0 h0 (pb_dec_fixed64 f dest s h)"
  unfolding pb_dec_bool_def pb_dec_varint_def pb_dec_uvarint_def pb_dec_svarint_def pb_dec_fixed32_def pb_dec_fixed64_def
  using room_bytes [OF room]
  by (auto intro!: runs_wires r runs_store runs_store_word runs_store_int runs_Some)

lemma runs_bytes:
  assumes r: "reached R s0 h0 s h" and room: "bytes_of dest (unat (f_data_size f)) \<subseteq> R" and a: "atype f = PB_ATYPE_STATIC"
  shows "runs R s0 h0 (pb_dec_bytes env f dest s h)"
proof -
  have sub: "bytes_of dest 4 \<subseteq> R \<and> bytes_of (dest + 4) (unat (to_u64 sz)) \<subseteq> R"
    if "\<not> to_u64 sz + 4 > data_size f" for sz :: u32
  proof -
    have "unat sz < 2 ^ LENGTH(32)" by (rule unsigned_less)
    then have "unat (to_u64 sz + 4) = unat sz + 4" by (simp add: unat_word_ariths)
    then have le: "unat sz + 4 \<le> unat (f_data_size f)"
      using that by (simp add: linorder_not_less word_le_nat_alt)
    then show ?thesis
      using subset_trans [OF bytes_of_mono room, of 4] subset_trans [OF bytes_of_inside [of 4 "unat sz" _ dest, OF _] room]
      by (simp add: add.commute)
  qed
  show ?thesis
    unfolding pb_dec_bytes_def Let_def using a sub
    by (auto simp: a intro!: runs_wires r runs_if runs_fail runs_store_word runs_read_mem
        intro: subsetD [OF conjunct1 [OF sub]] subsetD [OF conjunct2 [OF sub]])
qed

lemma runs_bind:
  assumes "runs R s0 h0 r" "\<And>ok s h. reached R s0 h0 s h \<Longrightarrow> runs R s0 h0 (f (ok, s, h))"
  shows "runs R s0 h0 (do { v \<leftarrow> r; f v })"
  using assms by (auto simp: runs_def [of _ _ _ r])

lemma runs_string:
  assumes r: "reached R s0 h0 s h" and room: "bytes_of dest (unat (f_data_size f)) \<subseteq> R" and a: "atype f = PB_ATYPE_STATIC"
  shows "runs R s0 h0 (pb_dec_string env f dest s h)"
proof -
  have sub: "bytes_of dest (unat sz) \<subseteq> R \<and> bytes_of (dest + to_u64 sz) 1 \<subseteq> R"
    if "\<not> to_u64 (sz + 1) < to_u64 sz" "\<not> to_u64 (sz + 1) > data_size f" for sz :: u32
  proof -
    have "1 + sz \<noteq> 0"
    proof
      assume "1 + sz = 0"
      then have "sz = - 1" by (simp add: eq_neg_iff_add_eq_0 add.commute)
      then show False using that(1) by (simp add: word_less_nat_alt unat_eq_zero)
    qed
    then have "unat (sz + 1) = unat sz + 1" by (simp add: unatSuc add.commute)
    then have le: "unat sz + 1 \<le> unat (f_data_size f)"
      using that(2) by (simp add: linorder_not_less word_le_nat_alt)
    have "bytes_of (dest + to_u64 sz) 1 \<subseteq> bytes_of dest (unat (f_data_size f))"
      using bytes_of_inside [of "unat sz" 1, OF le, of dest] by simp
    then show ?thesis
      using subset_trans [OF bytes_of_mono room, of "unat sz"] room le by auto
  qed
  show ?thesis
    unfolding pb_dec_string_def Let_def using a
    by (auto simp: a intro!: runs_wires r runs_if runs_fail runs_bind runs_store runs_read_mem runs_Some
        intro: subsetD [OF conjunct1 [OF sub]] subsetD [OF conjunct2 [OF sub]])
qed

lemma runs_fixed_length:
  assumes r: "reached R s0 h0 s h" and room: "bytes_of dest (unat (f_data_size f)) \<subseteq> R"
  shows "runs R s0 h0 (pb_dec_fixed_length_bytes f dest s h)"
  unfolding pb_dec_fixed_length_bytes_def using room
  by (auto intro!: runs_wires r runs_if runs_fail runs_store runs_read_mem runs_Some)

section \<open>Fields of a static struct\<close>

lemma static_field_dom: "dom m = dom m' \<Longrightarrow> static_field sub m dest n it = static_field sub m' dest n it"
  by (simp only: static_field_def load_bytes_dom)

lemma static_layout_dom: "dom m = dom m' \<Longrightarrow> static_layout d D m fs dest n = static_layout d D m' fs dest n"
proof (induction d arbitrary: fs dest n)
  case (Suc d)
  have "(\<lambda>p dest n. case fields_at D p of None \<Rightarrow> False | Some fs \<Rightarrow> static_layout d D m fs dest n) =
    (\<lambda>p dest n. case fields_at D p of None \<Rightarrow> False | Some fs \<Rightarrow> static_layout d D m' fs dest n)"
    by (intro ext) (simp add: Suc.IH [OF Suc.prems] split: option.split)
  then show ?case by (simp add: static_field_dom [OF Suc.prems])
qed simp

definition nested :: "nat \<Rightarrow> desc_table \<Rightarrow> mem \<Rightarrow> addr \<Rightarrow> addr \<Rightarrow> nat \<Rightarrow> bool" where
  "nested d D m p dest n = (case fields_at D p of None \<Rightarrow> False | Some fs \<Rightarrow> static_layout d D m fs dest n)"

abbreviation static_at :: "nat \<Rightarrow> desc_table \<Rightarrow> mem \<Rightarrow> addr \<Rightarrow> nat \<Rightarrow> pb_field_iter \<Rightarrow> bool" where
  "static_at d D m dest n it \<equiv> static_field (nested d D m) m dest n it"

lemma static_layout_Suc:
  "static_layout (Suc d) D m fs dest n \<longleftrightarrow>
    dest \<noteq> 0 \<and> 0 < n \<and> (\<forall>it \<in> set (struct_iters fs dest). static_at d D m dest n it)"
  by (simp add: nested_def [abs_def])

lemma layout_field:
  assumes "static_layout (Suc d) D m fs dest n" "on_field fs dest it"
  shows "static_at d D m dest n it"
proof -
  obtain it0 where it0: "it0 \<in> set (struct_iters fs dest)" "it = it0 \<or>
      (\<exists>c. it = it0\<lparr>pSize := Fixed_count c\<rparr> \<and> pSize it0 = At (pData it0) \<and> htype (cur it0) = PB_HTYPE_REPEATED)"
    using assms(2) by (auto simp: on_field_def)
  have f: "static_at d D m dest n it0" using assms(1) it0(1) by (simp add: static_layout_Suc del: static_layout.simps)
  show ?thesis
  proof (cases "it = it0")
    case False
    then obtain c where "it = it0\<lparr>pSize := Fixed_count c\<rparr>" "htype (cur it0) = PB_HTYPE_REPEATED" using it0(2) by blast
    then show ?thesis using f by (auto simp: static_field_def Let_def)
  qed (simp add: f)
qed

lemma static_fieldD:
  assumes "static_field sub m dest n it"
  shows "atype (cur it) = PB_ATYPE_STATIC" "ltype (cur it) \<le> PB_LTYPE_FIXED_LENGTH_BYTES" "ltype (cur it) \<noteq> PB_LTYPE_EXTENSION"
    "htype (cur it) = PB_HTYPE_REPEATED \<Longrightarrow> item_room (cur it) = unat (f_data_size (cur it))"
    "htype (cur it) \<noteq> PB_HTYPE_REPEATED \<Longrightarrow> bytes_of (pData it) (item_room (cur it)) \<subseteq> bytes_of dest n"
    "htype (cur it) = PB_HTYPE_REPEATED \<Longrightarrow>
      bytes_of (pData it) (unat (f_array_size (cur it)) * unat (f_data_size (cur it))) \<subseteq> bytes_of dest n"
    "pSize it = At p \<Longrightarrow> bytes_of p (count_room it) \<subseteq> bytes_of dest n"
    "pSize it = Fixed_count c \<Longrightarrow> htype (cur it) = PB_HTYPE_REPEATED"
    "htype (cur it) = PB_HTYPE_REPEATED \<Longrightarrow> unat (f_array_size (cur it)) * unat (f_data_size (cur it)) < 2 ^ 32"
    "ltype (cur it) \<noteq> PB_LTYPE_SUBMESSAGE \<Longrightarrow> f_ptr (cur it) \<noteq> 0 \<Longrightarrow>
      \<exists>bs. load_bytes m (f_ptr (cur it)) (unat (f_data_size (cur it))) = Some bs \<and> length bs = unat (f_data_size (cur it))"
    "ltype (cur it) = PB_LTYPE_SUBMESSAGE \<Longrightarrow> htype (cur it) \<noteq> PB_HTYPE_REPEATED \<Longrightarrow>
      sub (f_ptr (cur it)) (pData it) (unat (f_data_size (cur it)))"
    "ltype (cur it) = PB_LTYPE_SUBMESSAGE \<Longrightarrow> htype (cur it) = PB_HTYPE_REPEATED \<Longrightarrow> i < unat (f_array_size (cur it)) \<Longrightarrow>
      sub (f_ptr (cur it)) (pData it + word_of_nat (i * unat (f_data_size (cur it)))) (unat (f_data_size (cur it)))"
proof -
  show "atype (cur it) = PB_ATYPE_STATIC" "ltype (cur it) \<le> PB_LTYPE_FIXED_LENGTH_BYTES" "ltype (cur it) \<noteq> PB_LTYPE_EXTENSION"
    "htype (cur it) = PB_HTYPE_REPEATED \<Longrightarrow> item_room (cur it) = unat (f_data_size (cur it))"
    using assms by (simp_all add: static_field_def Let_def)
  have i: "inside dest n (pData it) ((if htype (cur it) = PB_HTYPE_REPEATED then unat (f_array_size (cur it)) else 1) * item_room (cur it))"
    and room: "htype (cur it) = PB_HTYPE_REPEATED \<Longrightarrow> item_room (cur it) = unat (f_data_size (cur it))"
    using assms by (simp_all add: static_field_def Let_def)
  show "htype (cur it) \<noteq> PB_HTYPE_REPEATED \<Longrightarrow> bytes_of (pData it) (item_room (cur it)) \<subseteq> bytes_of dest n"
    "htype (cur it) = PB_HTYPE_REPEATED \<Longrightarrow>
      bytes_of (pData it) (unat (f_array_size (cur it)) * unat (f_data_size (cur it))) \<subseteq> bytes_of dest n"
    using inside_bytes [OF i] room by auto
  show "htype (cur it) = PB_HTYPE_REPEATED \<Longrightarrow> unat (f_array_size (cur it)) * unat (f_data_size (cur it)) < 2 ^ 32"
    using assms of_nat_less_iff [of "unat (f_array_size (cur it)) * unat (f_data_size (cur it))" "2 ^ 32", where 'a = int]
    by (auto simp: static_field_def Let_def)
  show "pSize it = At p \<Longrightarrow> bytes_of p (count_room it) \<subseteq> bytes_of dest n"
    "pSize it = Fixed_count c \<Longrightarrow> htype (cur it) = PB_HTYPE_REPEATED"
    using assms inside_bytes [of dest n p "count_room it"] by (simp_all add: static_field_def Let_def)
  show "ltype (cur it) \<noteq> PB_LTYPE_SUBMESSAGE \<Longrightarrow> f_ptr (cur it) \<noteq> 0 \<Longrightarrow>
      \<exists>bs. load_bytes m (f_ptr (cur it)) (unat (f_data_size (cur it))) = Some bs \<and> length bs = unat (f_data_size (cur it))"
    using assms load_bytes_dom [of m] load_bytes_mapped [of "f_ptr (cur it)" "unat (f_data_size (cur it))" m]
    by (simp add: static_field_def Let_def)
  show "ltype (cur it) = PB_LTYPE_SUBMESSAGE \<Longrightarrow> htype (cur it) \<noteq> PB_HTYPE_REPEATED \<Longrightarrow>
      sub (f_ptr (cur it)) (pData it) (unat (f_data_size (cur it)))"
    "ltype (cur it) = PB_LTYPE_SUBMESSAGE \<Longrightarrow> htype (cur it) = PB_HTYPE_REPEATED \<Longrightarrow> i < unat (f_array_size (cur it)) \<Longrightarrow>
      sub (f_ptr (cur it)) (pData it + word_of_nat (i * unat (f_data_size (cur it)))) (unat (f_data_size (cur it)))"
    using assms by (simp_all add: static_field_def Let_def)
qed

section \<open>Defaults\<close>

definition updates :: "addr set \<Rightarrow> heap \<Rightarrow> heap option \<Rightarrow> bool" where
  "updates R h0 r \<longleftrightarrow> (\<exists>h. r = Some h \<and> alters R h0 h)"

lemma updates_Some: "alters R h0 h \<Longrightarrow> updates R h0 (Some h)"
  by (simp add: updates_def)

lemma updates_bind: "updates R h0 r \<Longrightarrow> (\<And>h. alters R h0 h \<Longrightarrow> updates R h0 (f h)) \<Longrightarrow> updates R h0 (do { h \<leftarrow> r; f h })"
  by (auto simp: updates_def)

lemma updates_store:
  assumes "mapped h0 R" "alters R h0 h" "bytes_of p (length bs) \<subseteq> R"
  shows "updates R h0 (h_store h p bs)"
proof -
  have "mapped h R" using assms(1,2) by (simp add: alters_mapped)
  then obtain h' where "h_store h p bs = Some h'" "alters R h h'" using h_store_mapped assms(3) by blast
  then show ?thesis using alters_trans [OF assms(2)] by (simp add: updates_def)
qed

lemma updates_store_word:
  "mapped h0 R \<Longrightarrow> alters R h0 h \<Longrightarrow> bytes_of p n \<subseteq> R \<Longrightarrow> updates R h0 (h_store_word h p n v)"
  unfolding h_store_word_def by (rule updates_store) simp_all

lemma updates_inside: "alters R h0 h \<Longrightarrow> S \<subseteq> R \<Longrightarrow> updates S h r \<Longrightarrow> updates R h0 r"
  unfolding updates_def by (metis alters_mono alters_trans)

lemma updates_each_field:
  assumes "\<And>j h. j \<in> set (field_iters it) \<Longrightarrow> alters R h0 h \<Longrightarrow> updates R h0 (f j h)" "alters R h0 h"
  shows "updates R h0 (each_field f it h)"
  using assms
proof (induction f it h rule: each_field.induct)
  case (1 f it h)
  obtain h' where h': "f it h = Some h'" "alters R h0 h'" using "1.prems"(1) [OF field_iters_refl "1.prems"(2)] by (auto simp: updates_def)
  show ?case
  proof (cases "pb_field_iter_next it")
    case (Pair b it')
    show ?thesis
    proof (cases b)
      case True
      then have "j \<in> set (field_iters it') \<Longrightarrow> j \<in> set (field_iters it)" for j
        using Pair in_field_iters [of j it] by simp
      then have "updates R h0 (each_field f it' h')"
        using "1.IH" [OF h'(1) Pair [symmetric] _ _ h'(2)] "1.prems"(1) True by blast
      then show ?thesis using h' Pair True by (subst each_field.simps) simp
    next
      case False
      then show ?thesis using h' Pair by (subst each_field.simps) (simp add: updates_Some)
    qed
  qed
qed

lemma static_at_dom: "dom m = dom m' \<Longrightarrow> static_at d D m dest n it = static_at d D m' dest n it"
proof -
  assume d: "dom m = dom m'"
  have "nested d D m = nested d D m'"
    by (intro ext) (simp add: nested_def static_layout_dom [OF d] split: option.split)
  then show ?thesis using static_field_dom [OF d] by simp
qed

lemma updates_store_size:
  assumes f: "static_at d D m dest n it" and m: "mapped h0 (bytes_of dest n)" "alters (bytes_of dest n) h0 h"
    and t: "htype (cur it) = PB_HTYPE_REPEATED \<or> htype (cur it) = PB_HTYPE_ONEOF"
  shows "\<exists>it' h'. store_ref it h v = Some (it', h') \<and> alters (bytes_of dest n) h0 h' \<and>
    (it' = it \<or> (\<exists>c c'. pSize it = Fixed_count c \<and> it' = it\<lparr>pSize := Fixed_count c'\<rparr>))"
proof (cases "pSize it")
  case (At p)
  have "bytes_of p 4 \<subseteq> bytes_of dest n" using static_fieldD(7) [OF f At] t by (auto simp: count_room_def)
  then have "updates (bytes_of dest n) h0 (h_store_word h p 4 v)" by (rule updates_store_word [OF m])
  then show ?thesis using At by (auto simp: updates_def)
qed (use m in auto)

lemma static_load_ref:
  assumes f: "static_at d D m dest n it" and m: "mapped h (bytes_of dest n)"
    and t: "htype (cur it) = PB_HTYPE_REPEATED \<or> htype (cur it) = PB_HTYPE_ONEOF"
  shows "\<exists>v. load_ref h (pSize it) = Some v"
proof (cases "pSize it")
  case (At p)
  have "bytes_of p 4 \<subseteq> bytes_of dest n" using static_fieldD(7) [OF f At] t by (auto simp: count_room_def)
  then show ?thesis using load_word_mapped [OF mapped_mono [OF m]] At by auto
qed simp

lemma updates_store_flag:
  assumes f: "static_at d D m dest n it" and m: "mapped h0 (bytes_of dest n)" "alters (bytes_of dest n) h0 h"
    and t: "htype (cur it) = PB_HTYPE_OPTIONAL" "pSize it \<noteq> At (pData it)"
  shows "updates (bytes_of dest n) h0 (store_flag it h b)"
proof (cases "pSize it")
  case (At p)
  have "bytes_of p 1 \<subseteq> bytes_of dest n" using static_fieldD(7) [OF f At] t by (auto simp: count_room_def)
  then show ?thesis using At updates_store [OF m] by auto
next
  case (Fixed_count c)
  then show ?thesis using static_fieldD(8) [OF f] t by auto
qed

lemma static_nested:
  assumes "nested d D m p dest n"
  obtains fs where "fields_at D p = Some fs" "static_layout d D m fs dest n"
  using assms by (auto simp: nested_def split: option.splits)

lemma static_data:
  assumes "static_at d D m dest n it" "htype (cur it) \<noteq> PB_HTYPE_REPEATED"
  shows "bytes_of (pData it) (unat (f_data_size (cur it))) \<subseteq> bytes_of dest n"
  by (rule room_bytes(1) [OF static_fieldD(5) [OF assms]])

lemma updates_default_field:
  assumes f: "static_at d D (h_mem h0) dest n it" and m: "mapped h0 (bytes_of dest n)" and w: "alters (bytes_of dest n) h0 h"
    and single: "\<And>fs dest n h. static_layout d D (h_mem h) fs dest n \<Longrightarrow> mapped h (bytes_of dest n) \<Longrightarrow>
      updates (bytes_of dest n) h (for_fields single fs dest h)"
  shows "updates (bytes_of dest n) h0 (set_default_body k D single it h)"
proof -
  let ?R = "bytes_of dest n" and ?f = "cur it"
  define r where "r = (if htype ?f = PB_HTYPE_OPTIONAL \<and> pSize it \<noteq> At (pData it) then
              map_option (\<lambda>h. (True, h)) (store_flag it h False)
            else if htype ?f = PB_HTYPE_REPEATED \<or> htype ?f = PB_HTYPE_ONEOF then
              map_option (\<lambda>h. (False, h)) (store_size it h 0)
            else Some (True, h))"
  have "\<exists>b h'. r = Some (b, h') \<and> alters ?R h0 h' \<and> (b \<longrightarrow> htype ?f \<noteq> PB_HTYPE_REPEATED)"
    using updates_store_flag [OF f m w, of False] updates_store_size [OF f m w, of 0] w
    by (auto simp: r_def updates_def store_size_def simp del: store_flag.simps store_ref.simps)
  then obtain b h' where r: "r = Some (b, h')" "alters ?R h0 h'" "b \<Longrightarrow> htype ?f \<noteq> PB_HTYPE_REPEATED" by blast
  have eq: "set_default_body k D single it h =
    (if b then
       (if ltype ?f = PB_LTYPE_SUBMESSAGE then do { fs \<leftarrow> fields_at D (f_ptr ?f); for_fields single fs (pData it) h' }
        else if f_ptr ?f \<noteq> 0 then
          do { bs \<leftarrow> load_bytes (h_mem h') (f_ptr ?f) (unat (f_data_size ?f)); h_store h' (pData it) bs }
        else h_store h' (pData it) (replicate (unat (f_data_size ?f)) 0))
     else Some h')"
    using static_fieldD(1,3) [OF f] r(1) by (simp add: set_default_body_def Let_def flip: r_def)
  have dom: "dom (h_mem h') = dom (h_mem h0)" using r(2) by (simp add: alters_def)
  show ?thesis
  proof (cases b)
    case False
    then show ?thesis by (simp add: eq r(2) updates_Some)
  next
    case True
    note nr = r(3) [OF True]
    note data = static_data [OF f nr]
    have f': "static_at d D (h_mem h') dest n it"
      using f static_at_dom [OF dom] by simp
    show ?thesis
    proof (cases "ltype ?f = PB_LTYPE_SUBMESSAGE")
      case sub: True
      obtain fs where fs: "fields_at D (f_ptr ?f) = Some fs" "static_layout d D (h_mem h') fs (pData it) (unat (f_data_size ?f))"
        using static_nested [OF static_fieldD(11) [OF f' sub nr]] .
      have "updates (bytes_of (pData it) (unat (f_data_size ?f))) h' (for_fields single fs (pData it) h')"
        using single [OF fs(2)] mapped_mono [OF _ data] m r(2) by (simp add: alters_mapped)
      then show ?thesis using updates_inside [OF r(2) data] fs(1) by (simp add: eq True sub)
    next
      case False
      obtain bs where "f_ptr ?f \<noteq> 0 \<Longrightarrow> load_bytes (h_mem h') (f_ptr ?f) (unat (f_data_size ?f)) = Some bs"
        "f_ptr ?f \<noteq> 0 \<Longrightarrow> length bs = unat (f_data_size ?f)"
        using static_fieldD(10) [OF f' False] by blast
      then show ?thesis using data updates_store [OF m r(2)] by (simp add: eq True False)
    qed
  qed
qed

lemma updates_defaults:
  "static_layout d D (h_mem h) fs dest n \<Longrightarrow> mapped h (bytes_of dest n) \<Longrightarrow> d \<le> k \<Longrightarrow>
    updates (bytes_of dest n) h (for_fields (pb_field_set_to_default k D) fs dest h)"
proof (induction d arbitrary: k fs dest n h)
  case (Suc d)
  obtain k' where k: "k = Suc k'" "d \<le> k'" using Suc.prems(3) by (cases k) auto
  have single: "updates (bytes_of dest n) h (for_fields (pb_field_set_to_default k' D) fs dest h)"
    if "static_layout d D (h_mem h) fs dest n" "mapped h (bytes_of dest n)" for fs dest n h
    by (rule Suc.IH [OF that k(2)])
  obtain b it where b: "pb_field_iter_begin fs dest = (b, it)" by (cases "pb_field_iter_begin fs dest")
  have "updates (bytes_of dest n) h (pb_field_set_to_default k D j h')"
    if "j \<in> set (field_iters it)" "alters (bytes_of dest n) h h'" for j h'
  proof -
    have "static_at d D (h_mem h) dest n j"
      using Suc.prems(1) that(1) b by (simp add: static_layout_Suc struct_iters_def del: static_layout.simps)
    then show ?thesis using updates_default_field [OF _ Suc.prems(2) that(2) single] by (simp add: k(1))
  qed
  then have "updates (bytes_of dest n) h (each_field (pb_field_set_to_default k D) it h)"
    by (rule updates_each_field [OF _ alters_refl])
  then show ?case by (cases b) (simp_all add: for_fields_def b updates_Some)
qed simp

section \<open>Release\<close>

lemma static_item:
  assumes f: "static_at d D m dest n it" and t: "htype (cur it) = PB_HTYPE_REPEATED" and i: "i < unat (f_array_size (cur it))"
  shows "bytes_of (pData it + word_of_nat (i * unat (f_data_size (cur it)))) (unat (f_data_size (cur it))) \<subseteq> bytes_of dest n"
proof -
  have "i * unat (f_data_size (cur it)) + unat (f_data_size (cur it)) \<le> unat (f_array_size (cur it)) * unat (f_data_size (cur it))"
    using i mult_le_mono1 [of "Suc i" "unat (f_array_size (cur it))" "unat (f_data_size (cur it))"] by (simp add: add.commute)
  then show ?thesis using bytes_of_inside static_fieldD(6) [OF f t] by blast
qed

lemma each_field_same:
  "(\<And>j. j \<in> set (field_iters it) \<Longrightarrow> f j h = Some h) \<Longrightarrow> each_field f it h = Some h"
proof (induction f it h rule: each_field.induct)
  case (1 f it h)
  have f: "f it h = Some h" using "1.prems" by simp
  show ?case
  proof (cases "pb_field_iter_next it")
    case (Pair b it')
    show ?thesis
    proof (cases b)
      case True
      then have "j \<in> set (field_iters it') \<Longrightarrow> j \<in> set (field_iters it)" for j
        using Pair in_field_iters [of j it] by simp
      then have "each_field f it' h = Some h" using "1.IH" [OF f Pair [symmetric]] "1.prems" True by blast
      then show ?thesis using f Pair True by (subst each_field.simps) simp
    next
      case False
      then show ?thesis using f Pair by (subst each_field.simps) simp
    qed
  qed
qed

lemma release_items_same:
  "(\<And>i. i < count \<Longrightarrow> rel (p + word_of_nat i * width) h = Some h) \<Longrightarrow> release_items rel width count p h = Some h"
proof (induction count arbitrary: p)
  case (Suc count)
  have "rel p h = Some h" using Suc.prems [of 0] by simp
  moreover have "release_items rel width count (p + width) h = Some h"
    using Suc.prems [of "Suc _"] by (intro Suc.IH) (simp add: algebra_simps)
  ultimately show ?case by simp
qed simp

lemma release_field_same:
  assumes f: "static_at d D (h_mem h) dest n it" and m: "mapped h (bytes_of dest n)"
    and single: "\<And>fs dest n. static_layout d D (h_mem h) fs dest n \<Longrightarrow> mapped h (bytes_of dest n) \<Longrightarrow>
      release_message single fs dest h = Some h"
  shows "release_body k D single it h = Some h"
proof -
  let ?f = "cur it"
  have rel: "release_message single fs p h = Some h"
    if "fields_at D (f_ptr ?f) = Some fs" "nested d D (h_mem h) (f_ptr ?f) p (unat (f_data_size ?f))"
      "bytes_of p (unat (f_data_size ?f)) \<subseteq> bytes_of dest n" for fs p
    using that single mapped_mono [OF m] by (simp add: nested_def)
  have one: "release_contents k D single it h = Some h" if sub: "ltype ?f = PB_LTYPE_SUBMESSAGE" and nr: "htype ?f \<noteq> PB_HTYPE_REPEATED"
  proof -
    obtain fs where fs: "fields_at D (f_ptr ?f) = Some fs" using static_nested [OF static_fieldD(11) [OF f sub nr]] .
    have "release_message single fs (pData it) h = Some h"
      by (rule rel [OF fs static_fieldD(11) [OF f sub nr] static_data [OF f nr]])
    then show ?thesis using fs sub nr static_fieldD(1) [OF f] by (simp add: release_contents_def Let_def)
  qed
  have many: "release_contents k D single it h = Some h" if sub: "ltype ?f = PB_LTYPE_SUBMESSAGE" and rep: "htype ?f = PB_HTYPE_REPEATED"
  proof -
    obtain v where v: "load_ref h (pSize it) = Some v" using static_load_ref [OF f m] rep by blast
    define c where "c = (let count = (if pSize it = At (pData it) then f_array_size ?f else v)
       in if count > f_array_size ?f then f_array_size ?f else count)"
    have c: "unat c \<le> unat (f_array_size ?f)"
      by (auto simp: c_def Let_def word_less_nat_alt)
    have items: "c > 0 \<Longrightarrow> fields_at D (f_ptr ?f) = Some fs \<Longrightarrow>
        release_items (release_message single fs) (data_size ?f) (unat c) (pData it) h = Some h" for fs
    proof (rule release_items_same)
      fix i assume fs: "fields_at D (f_ptr ?f) = Some fs" and "i < unat c"
      then have i: "i < unat (f_array_size ?f)" using c by simp
      show "release_message single fs (pData it + word_of_nat i * data_size ?f) h = Some h"
        using rel [OF fs static_fieldD(12) [OF f sub rep i] static_item [OF f rep i]] by simp
    qed
    have eq: "release_contents k D single it h =
        (if pData it \<noteq> 0 \<and> c > 0 then
           do { fs \<leftarrow> fields_at D (f_ptr ?f); release_items (release_message single fs) (data_size ?f) (unat c) (pData it) h }
         else Some h)"
      using v sub rep static_fieldD(1) [OF f]
      by (cases "pSize it = At (pData it)") (simp_all add: release_contents_def Let_def c_def)
    show ?thesis
    proof (cases "c > 0")
      case True
      then have "0 < unat (f_array_size ?f)" using c by (simp add: word_less_nat_alt)
      then obtain fs where "fields_at D (f_ptr ?f) = Some fs" using static_nested [OF static_fieldD(12) [OF f sub rep]] by blast
      then show ?thesis using items True by (simp add: eq)
    qed (simp add: eq)
  qed
  have "release_contents k D single it h = Some h"
    using one many static_fieldD(1,3) [OF f] by (cases "ltype ?f = PB_LTYPE_SUBMESSAGE") (auto simp: release_contents_def Let_def)
  moreover have "\<exists>b. (if htype ?f = PB_HTYPE_ONEOF then map_option (\<lambda>w. w = f_tag ?f) (load_ref h (pSize it)) else Some True) = Some b"
    using static_load_ref [OF f m] by auto
  ultimately show ?thesis using static_fieldD(1) [OF f] by (auto simp: release_body_def Let_def)
qed

lemma release_same:
  "static_layout d D (h_mem h) fs dest n \<Longrightarrow> mapped h (bytes_of dest n) \<Longrightarrow> d \<le> k \<Longrightarrow>
    release_message (pb_release_single_field k D) fs dest h = Some h"
proof (induction d arbitrary: k fs dest n)
  case (Suc d)
  obtain k' where k: "k = Suc k'" "d \<le> k'" using Suc.prems(3) by (cases k) auto
  have single: "release_message (pb_release_single_field k' D) fs dest h = Some h"
    if "static_layout d D (h_mem h) fs dest n" "mapped h (bytes_of dest n)" for fs dest n
    by (rule Suc.IH [OF that k(2)])
  obtain b it where b: "pb_field_iter_begin fs dest = (b, it)" by (cases "pb_field_iter_begin fs dest")
  have "pb_release_single_field k D j h = Some h" if "j \<in> set (field_iters it)" for j
  proof -
    have "static_at d D (h_mem h) dest n j"
      using Suc.prems(1) that(1) b by (simp add: static_layout_Suc struct_iters_def del: static_layout.simps)
    then show ?thesis using release_field_same [OF _ Suc.prems(2) single] by (simp add: k(1))
  qed
  then have "each_field (pb_release_single_field k D) it h = Some h" by (rule each_field_same)
  then show ?case by (cases b) (simp_all add: release_message_def for_fields_def b)
qed simp

lemma release_single_same:
  assumes "static_at d D (h_mem h) dest n it" "mapped h (bytes_of dest n)" "d < k"
  shows "pb_release_single_field k D it h = Some h"
proof -
  obtain k' where k: "k = Suc k'" "d \<le> k'" using assms(3) by (cases k) auto
  show ?thesis using release_field_same [OF assms(1,2) release_same [OF _ _ k(2)]] by (simp add: k(1))
qed

section \<open>Progress\<close>

text \<open>A value that has been decoded has taken a byte at least.\<close>

definition shortens :: "'s decoder \<Rightarrow> bool" where
  "shortens func \<longleftrightarrow> (\<forall>field dest s h s' h'. buf_ok s \<longrightarrow> func field dest s h = Some (True, s', h') \<longrightarrow>
     unat (bytes_left s') < unat (bytes_left s))"

lemma wire_then_Some:
  "wire_then r h g = Some (True, s', h') \<longleftrightarrow> (\<exists>v s. r = (Some v, s) \<and> g v s h = Some (True, s', h'))"
  by (auto simp: wire_then_def split: prod.splits option.splits)

lemma store_then_Some: "store_then r (\<lambda>h. Some (True, s, h)) = Some (True, s', h') \<longleftrightarrow> s' = s \<and> r = Some h'"
  by (cases r) auto

lemma store_int_stream: "store_int sg sz dest v s h = Some (True, s', h') \<Longrightarrow> s' = s"
  by (auto simp: store_int_def store_then_def d_fail_def Let_def split: if_splits option.splits)

lemma varint_shorter:
  assumes "buf_ok s" "pb_decode_varint s = (Some v, t)"
  shows "unat (bytes_left t) < unat (bytes_left s)"
proof -
  obtain b s1 where b: "pb_readbyte s = (Some b, s1)"
    using assms(2) by (auto simp: pb_decode_varint_def varint64_loop.simps [of s] split: prod.splits option.splits)
  have t: "varint64_loop s1 7 (to_u64 (b AND 0x7F)) = (Some v, t) \<or> t = s1"
    using assms(2) b by (auto simp: pb_decode_varint_def varint64_loop.simps [of s] Let_def split: if_splits)
  have ok: "buf_ok s1" using safe_decD [OF safe_readbyte assms(1) b] by simp
  have "unat (bytes_left t) \<le> unat (bytes_left s1)"
    using t reads_left [OF safe_varint64_loop [OF ok, of 7 "to_u64 (b AND 0x7F)"]] by auto
  then show ?thesis using pb_readbyte_less [OF b] by simp
qed

lemma read_shorter:
  assumes "buf_ok s" "pb_read s True n = (Some bs, t)" "n \<noteq> 0"
  shows "unat (bytes_left t) < unat (bytes_left s)"
proof -
  have le: "unat n \<le> unat (bytes_left s)"
    using assms by (auto simp: pb_read_def pb_read_direct_def i_fail_def buf_ok_def word_le_nat_alt linorder_not_less split: if_splits)
  then have "t = buf_adv (unat n) s" using buf_pb_read [OF assms(1) le, of True] assms(2) by simp
  moreover have "0 < unat n" using assms(3) by (simp add: unat_gt_0)
  ultimately show ?thesis using le by (simp add: buf_adv_def unat_sub word_le_nat_alt)
qed

lemma shortens_values:
  "shortens pb_dec_bool" "shortens pb_dec_varint" "shortens pb_dec_uvarint" "shortens pb_dec_svarint"
  "shortens pb_dec_fixed32" "shortens pb_dec_fixed64"
proof -
  show "shortens pb_dec_bool"
    by (auto simp: shortens_def pb_dec_bool_def wire_then_Some store_then_Some dest: varint32_shorter)
  show "shortens pb_dec_varint"
    by (auto simp: shortens_def pb_dec_varint_def wire_then_Some dest!: store_int_stream dest: varint_shorter)
  show "shortens pb_dec_uvarint"
    by (auto simp: shortens_def pb_dec_uvarint_def wire_then_Some dest!: store_int_stream dest: varint_shorter)
  show "shortens pb_dec_svarint"
    by (auto simp: shortens_def pb_dec_svarint_def pb_decode_svarint_def wire_then_Some
        dest!: store_int_stream dest: varint_shorter split: prod.splits option.splits)
  show "shortens pb_dec_fixed32"
    by (auto simp: shortens_def pb_dec_fixed32_def pb_decode_fixed32_def wire_then_Some store_then_Some
        dest: read_shorter split: prod.splits option.splits)
  show "shortens pb_dec_fixed64"
    by (auto simp: shortens_def pb_dec_fixed64_def pb_decode_fixed64_def wire_then_Some store_then_Some
        dest: read_shorter split: prod.splits option.splits)
qed

lemma tag_shorter:
  assumes "buf_ok s" "pb_decode_tag s = (Some (wt, tag), e, t)"
  shows "unat (bytes_left t) < unat (bytes_left s)" "tag < 0x20000000"
proof -
  obtain x f where x: "pb_decode_varint32_eof s (Some False) = (Some x, f, t)" and tag: "tag = drop_bit 3 x"
    using assms(2) by (auto simp: pb_decode_tag_def split: prod.splits option.splits if_splits)
  obtain b s1 where b: "pb_readbyte s = (Some b, s1)"
    using x by (auto simp: pb_decode_varint32_eof_def split: prod.splits option.splits)
  have lt: "unat (bytes_left s1) < unat (bytes_left s)" by (rule pb_readbyte_less [OF b])
  have ok: "buf_ok s1" using safe_decD [OF safe_readbyte assms(1) b] by simp
  have "t = s1 \<or> t = snd (varint32_loop s1 7 (to_u32 (b AND 0x7F)))"
    using x b by (auto simp: pb_decode_varint32_eof_def split: prod.splits if_splits)
  then have "unat (bytes_left t) \<le> unat (bytes_left s1)"
    using reads_left [OF safe_varint32_loop [OF ok]] by auto
  then show "unat (bytes_left t) < unat (bytes_left s)" using lt by simp
  have "unat tag = unat x div 8" by (simp add: tag drop_bit_eq_div unat_div)
  moreover have "unat x < 2 ^ LENGTH(32)" by (rule unsigned_less)
  ultimately show "tag < 0x20000000" by (simp add: word_less_nat_alt)
qed

section \<open>Entries\<close>

definition decodes :: "nat \<Rightarrow> 's dec_env \<Rightarrow> 's msg_decoder \<Rightarrow> bool" where
  "decodes d env dec \<longleftrightarrow>
    (\<forall>fs dest n s h. static_layout d (d_fields env) (h_mem h) fs dest n \<longrightarrow> mapped h (bytes_of dest n) \<longrightarrow> buf_ok s \<longrightarrow>
      runs (bytes_of dest n) s h (dec fs dest s h))"

text \<open>What the decoder of an entry asks of the place it writes to.\<close>

definition entry_at :: "nat \<Rightarrow> desc_table \<Rightarrow> mem \<Rightarrow> addr set \<Rightarrow> pb_field \<Rightarrow> addr \<Rightarrow> bool" where
  "entry_at d D m R f p \<longleftrightarrow> bytes_of p (item_room f) \<subseteq> R \<and> atype f = PB_ATYPE_STATIC \<and>
    (ltype f = PB_LTYPE_SUBMESSAGE \<longrightarrow> nested d D m (f_ptr f) p (unat (f_data_size f)))"

lemma runs_outer:
  assumes "runs S s h r" "reached R s0 h0 s h" "S \<subseteq> R"
  shows "runs R s0 h0 r"
proof -
  obtain ok s' h' where r: "r = Some (ok, s', h')" "reached S s h s' h'" using assms(1) by (auto simp: runs_def)
  show ?thesis unfolding r(1) by (rule runs_Some [OF reached_inside [OF assms(2,3) r(2)]])
qed

lemma runs_submessage:
  assumes i: "decodes d env init" and n: "decodes d env noinit" and r: "reached R s0 h0 s h"
    and e: "entry_at d (d_fields env) (h_mem h) R f p" "ltype f = PB_LTYPE_SUBMESSAGE"
  shows "runs R s0 h0 (pb_dec_submessage env init noinit f p s h)"
proof (cases "pb_make_string_substream s")
  case (Pair o1 s1)
  note c = consumes_ok [of s0 s]
  have cs: "consumes s0 s" and w: "alters R h0 h" "mapped h R" using r by (auto simp: reached_def)
  have r1: "reached R s0 h0 s1 h" using make_substream_consumes [OF cs Pair] w by (simp add: reached_def)
  show ?thesis
  proof (cases o1)
    case None
    then show ?thesis using Pair r1 by (simp add: pb_dec_submessage_def runs_Some)
  next
    case (Some sub)
    have mk: "pb_make_string_substream s = (Some sub, s1)" using Pair Some by simp
    have sub: "buf_ok sub" by (rule make_substream(1) [OF consumes_ok [OF cs] mk])
    let ?S = "bytes_of p (unat (f_data_size f))"
    have S: "?S \<subseteq> R" using e(1) room_bytes(1) by (auto simp: entry_at_def)
    obtain fs where fs: "fields_at (d_fields env) (f_ptr f) = Some fs"
      "static_layout d (d_fields env) (h_mem h) fs p (unat (f_data_size f))"
      using e static_nested [of d "d_fields env" "h_mem h" "f_ptr f" p] by (auto simp: entry_at_def)
    have p: "f_ptr f \<noteq> 0" using fs(1) by (auto simp: fields_at_def)
    have "runs ?S sub h (if htype f = PB_HTYPE_REPEATED then init fs p sub h else noinit fs p sub h)"
      using i n fs(2) sub mapped_mono [OF w(2) S] by (auto simp: decodes_def)
    then obtain ok sub' h' where dec: "(if htype f = PB_HTYPE_REPEATED then init fs p sub h else noinit fs p sub h) = Some (ok, sub', h')"
      and r': "reached ?S sub h sub' h'" by (auto simp: runs_def)
    obtain s2 where s2: "pb_close_string_substream s1 sub' = (Some (), s2)" "consumes s0 s2"
      using close_substream_consumes [OF cs mk, of sub' "i_errmsg s1"] r' by (auto simp: reached_def)
    have "reached R s0 h0 s2 h'"
      using s2(2) w r' alters_mono [OF _ S] alters_trans [OF w(1)] by (auto simp: reached_def alters_mapped)
    then show ?thesis using mk p fs(1) dec s2(1) by (simp add: pb_dec_submessage_def wire_then_def runs_Some)
  qed
qed

lemma runs_entry:
  assumes i: "decodes d env init" and n: "decodes d env noinit" and r: "reached R s0 h0 s h"
    and e: "entry_at d (d_fields env) (h_mem h) R f p" and t: "PB_DECODERS env init noinit (ltype f) = Some func"
    and x: "ltype f \<noteq> PB_LTYPE_EXTENSION"
  shows "runs R s0 h0 (func f p s h)"
proof -
  have room: "bytes_of p (item_room f) \<subseteq> R" and a: "atype f = PB_ATYPE_STATIC" using e by (auto simp: entry_at_def)
  show ?thesis
    using t x runs_values [OF r room] runs_bytes [OF r room_bytes(1) [OF room] a] runs_string [OF r room_bytes(1) [OF room] a]
      runs_fixed_length [OF r room_bytes(1) [OF room]] runs_submessage [OF i n r e]
    by (auto simp: PB_DECODERS_def split: if_splits)
qed

lemma known_decoder:
  assumes "static_at d D m dest n it"
  obtains func where "PB_DECODERS env init noinit (ltype (cur it)) = Some func"
proof -
  define t where "t = ltype (cur it)"
  have "unat t \<le> 10" using static_fieldD(2) [OF assms] by (simp add: t_def word_le_nat_alt)
  then have "unat t \<in> {0, 1, 2, 3, 4, 5, 6, 7, 8, 9, 10}" by (simp, arith)
  then have "t \<in> {0, 1, 2, 3, 4, 5, 6, 7, 8, 9, 10}" by (auto simp: word_unat_eq_iff)
  then have "\<exists>func. PB_DECODERS env init noinit t = Some func" by (auto simp: PB_DECODERS_def)
  then show thesis using that t_def by blast
qed

lemma entry_single:
  assumes "static_at d D m dest n it" "htype (cur it) \<noteq> PB_HTYPE_REPEATED"
  shows "entry_at d D m (bytes_of dest n) (cur it) (pData it)"
  using static_fieldD(1,5,11) [OF assms(1)] assms(2) by (simp add: entry_at_def)

lemma entry_item:
  assumes f: "static_at d D m dest n it" and t: "htype (cur it) = PB_HTYPE_REPEATED" and i: "i < f_array_size (cur it)"
  shows "entry_at d D m (bytes_of dest n) (cur it) (pData it + item_offset (cur it) i)"
proof -
  have i': "unat i < unat (f_array_size (cur it))" using i by (simp add: word_less_nat_alt)
  have "unat i * unat (f_data_size (cur it)) \<le> unat (f_array_size (cur it)) * unat (f_data_size (cur it))"
    using i' by (intro mult_le_mono1) simp
  then have lt: "unat (f_data_size (cur it)) * unat i < 2 ^ 32"
    using static_fieldD(9) [OF f t] by (simp only: mult.commute [of "unat (f_data_size _)"])
  then have "unat (f_data_size (cur it) * i) = unat (f_data_size (cur it)) * unat i" by (simp add: unat_word_ariths)
  then have "item_offset (cur it) i = word_of_nat (unat i * unat (f_data_size (cur it)))"
    by (simp add: item_offset_def word_unat_eq_iff unat_ucast_wider mult.commute unat_word_ariths)
  then show ?thesis
    using static_fieldD(1,4) [OF f] static_fieldD(12) [OF f _ t i'] t static_item [OF f t i'] by (simp add: entry_at_def)
qed

section \<open>Fields\<close>

definition field_runs :: "pb_field list \<Rightarrow> addr \<Rightarrow> nat \<Rightarrow> 's pb_istream \<Rightarrow> heap \<Rightarrow> 's fres \<Rightarrow> bool" where
  "field_runs fs dest n s0 h0 r \<longleftrightarrow>
    (\<exists>ok s h it. r = Some (ok, s, h, it) \<and> reached (bytes_of dest n) s0 h0 s h \<and> on_field fs dest it)"

lemma field_runs_Some:
  "reached (bytes_of dest n) s0 h0 s h \<Longrightarrow> on_field fs dest it \<Longrightarrow> field_runs fs dest n s0 h0 (Some (ok, s, h, it))"
  by (simp add: field_runs_def)

lemma field_runs_fail:
  "reached (bytes_of dest n) s0 h0 s h \<Longrightarrow> on_field fs dest it \<Longrightarrow> field_runs fs dest n s0 h0 (f_fail msg s h it)"
  by (auto simp: field_runs_def f_fail_def)

lemma field_runs_if:
  "(P \<Longrightarrow> field_runs fs dest n s0 h0 r) \<Longrightarrow> (\<not> P \<Longrightarrow> field_runs fs dest n s0 h0 r') \<Longrightarrow>
    field_runs fs dest n s0 h0 (if P then r else r')"
  by simp

lemma field_runs_iter:
  "runs (bytes_of dest n) s0 h0 r \<Longrightarrow> on_field fs dest it \<Longrightarrow> field_runs fs dest n s0 h0 (with_iter it r)"
  by (auto simp: field_runs_def runs_def with_iter_def)

text \<open>What is known of a field when it is decoded.\<close>

lemma reached_static:
  assumes "static_layout (Suc d) D (h_mem h0) fs dest n" "reached (bytes_of dest n) s0 h0 s h" "on_field fs dest it"
  shows "static_at d D (h_mem h) dest n it"
proof -
  have "dom (h_mem h) = dom (h_mem h0)" using assms(2) by (simp add: reached_def alters_def)
  then show ?thesis using layout_field [OF assms(1,3)] static_at_dom by blast
qed

lemma on_field_count: "on_field fs dest it \<Longrightarrow> pSize it = Fixed_count c \<Longrightarrow> on_field fs dest (it\<lparr>pSize := Fixed_count c'\<rparr>)"
proof -
  assume "on_field fs dest it" and c: "pSize it = Fixed_count c"
  then obtain it0 where it0: "it0 \<in> set (struct_iters fs dest)" "it = it0 \<or>
      (\<exists>c. it = it0\<lparr>pSize := Fixed_count c\<rparr> \<and> pSize it0 = At (pData it0) \<and> htype (cur it0) = PB_HTYPE_REPEATED)"
    by (auto simp: on_field_def)
  moreover have "it \<noteq> it0" using struct_iters_same [OF it0(1)] c by auto
  ultimately have "it\<lparr>pSize := Fixed_count c'\<rparr> = it0\<lparr>pSize := Fixed_count c'\<rparr>" "pSize it0 = At (pData it0)"
    "htype (cur it0) = PB_HTYPE_REPEATED" by auto
  then show "on_field fs dest (it\<lparr>pSize := Fixed_count c'\<rparr>)" using it0(1) unfolding on_field_def by blast
qed

lemma reached_store_ref:
  assumes l: "static_layout (Suc d) D (h_mem h0) fs dest n" and r: "reached (bytes_of dest n) s0 h0 s h" and o: "on_field fs dest it"
    and t: "htype (cur it) = PB_HTYPE_REPEATED \<or> htype (cur it) = PB_HTYPE_ONEOF"
  obtains it' h' where "store_ref it h v = Some (it', h')" "reached (bytes_of dest n) s0 h0 s h'" "on_field fs dest it'"
    "cur it' = cur it" "pData it' = pData it"
proof -
  obtain it' h' where s: "store_ref it h v = Some (it', h')" "alters (bytes_of dest n) h h'"
      "it' = it \<or> (\<exists>c c'. pSize it = Fixed_count c \<and> it' = it\<lparr>pSize := Fixed_count c'\<rparr>)"
    using updates_store_size [OF reached_static [OF l r o] reached_mapped [OF r] alters_refl t, of v] by blast
  have "on_field fs dest it'" using s(3) o on_field_count by blast
  then show thesis using that [OF s(1) reached_writes [OF r s(2)]] s(3) by auto
qed

lemma reached_load_ref:
  assumes "static_layout (Suc d) D (h_mem h0) fs dest n" "reached (bytes_of dest n) s0 h0 s h" "on_field fs dest it"
    "htype (cur it) = PB_HTYPE_REPEATED \<or> htype (cur it) = PB_HTYPE_ONEOF"
  obtains v where "load_ref h (pSize it) = Some v"
  using static_load_ref [OF reached_static [OF assms(1-3)] reached_mapped [OF assms(2)] assms(4)] by blast

text \<open>The loop over a packed array: its fuel, a round for each byte, is enough.\<close>

lemma runs_packed:
  assumes l: "static_layout (Suc d) D (h_mem h0) fs dest n" and t: "htype (cur it) = PB_HTYPE_REPEATED" and sh: "shortens func"
    and f: "\<And>i s h. reached (bytes_of dest n) s0 h0 s h \<Longrightarrow> i < f_array_size (cur it) \<Longrightarrow>
      runs (bytes_of dest n) s0 h0 (func (cur it) (pData it + item_offset (cur it) i) s h)"
  shows "unat (bytes_left sub) \<le> k \<Longrightarrow> reached (bytes_of dest n) s0 h0 sub h \<Longrightarrow> on_field fs dest it \<Longrightarrow>
    field_runs fs dest n s0 h0 (packed_static_loop k func it sub h)"
  using t f
proof (induction k arbitrary: it sub h)
  case 0
  obtain v where "load_ref h (pSize it) = Some v" using reached_load_ref [OF l "0.prems"(2,3)] "0.prems"(4) by blast
  moreover have "bytes_left sub = 0" using "0.prems"(1) by (simp add: unat_eq_zero)
  ultimately show ?case using "0.prems"(2,3) by (subst packed_static_loop.simps) (simp add: field_runs_Some)
next
  case (Suc k)
  note r = Suc.prems(2) and o = Suc.prems(3) and t = Suc.prems(4)
  obtain i where i: "load_ref h (pSize it) = Some i" using reached_load_ref [OF l r o] t by blast
  show ?case
  proof (cases "bytes_left sub > 0 \<and> i < f_array_size (cur it)")
    case False
    then show ?thesis using i r o by (subst packed_static_loop.simps) (auto simp: field_runs_Some)
  next
    case True
    have "runs (bytes_of dest n) s0 h0 (func (cur it) (pData it + item_offset (cur it) i) sub h)" using Suc.prems(5) r True by blast
    then obtain ok sub' h' where dec: "func (cur it) (pData it + item_offset (cur it) i) sub h = Some (ok, sub', h')"
      and r': "reached (bytes_of dest n) s0 h0 sub' h'" by (auto simp: runs_def)
    show ?thesis
    proof (cases ok)
      case False
      then show ?thesis using True i dec r' o by (subst packed_static_loop.simps) (simp add: field_runs_Some)
    next
      case ok: True
      have "unat (bytes_left sub') \<le> k"
        using sh dec ok reached_ok [OF r] Suc.prems(1) unfolding shortens_def by fastforce
      moreover obtain j where j: "load_ref h' (pSize it) = Some j" using reached_load_ref [OF l r' o] t by blast
      moreover obtain it' h'' where s: "store_ref it h' (j + 1) = Some (it', h'')" "reached (bytes_of dest n) s0 h0 sub' h''"
        "on_field fs dest it'" "cur it' = cur it" "pData it' = pData it"
        using reached_store_ref [OF l r' o] t by blast
      ultimately have "field_runs fs dest n s0 h0 (packed_static_loop k func it' sub' h'')"
        using Suc.IH [of sub' h'' it'] t Suc.prems(5) by simp
      then show ?thesis using True ok i dec j s(1) by (subst packed_static_loop.simps) simp
    qed
  qed
qed

lemma runs_decode_packed:
  assumes l: "static_layout (Suc d) D (h_mem h0) fs dest n" and r: "reached (bytes_of dest n) s0 h0 s h" and o: "on_field fs dest it"
    and t: "htype (cur it) = PB_HTYPE_REPEATED" and sh: "shortens func"
    and f: "\<And>i s s1 h h1. reached (bytes_of dest n) s1 h1 s h \<Longrightarrow> dom (h_mem h) = dom (h_mem h0) \<Longrightarrow> i < f_array_size (cur it) \<Longrightarrow>
      runs (bytes_of dest n) s1 h1 (func (cur it) (pData it + item_offset (cur it) i) s h)"
  shows "field_runs fs dest n s0 h0 (decode_packed_static func s h it)"
proof (cases "pb_make_string_substream s")
  case (Pair o1 s1)
  have cs: "consumes s0 s" and w: "alters (bytes_of dest n) h0 h" "mapped h (bytes_of dest n)" using r by (auto simp: reached_def)
  have r1: "reached (bytes_of dest n) s0 h0 s1 h" using make_substream_consumes [OF cs Pair] w by (simp add: reached_def)
  show ?thesis
  proof (cases o1)
    case None
    then show ?thesis using Pair r1 o by (simp add: decode_packed_static_def field_runs_Some)
  next
    case (Some sub)
    have mk: "pb_make_string_substream s = (Some sub, s1)" using Pair Some by simp
    have dom: "dom (h_mem h) = dom (h_mem h0)" using w(1) by (simp add: alters_def)
    have sub: "reached (bytes_of dest n) sub h sub h"
      using make_substream(1) [OF consumes_ok [OF cs] mk] w(2) by (rule reached_start)
    have "field_runs fs dest n sub h (packed_static_loop (unat (bytes_left sub)) func it sub h)"
    proof (rule runs_packed [OF _ t sh])
      show "static_layout (Suc d) D (h_mem h) fs dest n" using l static_layout_dom [OF dom] by blast
      fix i s' h' assume a: "reached (bytes_of dest n) sub h s' h'" "i < f_array_size (cur it)"
      have "dom (h_mem h') = dom (h_mem h0)" using a(1) dom by (simp add: reached_def alters_def)
      then show "runs (bytes_of dest n) sub h (func (cur it) (pData it + item_offset (cur it) i) s' h')" by (rule f [OF a(1) _ a(2)])
    qed (use sub o in simp_all)
    then obtain ok sub' h' it' where loop: "packed_static_loop (unat (bytes_left sub)) func it sub h = Some (ok, sub', h', it')"
      and r': "reached (bytes_of dest n) sub h sub' h'" and o': "on_field fs dest it'" by (auto simp: field_runs_def)
    have w': "alters (bytes_of dest n) h0 h'" "mapped h' (bytes_of dest n)" using r' w by (auto simp: reached_def intro: alters_trans)
    obtain s2 where s2: "pb_close_string_substream s1 sub' = (Some (), s2)" "consumes s0 s2"
      using close_substream_consumes [OF cs mk, of sub' "i_errmsg s1"] r' by (auto simp: reached_def)
    show ?thesis
      using mk loop s2 r1 o' w'
      by (auto simp: decode_packed_static_def reached_def intro!: field_runs_Some field_runs_fail)
  qed
qed

lemma shortens_packable:
  assumes "PB_DECODERS env init noinit t = Some func" "t \<le> PB_LTYPE_LAST_PACKABLE"
  shows "shortens func"
proof -
  have "unat t \<le> 5" using assms(2) by (simp add: word_le_nat_alt)
  then have "unat t \<in> {0, 1, 2, 3, 4, 5}" by (simp, arith)
  then have "t \<in> {0, 1, 2, 3, 4, 5}" by (auto simp: word_unat_eq_iff)
  then show ?thesis using assms(1) shortens_values by (auto simp: PB_DECODERS_def)
qed

lemma reached_update:
  assumes "reached R s0 h0 s h" "updates R h r"
  obtains h' where "r = Some h'" "reached R s0 h0 s h'"
  using assms(2) reached_writes [OF assms(1)] by (auto simp: updates_def)

text \<open>A message in a union is cleared when it becomes the current one.\<close>

lemma updates_clear_nested:
  assumes f: "static_at d (d_fields env) (h_mem h) dest n it" and m: "mapped h (bytes_of dest n)" and d: "d \<le> d_depth env"
    and sub: "ltype (cur it) = PB_LTYPE_SUBMESSAGE" and nr: "htype (cur it) \<noteq> PB_HTYPE_REPEATED"
  shows "updates (bytes_of dest n) h
    (do { h \<leftarrow> h_store h (pData it) (replicate (unat (f_data_size (cur it))) 0);
          fs \<leftarrow> fields_at (d_fields env) (f_ptr (cur it));
          pb_message_set_to_defaults env fs (pData it) h })"
proof (rule updates_bind)
  note data = static_data [OF f nr]
  show "updates (bytes_of dest n) h (h_store h (pData it) (replicate (unat (f_data_size (cur it))) 0))"
    by (rule updates_store [OF m alters_refl]) (simp add: data)
  fix h' assume w: "alters (bytes_of dest n) h h'"
  have dom: "dom (h_mem h') = dom (h_mem h)" using w by (simp add: alters_def)
  have f': "static_at d (d_fields env) (h_mem h') dest n it" using f static_at_dom [OF dom] by simp
  obtain fs where fs: "fields_at (d_fields env) (f_ptr (cur it)) = Some fs"
    "static_layout d (d_fields env) (h_mem h') fs (pData it) (unat (f_data_size (cur it)))"
    using static_nested [OF static_fieldD(11) [OF f' sub nr]] .
  have "updates (bytes_of (pData it) (unat (f_data_size (cur it)))) h' (pb_message_set_to_defaults env fs (pData it) h')"
    unfolding pb_message_set_to_defaults_def
    using updates_defaults [OF fs(2) _ d] mapped_mono [OF m data] w by (simp add: alters_mapped)
  then show "updates (bytes_of dest n) h (do { fs \<leftarrow> fields_at (d_fields env) (f_ptr (cur it));
          pb_message_set_to_defaults env fs (pData it) h' })"
    using updates_inside [OF w data] fs(1) by simp
qed

lemma runs_static_field:
  assumes l: "static_layout (Suc d) (d_fields env) (h_mem h0) fs dest n" and d: "d \<le> d_depth env"
    and i: "decodes d env init" and ni: "decodes d env noinit"
    and r: "reached (bytes_of dest n) s0 h0 s h" and o: "on_field fs dest it"
  shows "field_runs fs dest n s0 h0 (decode_static_field env (PB_DECODERS env init noinit) wt s h it)"
proof -
  let ?f = "cur it" and ?R = "bytes_of dest n"
  note f = reached_static [OF l r o]
  obtain func where func: "PB_DECODERS env init noinit (ltype ?f) = Some func" using known_decoder [OF f] .
  have entry: "field_runs fs dest n s0 h0 (with_iter it' (func ?f p s h))"
    if "reached ?R s0 h0 s h" "on_field fs dest it'" "entry_at d (d_fields env) (h_mem h) ?R ?f p" for it' p h s
    by (rule field_runs_iter [OF runs_entry [OF i ni that(1,3) func static_fieldD(3) [OF f]] that(2)])
  consider (req) "htype ?f = PB_HTYPE_REQUIRED" | (opt) "htype ?f = PB_HTYPE_OPTIONAL" | (rep) "htype ?f = PB_HTYPE_REPEATED"
    | (oneof) "htype ?f = PB_HTYPE_ONEOF" | (other) "htype ?f \<notin> {PB_HTYPE_REQUIRED, PB_HTYPE_OPTIONAL, PB_HTYPE_REPEATED, PB_HTYPE_ONEOF}"
    by blast
  then show ?thesis
  proof cases
    case req
    then show ?thesis using func entry [OF r o entry_single [OF f]] by (simp add: decode_static_field_def Let_def)
  next
    case opt
    have "updates ?R h (if pSize it \<noteq> At (pData it) then store_flag it h True else Some h)"
      using updates_store_flag [OF f reached_mapped [OF r] alters_refl opt] by (simp add: updates_Some del: store_flag.simps)
    then obtain h' where h': "(if pSize it \<noteq> At (pData it) then store_flag it h True else Some h) = Some h'" "reached ?R s0 h0 s h'"
      using reached_update [OF r] by blast
    have "entry_at d (d_fields env) (h_mem h') ?R ?f (pData it)"
      using entry_single [OF reached_static [OF l h'(2) o]] opt by simp
    then show ?thesis using func entry [OF h'(2) o] h'(1) opt by (simp add: decode_static_field_def Let_def del: store_flag.simps)
  next
    case rep
    show ?thesis
    proof (cases "wt = PB_WT_STRING \<and> ltype ?f \<le> PB_LTYPE_LAST_PACKABLE")
      case True
      have "field_runs fs dest n s0 h0 (decode_packed_static func s h it)"
      proof (rule runs_decode_packed [OF l r o rep])
        show "shortens func" using shortens_packable [OF func] True by blast
        fix j h1 h2 and s1 s2 :: "'a pb_istream"
        assume a: "reached ?R s1 h1 s2 h2" "dom (h_mem h2) = dom (h_mem h0)" "j < f_array_size ?f"
        have "static_at d (d_fields env) (h_mem h2) dest n it" using layout_field [OF l o] static_at_dom [OF a(2)] by simp
        then have "entry_at d (d_fields env) (h_mem h2) ?R ?f (pData it + item_offset ?f j)" by (rule entry_item [OF _ rep a(3)])
        then show "runs ?R s1 h1 (func ?f (pData it + item_offset ?f j) s2 h2)"
          by (rule runs_entry [OF i ni a(1) _ func static_fieldD(3) [OF f]])
      qed
      then show ?thesis using func rep True by (simp add: decode_static_field_def Let_def)
    next
      case False
      obtain v where v: "load_ref h (pSize it) = Some v" using reached_load_ref [OF l r o] rep by blast
      obtain it' h' where s: "store_ref it h (v + 1) = Some (it', h')" "reached ?R s0 h0 s h'" "on_field fs dest it'"
        "cur it' = cur it" "pData it' = pData it"
        using reached_store_ref [OF l r o] rep by blast
      have "field_runs fs dest n s0 h0 (with_iter it' (func ?f (pData it' + item_offset ?f v) s h'))" if "v < f_array_size ?f"
        using entry [OF s(2,3)] entry_item [OF reached_static [OF l s(2,3)]] s(4,5) rep that by simp
      then have "field_runs fs dest n s0 h0
          (if v \<ge> f_array_size ?f then f_fail ''array overflow'' s h' it'
           else with_iter it' (func ?f (pData it' + item_offset ?f v) s h'))"
        by (auto intro!: field_runs_fail s simp: linorder_not_le)
      then show ?thesis using func rep False v s(1,5)
        by (cases "wt = PB_WT_STRING") (simp_all add: decode_static_field_def Let_def del: store_ref.simps)
    qed
  next
    case oneof
    obtain v where v: "load_ref h (pSize it) = Some v" using reached_load_ref [OF l r o] oneof by blast
    let ?clear = "if ltype ?f = PB_LTYPE_SUBMESSAGE \<and> v \<noteq> f_tag ?f then
                  do { h \<leftarrow> h_store h (pData it) (replicate (unat (f_data_size ?f)) 0);
                       fs \<leftarrow> fields_at (d_fields env) (f_ptr ?f);
                       pb_message_set_to_defaults env fs (pData it) h }
                else Some h"
    have "updates ?R h ?clear"
      using updates_clear_nested [OF f reached_mapped [OF r] d] oneof by (simp add: updates_Some)
    then obtain h1 where h1: "?clear = Some h1" "reached ?R s0 h0 s h1" using reached_update [OF r] by blast
    obtain it' h2 where s: "store_ref it h1 (f_tag ?f) = Some (it', h2)" "reached ?R s0 h0 s h2" "on_field fs dest it'"
        "cur it' = cur it" "pData it' = pData it"
      using reached_store_ref [OF l h1(2) o] oneof by blast
    have "field_runs fs dest n s0 h0 (with_iter it' (func ?f (pData it') s h2))"
      using entry [OF s(2,3)] entry_single [OF reached_static [OF l s(2,3)]] s(4) oneof by simp
    moreover have "decode_static_field env (PB_DECODERS env init noinit) wt s h it = with_iter it' (func ?f (pData it') s h2)"
      unfolding decode_static_field_def Let_def func bind.bind_lunit v h1(1) s(1) using oneof s(5) by simp
    ultimately show ?thesis by simp
  next
    case other
    then show ?thesis using func field_runs_fail [OF r o] by (simp add: decode_static_field_def Let_def)
  qed
qed

lemma runs_release_union:
  assumes l: "static_layout (Suc d) (d_fields env) (h_mem h0) fs dest n" and d: "d < d_depth env"
    and r: "reached (bytes_of dest n) s0 h0 s h" and o: "on_field fs dest it" and t: "htype (cur it) = PB_HTYPE_ONEOF"
  shows "field_runs fs dest n s0 h0 (pb_release_union_field env s h it)"
proof -
  obtain v where v: "load_ref h (pSize it) = Some v" using reached_load_ref [OF l r o] t by blast
  obtain b1 it1 where f1: "pb_field_iter_find it v = (b1, it1)" by (cases "pb_field_iter_find it v")
  have o1: "on_field fs dest it1" by (rule on_field_iter_find [OF o f1])
  note s1 = reached_static [OF l r o1]
  have rel: "pb_release_single_field (d_depth env) (d_fields env) it1 h = Some h"
    by (rule release_single_same [OF s1 reached_mapped [OF r] d])
  obtain b2 it2 where f2: "pb_field_iter_find it1 (f_tag (cur it)) = (b2, it2)"
    by (cases "pb_field_iter_find it1 (f_tag (cur it))")
  have o2: "on_field fs dest it2" by (rule on_field_iter_find [OF o1 f2])
  have a: "atype (cur it2) = PB_ATYPE_STATIC" by (rule static_fieldD(1) [OF reached_static [OF l r o2]])
  show ?thesis
    by (cases b1; cases b2)
      (auto simp: pb_release_union_field_def Let_def v f1 f2 rel a intro!: field_runs_Some field_runs_fail r o o1 o2)
qed

lemma runs_decode_field:
  assumes l: "static_layout (Suc d) (d_fields env) (h_mem h0) fs dest n" and d: "d < d_depth env"
    and i: "decodes d env init" and ni: "decodes d env noinit"
    and r: "reached (bytes_of dest n) s0 h0 s h" and o: "on_field fs dest it"
  shows "field_runs fs dest n s0 h0 (decode_field env (PB_DECODERS env init noinit) wt s h it)"
proof -
  have "field_runs fs dest n s0 h0 (if htype (cur it) = PB_HTYPE_ONEOF then pb_release_union_field env s h it else Some (True, s, h, it))"
    by (intro field_runs_if runs_release_union [OF l d r o] field_runs_Some [OF r o])
  then obtain ok s1 h1 it1 where u: "(if htype (cur it) = PB_HTYPE_ONEOF then pb_release_union_field env s h it else Some (True, s, h, it))
      = Some (ok, s1, h1, it1)" and r1: "reached (bytes_of dest n) s0 h0 s1 h1" and o1: "on_field fs dest it1"
    by (auto simp: field_runs_def)
  have a: "atype (cur it1) = PB_ATYPE_STATIC" by (rule static_fieldD(1) [OF reached_static [OF l r1 o1]])
  have "field_runs fs dest n s0 h0 (decode_static_field env (PB_DECODERS env init noinit) wt s1 h1 it1)"
    using d by (intro runs_static_field [OF l _ i ni r1 o1]) simp
  then show ?thesis
    unfolding decode_field_def u by (cases ok) (simp_all add: a field_runs_Some [OF r1 o1])
qed

section \<open>Messages\<close>

definition loop_runs :: "pb_field list \<Rightarrow> addr \<Rightarrow> nat \<Rightarrow> 's pb_istream \<Rightarrow> heap \<Rightarrow> (decoding option \<times> 's pb_istream \<times> heap) option \<Rightarrow> bool" where
  "loop_runs fs dest n s0 h0 r \<longleftrightarrow>
    (\<exists>d s h. r = Some (d, s, h) \<and> reached (bytes_of dest n) s0 h0 s h \<and> (\<forall>d'. d = Some d' \<longrightarrow> on_field fs dest (iter d')))"

lemma loop_runs_error: "reached (bytes_of dest n) s0 h0 s h \<Longrightarrow> loop_runs fs dest n s0 h0 (Some (None, s, h))"
  and loop_runs_end: "reached (bytes_of dest n) s0 h0 s h \<Longrightarrow> on_field fs dest (iter d) \<Longrightarrow> loop_runs fs dest n s0 h0 (Some (Some d, s, h))"
  by (simp_all add: loop_runs_def)

lemma on_field_fixed:
  assumes "on_field fs dest it" "htype (cur it) = PB_HTYPE_REPEATED" "pSize it = At (pData it)"
  shows "on_field fs dest (it\<lparr>pSize := Fixed_count c\<rparr>)"
proof -
  obtain it0 where it0: "it0 \<in> set (struct_iters fs dest)" "it = it0 \<or> (\<exists>c. it = it0\<lparr>pSize := Fixed_count c\<rparr>)"
    using assms(1) by (auto simp: on_field_def)
  have "it = it0" using it0(2) assms(3) by (elim disjE exE) simp_all
  then show ?thesis unfolding on_field_def using it0(1) assms(2,3) by (intro bexI [of _ it0] disjI2 exI [of _ c]) simp_all
qed

lemma enter_on_field:
  assumes "on_field fs dest (iter d)" "enter_fixed_count d = Some d'"
  shows "on_field fs dest (iter (mark_required d'))"
proof -
  have "on_field fs dest (iter d')"
    using assms on_field_fixed [OF assms(1)] by (auto simp: enter_fixed_count_def Let_def split: if_splits)
  then show ?thesis by (simp add: mark_required_def Let_def)
qed

lemma find_extension_static:
  assumes l: "static_layout (Suc d) D m fs dest n" and o: "on_field fs dest it"
  obtains it' where "find_extension_field it = (False, it')" "on_field fs dest it'"
proof -
  obtain b it' where f: "find_extension_field it = (b, it')" by (cases "find_extension_field it")
  have o': "on_field fs dest it'"
    using on_field_find [OF o, of "length (it_start it)" "it_pos it" "\<lambda>f. ltype f = PB_LTYPE_EXTENSION"] f
    by (simp add: find_extension_field_def)
  have "\<not> b"
    using iter_find_wanted [of "length (it_start it)" "it_pos it" "\<lambda>f. ltype f = PB_LTYPE_EXTENSION" it it'] f
      static_fieldD(3) [OF layout_field [OF l o']] by (auto simp: find_extension_field_def)
  then show thesis using that f o' by simp
qed

lemma runs_loop:
  assumes l: "static_layout (Suc d) (d_fields env) (h_mem h0) fs dest n" and dd: "d < d_depth env"
    and i: "decodes d env init" and ni: "decodes d env noinit"
  shows "unat (bytes_left s) \<le> k \<Longrightarrow> reached (bytes_of dest n) s0 h0 s h \<Longrightarrow> on_field fs dest (iter st) \<Longrightarrow>
    loop_runs fs dest n s0 h0 (decode_loop k env (PB_DECODERS env init noinit) st s h)"
proof (induction k arbitrary: st s h)
  case 0
  then have "bytes_left s = 0" by (simp add: unat_eq_zero)
  then show ?case using "0.prems" by (subst decode_loop.simps) (simp add: loop_runs_end)
next
  case (Suc k)
  note r = Suc.prems(2) and o = Suc.prems(3)
  let ?dec = "PB_DECODERS env init noinit"
  obtain o1 e s1 where t: "pb_decode_tag s = (o1, e, s1)" by (cases "pb_decode_tag s")
  have r1: "reached (bytes_of dest n) s0 h0 s1 h" using decode_tag_consumes [OF _ t] r by (auto simp: reached_def)
  show ?case
  proof (cases "bytes_left s = 0")
    case True
    then show ?thesis using r o by (subst decode_loop.simps) (simp add: loop_runs_end)
  next
    case left: False
    show ?thesis
    proof (cases o1)
      case None
      then show ?thesis using left t r1 o by (subst decode_loop.simps) (simp add: loop_runs_end loop_runs_error)
    next
      case (Some p)
      obtain wt tag where p: "p = (wt, tag)" by (cases p)
      note sh = tag_shorter [OF reached_ok [OF r] t [unfolded Some p]]
      have le: "unat (bytes_left s') \<le> k" if "consumes s1 s'" for s'
        using consumes_left [OF that] sh(1) Suc.prems(1) by simp
      have skip: "loop_runs fs dest n s0 h0 (case pb_skip_field s1 wt of (None, s) \<Rightarrow> Some (None, s, h)
                           | (Some _, s) \<Rightarrow> decode_loop k env ?dec st s h)" if "on_field fs dest (iter st)" for st
      proof -
        obtain o2 s2 where sk: "pb_skip_field s1 wt = (o2, s2)" by (cases "pb_skip_field s1 wt")
        have c: "consumes s1 s2"
          using safe_dec_consumes [OF safe_skip_field consumes_refl [OF reached_ok [OF r1]], of wt] sk by simp
        have "reached (bytes_of dest n) s0 h0 s2 h" using c r1 by (auto simp: reached_def intro: consumes_trans)
        then show ?thesis using sk Suc.IH [OF le [OF c] _ that] by (cases o2) (simp_all add: loop_runs_error)
      qed
      obtain b it where f: "pb_field_iter_find (iter st) tag = (b, it)" by (cases "pb_field_iter_find (iter st) tag")
      have o': "on_field fs dest it" by (rule on_field_iter_find [OF o f])
      show ?thesis
      proof (cases b)
        case False
        obtain it' where x: "find_extension_field it = (False, it')" "on_field fs dest it'" using find_extension_static [OF l o'] .
        have big: "\<not> (- 1 :: u32) \<le> tag" using less_le_trans [OF sh(2), of "- 1"] by (simp add: linorder_not_le)
        show ?thesis
          using left t Some p f False x big skip [of "st\<lparr>iter := it\<rparr>"]
            skip [of "st\<lparr>iter := it', extension_range_start := - 1\<rparr>"] o'
          by (subst decode_loop.simps) (simp add: Let_def)
      next
        case True
        show ?thesis
        proof (cases "enter_fixed_count (st\<lparr>iter := it\<rparr>)")
          case None
          then show ?thesis using left t Some p f True r1 by (subst decode_loop.simps) (simp add: loop_runs_error)
        next
          case en: (Some st1)
          have o1: "on_field fs dest (iter (mark_required st1))" using enter_on_field [OF _ en] o' by simp
          have dom: "dom (h_mem h) = dom (h_mem h0)" using r1 by (simp add: reached_def alters_def)
          have "field_runs fs dest n s1 h (decode_field env ?dec wt s1 h (iter (mark_required st1)))"
            using runs_decode_field [OF _ dd i ni reached_start [OF reached_ok [OF r1] reached_mapped [OF r1]] o1]
              l static_layout_dom [OF dom] by blast
          then obtain ok s2 h2 it2 where dec: "decode_field env ?dec wt s1 h (iter (mark_required st1)) = Some (ok, s2, h2, it2)"
            and r2: "reached (bytes_of dest n) s1 h s2 h2" and o2: "on_field fs dest it2" by (auto simp: field_runs_def)
          have "unat (bytes_left s2) \<le> k" using le r2 by (simp add: reached_def)
          then have "loop_runs fs dest n s0 h0 (decode_loop k env ?dec (leave_field it2 (mark_required st1)) s2 h2)"
            using reached_trans [OF r1 r2] o2 by (intro Suc.IH) (simp_all add: leave_field_def)
          then show ?thesis
            using left t Some p f True en dec reached_trans [OF r1 r2]
            by (subst decode_loop.simps) (simp add: Let_def loop_runs_error)
        qed
      qed
    qed
  qed
qed

section \<open>Decoding a struct\<close>

lemma decodesI:
  assumes "\<And>fs dest n s h. static_layout d (d_fields env) (h_mem h) fs dest n \<Longrightarrow> mapped h (bytes_of dest n) \<Longrightarrow> buf_ok s \<Longrightarrow>
      runs (bytes_of dest n) s h (dec fs dest s h)"
  shows "decodes d env dec"
  using assms by (simp add: decodes_def)

lemma decodesD:
  "decodes d env dec \<Longrightarrow> static_layout d (d_fields env) (h_mem h) fs dest n \<Longrightarrow> mapped h (bytes_of dest n) \<Longrightarrow> buf_ok s \<Longrightarrow>
    runs (bytes_of dest n) s h (dec fs dest s h)"
  by (simp add: decodes_def)

lemma decodes_message:
  assumes i: "decodes d env init" and ni: "decodes d env noinit" and d: "d < d_depth env"
  shows "decodes (Suc d) env (decode_message env (PB_DECODERS env init noinit))"
proof (rule decodesI)
  fix fs dest n h and s :: "'a pb_istream"
  assume l: "static_layout (Suc d) (d_fields env) (h_mem h) fs dest n" and m: "mapped h (bytes_of dest n)" and ok: "buf_ok s"
  have "loop_runs fs dest n s h (decode_loop (unat (bytes_left s)) env (PB_DECODERS env init noinit)
     \<lparr>fields_seen = [0, 0], extension_range_start = 0, fixed_count_field = None, fixed_count_size = 0,
      iter = snd (pb_field_iter_begin fs dest)\<rparr> s h)"
    by (rule runs_loop [OF l d i ni _ reached_start [OF ok m]]) (simp_all add: on_field_begin)
  then show "runs (bytes_of dest n) s h (decode_message env (PB_DECODERS env init noinit) fs dest s h)"
    by (auto simp: decode_message_def Let_def loop_runs_def split: option.split intro!: runs_if runs_fail runs_Some)
qed

lemma decodes_init:
  assumes ni: "decodes d env noinit" and d: "d \<le> d_depth env"
  shows "decodes d env (init_and_decode env noinit)"
proof (rule decodesI)
  fix fs dest n h and s :: "'a pb_istream"
  assume l: "static_layout d (d_fields env) (h_mem h) fs dest n" and m: "mapped h (bytes_of dest n)" and ok: "buf_ok s"
  obtain h1 where h1: "pb_message_set_to_defaults env fs dest h = Some h1" "alters (bytes_of dest n) h h1"
    using updates_defaults [OF l m d] by (auto simp: updates_def pb_message_set_to_defaults_def)
  have m1: "mapped h1 (bytes_of dest n)" and dom: "dom (h_mem h1) = dom (h_mem h)"
    using m h1(2) by (simp_all add: alters_mapped) (simp add: alters_def)
  have "static_layout d (d_fields env) (h_mem h1) fs dest n" using l static_layout_dom [OF dom] by simp
  then have "runs (bytes_of dest n) s h1 (noinit fs dest s h1)" using decodesD [OF ni] m1 ok by blast
  then obtain status s2 h2 where r: "noinit fs dest s h1 = Some (status, s2, h2)" "reached (bytes_of dest n) s h1 s2 h2"
    by (auto simp: runs_def)
  have w: "alters (bytes_of dest n) h h2" "mapped h2 (bytes_of dest n)"
    using r(2) h1(2) by (auto simp: reached_def intro: alters_trans)
  have dom2: "dom (h_mem h2) = dom (h_mem h)" using w(1) by (simp add: alters_def)
  have "pb_release env fs dest h2 = Some h2"
    unfolding pb_release_def using release_same [OF _ w(2) d] l static_layout_dom [OF dom2] by blast
  then show "runs (bytes_of dest n) s h (init_and_decode env noinit fs dest s h)"
    using h1(1) r w by (auto simp: init_and_decode_def runs_def reached_def)
qed

lemma decodes_noinit: "d \<le> k \<Longrightarrow> d \<le> d_depth env \<Longrightarrow> decodes d env (pb_decode_noinit k env)"
proof (induction d arbitrary: k)
  case 0
  then show ?case by (simp add: decodes_def)
next
  case (Suc d)
  obtain k' where k: "k = Suc k'" "d \<le> k'" using Suc.prems(1) by (cases k) auto
  have eq: "pb_decode_noinit k env =
      decode_message env (PB_DECODERS env (init_and_decode env (pb_decode_noinit k' env)) (pb_decode_noinit k' env))"
    by (intro ext) (simp add: k(1))
  have ni: "decodes d env (pb_decode_noinit k' env)" using Suc.prems(2) by (intro Suc.IH [OF k(2)]) simp
  show ?case unfolding eq using Suc.prems(2) by (intro decodes_message decodes_init ni) simp_all
qed

lemma decodes_decode: "d \<le> k \<Longrightarrow> d \<le> d_depth env \<Longrightarrow> decodes d env (pb_decode k env)"
  unfolding pb_decode_def by (intro decodes_init decodes_noinit)

end
