(* ===== verification/NanopbDecodeProps.thy ===== *)
theory NanopbDecodeProps
  imports NanopbDecodeStatic
begin

text \<open>
  The properties of the message decoder: it reads nothing but its input, whatever the message and the
  memory; into a struct without pointers it always returns and writes nothing but the struct; and the
  counter of a short array of fixed length is cleared outside the array.
\<close>

text \<open>The struct of the witnesses: a number and a message with a number, in eight bytes of memory.\<close>

definition d_inner :: "pb_field list" where
  "d_inner = [\<lparr>f_tag = 1, f_type = 0x02, f_data_offset = 0, f_size_offset = 0, f_data_size = 4, f_array_size = 0, f_ptr = 0\<rparr>]"

definition d_outer :: "pb_field list" where
  "d_outer =
    [\<lparr>f_tag = 1, f_type = 0x02, f_data_offset = 0, f_size_offset = 0, f_data_size = 4, f_array_size = 0, f_ptr = 0\<rparr>,
     \<lparr>f_tag = 2, f_type = 0x08, f_data_offset = 0, f_size_offset = 0, f_data_size = 4, f_array_size = 0, f_ptr = 0x2000\<rparr>]"

definition d_descs :: desc_table where
  "d_descs p = (if p = 0x2000 then Some d_inner else None)"

definition d_heap :: heap where
  "d_heap = \<lparr>h_mem = (\<lambda>p. if 0x1000 \<le> p \<and> p < 0x1008 then Some 0xff else None), h_blocks = (\<lambda>p. None)\<rparr>"

definition d_env :: "unit dec_env" where
  "d_env = \<lparr>d_fields = d_descs, d_alloc = (\<lambda>h n. None), d_decode = (\<lambda>f fd a s h. None),
     d_extension = (\<lambda>f e t w s h. None), d_depth = 3\<rparr>"

definition d_input :: "unit pb_istream" where
  "d_input = pb_istream_from_buffer [0x08, 0x96, 0x01, 0x12, 0x02, 0x08, 0x05] 7"

lemma d_input_ok: "buf_ok d_input"
  by (simp add: d_input_def pb_istream_from_buffer_def buf_ok_def)





text \<open>
  C2. Decoding into a struct of static fields returns, and stays inside the struct. For every input
  from memory, every contents of the memory and every descriptors that lay out a struct of \<open>n\<close> bytes
  with nested messages to depth \<open>d\<close>, the decoder, given that depth as fuel, has a result: it does
  not loop, accesses nothing outside mapped memory, calls no callback and frees nothing. It changes bytes
  of the struct at most, on success as on failure. Unions, packed and unpacked arrays, arrays of fixed
  count, strings and byte arrays with their bounds, and unknown fields are included.
\<close>
theorem pb_decode_static_returns:
  assumes "static_layout d (d_fields env) (h_mem h) fs dest n" "mapped h (bytes_of dest n)"
    and "buf_ok s" "d \<le> fuel" "d \<le> d_depth env"
  shows "\<exists>ok s' h'. pb_decode fuel env fs dest s h = Some (ok, s', h') \<and> consumes s s' \<and> alters (bytes_of dest n) h h'"
  using decodesD [OF decodes_decode [OF assms(4,5)] assms(1-3)] by (auto simp: runs_def reached_def)


lemma d_layout: "static_layout 2 d_descs (h_mem d_heap) d_outer 0x1000 8"
  by code_simp

lemma d_mapped: "mapped d_heap (bytes_of 0x1000 8)"
proof -
  have "load_bytes (h_mem d_heap) 0x1000 8 \<noteq> None" by code_simp
  then show ?thesis by (simp only: load_bytes_dom mapped_def)
qed

theorem pb_decode_static_returns_witness:
  "\<exists>ok s' h'. pb_decode 2 d_env d_outer 0x1000 d_input d_heap = Some (ok, s', h') \<and> consumes d_input s' \<and>
    alters (bytes_of 0x1000 8) d_heap h'"
  using pb_decode_static_returns [of 2 d_env d_heap d_outer "0x1000" 8 d_input 2] d_layout d_mapped d_input_ok
  by (simp add: d_env_def)




end
