(* ===== verification/NanopbValues.thy ===== *)
theory NanopbValues
  imports NanopbMessage NanopbDecodeStatic
begin

text \<open>
  The decoder of a value reads what the encoder of the value wrote, for every type a static field can
  have: the value that is decoded has the same bytes (\<open>value_bytes\<close>) as the one that was encoded.
  These are the steps of the round trip of messages.
\<close>

section \<open>Storing and loading\<close>

text \<open>Two memories that agree on some addresses.\<close>

definition agree :: "addr set \<Rightarrow> mem \<Rightarrow> mem \<Rightarrow> bool" where
  "agree R m m' \<longleftrightarrow> (\<forall>a \<in> R. m a = m' a)"

lemma agree_mono: "agree R m m' \<Longrightarrow> S \<subseteq> R \<Longrightarrow> agree S m m'"
  by (auto simp: agree_def)

lemma agree_sym: "agree R m m' \<Longrightarrow> agree R m' m" and agree_refl [simp]: "agree R m m"
  and agree_trans: "agree R m m' \<Longrightarrow> agree R m' m'' \<Longrightarrow> agree R m m''"
  by (auto simp: agree_def)

lemma alters_agree: "alters R h h' \<Longrightarrow> R \<inter> S = {} \<Longrightarrow> agree S (h_mem h') (h_mem h)"
  by (auto simp: alters_def agree_def)

lemma load_bytes_agree: "agree (bytes_of p n) m m' \<Longrightarrow> load_bytes m p n = load_bytes m' p n"
proof (induction n arbitrary: p)
  case (Suc n)
  then have "m p = m' p" "agree (bytes_of (p + 1) n) m m'" by (auto simp: agree_def bytes_of_Suc)
  then show ?case using Suc.IH by simp
qed simp

lemma load_word_agree: "agree (bytes_of p n) m m' \<Longrightarrow> load_word m p n = load_word m' p n"
  by (simp add: load_word_def load_bytes_agree)

lemma bytes_of_self [simp]: "0 < n \<Longrightarrow> p \<in> bytes_of p n"
  by (cases n) (simp_all add: bytes_of_Suc)

lemma bytes_of_disjoint:
  assumes "n + k \<le> 2 ^ 64"
  shows "bytes_of p n \<inter> bytes_of (p + word_of_nat n) k = {}"
proof -
  have "i = n + j" if "p + word_of_nat i = p + word_of_nat n + word_of_nat j" "i < n" "j < k" for i j
  proof -
    have "(word_of_nat i :: u64) = word_of_nat (n + j)" using that(1) by (simp add: add.assoc)
    moreover have "unat (word_of_nat i :: u64) = i" "unat (word_of_nat (n + j) :: u64) = n + j"
      using that(2,3) assms by (simp_all add: unat_of_nat del: of_nat_add)
    ultimately show ?thesis by metis
  qed
  then show ?thesis by (fastforce simp: bytes_of_def)
qed

lemma store_bytes_same:
  "store_bytes m p bs = Some m' \<Longrightarrow> a \<notin> bytes_of p (length bs) \<Longrightarrow> m' a = m a"
proof (induction bs arbitrary: m p)
  case (Cons b bs)
  then show ?case by (auto simp: bytes_of_Suc split: if_splits)
qed simp

lemma load_store: "store_bytes m p bs = Some m' \<Longrightarrow> length bs \<le> 2 ^ 64 \<Longrightarrow> load_bytes m' p (length bs) = Some bs"
proof (induction bs arbitrary: m p)
  case (Cons b bs)
  then have s: "store_bytes (m(p \<mapsto> b)) (p + 1) bs = Some m'" by (auto split: if_splits)
  have "p \<notin> bytes_of (p + 1) (length bs)"
    using bytes_of_disjoint [of 1 "length bs" p] Cons.prems(2) by (auto simp: bytes_of_Suc)
  then have "m' p = Some b" using store_bytes_same [OF s] by simp
  then show ?case using Cons.IH [OF s] Cons.prems(2) by simp
qed simp

lemma le_nat_bytes: "le_nat (le_bytes n v) = v mod 256 ^ n"
proof (induction n arbitrary: v)
  case (Suc n)
  have "unat (byte_of (v mod 256)) = v mod 256" by (intro unat_byte_of) simp
  then show ?case using Suc by (simp add: mod_mult2_eq)
qed simp

lemma h_store_load:
  assumes "mapped h (bytes_of p (length bs))" "length bs \<le> 2 ^ 64"
  obtains h' where "h_store h p bs = Some h'" "alters (bytes_of p (length bs)) h h'" "load_bytes (h_mem h') p (length bs) = Some bs"
proof -
  obtain h' where h': "h_store h p bs = Some h'" "alters (bytes_of p (length bs)) h h'"
    using h_store_mapped [OF assms(1) order_refl] .
  then show thesis using that load_store [OF _ assms(2)] by (auto simp: h_store_def)
qed

lemma h_store_word_load:
  assumes "mapped h (bytes_of p n)" "n \<le> 2 ^ 64"
  obtains h' where "h_store_word h p n v = Some h'" "alters (bytes_of p n) h h'" "load_bytes (h_mem h') p n = Some (le_bytes n (unat v))"
  using h_store_load [of h p "le_bytes n (unat v)"] assms unfolding h_store_word_def by auto

lemma load_word_le: "load_bytes m p n = Some (le_bytes n x) \<Longrightarrow> load_word m p n = Some (word_of_nat (x mod 256 ^ n))"
  by (simp add: load_word_def le_nat_bytes)

section \<open>Values\<close>

text \<open>The bytes \<open>v\<close> have been read.\<close>

definition stepped :: "u8 list \<Rightarrow> 's pb_istream \<Rightarrow> 's pb_istream \<Rightarrow> bool" where
  "stepped v s s' \<longleftrightarrow> buf_ok s' \<and> reads s s' \<and> buf_content s = v @ buf_content s'"

lemma stepped_adv:
  assumes "buf_ok s" "buf_content s = v @ rest"
  shows "stepped v s (buf_adv (length v) s)"
  using assms buf.adv_inv [of s "length v"] buf.adv_content [of s "length v"] buf_length_content [of s]
  by (simp add: stepped_def reads_adv)

lemma stepped_trans: "stepped v s t \<Longrightarrow> stepped w t u \<Longrightarrow> stepped (v @ w) s u"
  by (auto simp: stepped_def intro: reads_trans)

lemma stepped_nil: "buf_ok s \<Longrightarrow> stepped [] s s"
  by (simp add: stepped_def)

lemma stepped_ok: "stepped v s s' \<Longrightarrow> buf_ok s'" and stepped_content: "stepped v s s' \<Longrightarrow> buf_content s = v @ rest \<Longrightarrow> buf_content s' = rest"
  by (auto simp: stepped_def)

text \<open>A step that succeeds on the bytes \<open>v\<close>, writes \<open>R\<close> at most and leaves what \<open>Q\<close> says.\<close>

definition decoded :: "addr set \<Rightarrow> u8 list \<Rightarrow> 's pb_istream \<Rightarrow> heap \<Rightarrow> (mem \<Rightarrow> bool) \<Rightarrow> 's dres \<Rightarrow> bool" where
  "decoded R v s h Q r \<longleftrightarrow> (\<exists>s' h'. r = Some (True, s', h') \<and> stepped v s s' \<and> alters R h h' \<and> Q (h_mem h'))"

lemma decoded_Some: "stepped v s s' \<Longrightarrow> alters R h h' \<Longrightarrow> Q (h_mem h') \<Longrightarrow> decoded R v s h Q (Some (True, s', h'))"
  by (auto simp: decoded_def)

text \<open>The value of an integer of a width, read back at that width.\<close>

definition clamp :: "bool \<Rightarrow> u32 \<Rightarrow> u64 \<Rightarrow> u64" where
  "clamp sg sz v =
    (if sz = 8 then v
     else if sz = 4 then (if sg then scast (to_u32 v) else ucast (to_u32 v))
     else if sz = 2 then (if sg then scast (to_u16 v) else ucast (to_u16 v))
     else (if sg then scast (to_u8 v) else ucast (to_u8 v)))"

lemma store_int_decoded:
  assumes "mapped h (bytes_of p (unat sz))" "sz \<in> {1, 2, 4, 8}" "clamp sg sz v = v"
  obtains h' where "store_int sg sz p v s h = Some (True, s, h')" "alters (bytes_of p (unat sz)) h h'"
    "load_bytes (h_mem h') p (unat sz) = Some (le_bytes (unat sz) (unat v))"
proof -
  have "unat sz \<le> 2 ^ 64" using assms(2) by auto
  then obtain h' where h': "h_store h p (le_bytes (unat sz) (unat v)) = Some h'" "alters (bytes_of p (unat sz)) h h'"
    "load_bytes (h_mem h') p (unat sz) = Some (le_bytes (unat sz) (unat v))"
    using h_store_load [of h p "le_bytes (unat sz) (unat v)"] assms(1) by auto
  then have "store_int sg sz p v s h = Some (True, s, h')"
    using assms(2,3) unfolding store_int_def clamp_def by (simp add: Let_def)
  then show thesis using that h'(2,3) by blast
qed

lemma low_word: "(word_of_nat (unat (v :: u64) mod 256) :: u8) = ucast v"
  "(word_of_nat (unat v mod 65536) :: u16) = ucast v" "(word_of_nat (unat v mod 4294967296) :: u32) = ucast v"
  "(word_of_nat (unat v mod 18446744073709551616) :: u64) = v"
  using unat_lt_u64 [of v] by (simp_all add: word_unat_eq_iff unat_of_nat unsigned_ucast_eq take_bit_eq_mod)

lemma load_int_clamp:
  assumes b: "load_bytes m p (unat sz) = Some (le_bytes (unat sz) (unat v))" and sz: "sz \<in> {1, 2, 4, 8}"
  shows "load_int64 m sz p = Some (Some (clamp True sz v))" "load_uint64 m sz p = Some (Some (clamp False sz v))"
proof -
  have "sz = 1 \<Longrightarrow> load_word m p 1 = Some (to_u8 v)" "sz = 2 \<Longrightarrow> load_word m p 2 = Some (to_u16 v)"
    "sz = 4 \<Longrightarrow> load_word m p 4 = Some (to_u32 v)" "sz = 8 \<Longrightarrow> load_word m p 8 = Some v"
    using load_word_le [of m p 1 "unat v", where 'a = 8] load_word_le [of m p 2 "unat v", where 'a = 16]
      load_word_le [of m p 4 "unat v", where 'a = 32] load_word_le [of m p 8 "unat v", where 'a = 64] b
    by (simp_all only: low_word) (simp_all add: low_word)
  then show "load_int64 m sz p = Some (Some (clamp True sz v))" "load_uint64 m sz p = Some (Some (clamp False sz v))"
    using sz by (auto simp: load_int64_def load_uint64_def clamp_def)
qed

lemma scast_fits: "scast (ucast (scast (x :: u8) :: u64) :: u8) = (scast x :: u64)"
  "scast (ucast (scast (y :: u16) :: u64) :: u16) = (scast y :: u64)"
  "scast (ucast (scast (z :: u32) :: u64) :: u32) = (scast z :: u64)"
  "scast (ucast (scast (x :: u8) :: u64) :: u32) = (scast x :: u64)"
  "scast (ucast (scast (y :: u16) :: u64) :: u32) = (scast y :: u64)"
  by (transfer, simp add: signed_take_bit_take_bit)+

lemma ucast_fits: "ucast (ucast (ucast (x :: u8) :: u64) :: u8) = (ucast x :: u64)"
  "ucast (ucast (ucast (y :: u16) :: u64) :: u16) = (ucast y :: u64)"
  "ucast (ucast (ucast (z :: u32) :: u64) :: u32) = (ucast z :: u64)"
  by (transfer, simp add: take_bit_take_bit)+

lemma load_int_fits:
  assumes "load_int64 m sz p = Some (Some v)"
  shows "sz \<in> {1, 2, 4, 8}" "clamp True sz v = v" "sz \<noteq> 8 \<Longrightarrow> scast (to_u32 v) = v"
  using assms by (auto simp: load_int64_def clamp_def scast_fits split: if_splits)

lemma load_uint_fits:
  assumes "load_uint64 m sz p = Some (Some v)"
  shows "sz \<in> {1, 2, 4, 8}" "clamp False sz v = v"
  using assms by (auto simp: load_uint64_def clamp_def ucast_fits split: if_splits)

lemma decoded_wire:
  assumes "f s = (Some x, buf_adv (length v) s)" "buf_ok s" "buf_content s = v @ rest"
    "decoded R w (buf_adv (length v) s) h Q (g x (buf_adv (length v) s) h)"
  shows "decoded R (v @ w) s h Q (wire_then (f s) h g)"
  using assms(1,4) stepped_trans [OF stepped_adv [OF assms(2,3)]] unfolding decoded_def wire_then_def by fastforce

lemma decoded_store:
  assumes "mapped h R" "bytes_of p (length bs) \<subseteq> R" "length bs \<le> 2 ^ 64" "buf_ok s"
    "\<And>m'. load_bytes m' p (length bs) = Some bs \<Longrightarrow> Q m'"
  shows "decoded R [] s h Q (store_then (h_store h p bs) (\<lambda>h. Some (True, s, h)))"
proof -
  obtain h' where "h_store h p bs = Some h'" "alters (bytes_of p (length bs)) h h'" "load_bytes (h_mem h') p (length bs) = Some bs"
    using h_store_load [OF mapped_mono [OF assms(1,2)] assms(3)] .
  then show ?thesis using assms(2,5) alters_mono stepped_nil [OF assms(4)] by (auto simp: decoded_def)
qed

lemma decoded_store_int:
  assumes "mapped h R" "bytes_of p (unat sz) \<subseteq> R" "buf_ok s" "sz \<in> {1, 2, 4, 8}" "clamp sg sz v = v"
    "\<And>m'. load_bytes m' p (unat sz) = Some (le_bytes (unat sz) (unat v)) \<Longrightarrow> Q m'"
  shows "decoded R [] s h Q (store_int sg sz p v s h)"
proof -
  obtain h' where "store_int sg sz p v s h = Some (True, s, h')" "alters (bytes_of p (unat sz)) h h'"
    "load_bytes (h_mem h') p (unat sz) = Some (le_bytes (unat sz) (unat v))"
    using store_int_decoded [OF mapped_mono [OF assms(1,2)] assms(4,5)] .
  then show ?thesis using assms(2,6) alters_mono stepped_nil [OF assms(3)] by (auto simp: decoded_def)
qed

lemma content_after: "buf_ok s \<Longrightarrow> buf_content s = v @ rest \<Longrightarrow> buf_ok (buf_adv (length v) s) \<and> buf_content (buf_adv (length v) s) = rest"
  using stepped_adv [of s v rest] by (auto simp: stepped_def)

lemma load_word_back:
  fixes x :: "'a::len word"
  assumes "load_bytes m p n = Some (le_bytes n (unat x))" "LENGTH('a) = 8 * n"
  shows "load_word m p n = Some x"
proof -
  have "unat x < 2 ^ LENGTH('a)" by (rule unsigned_less)
  then have "unat x < 256 ^ n" using assms(2) by (simp add: power_mult)
  then show ?thesis using load_word_le [OF assms(1), where 'a = 'a] by simp
qed

lemma bool_decoded:
  assumes s: "buf_ok s" "buf_content s = v @ rest" and v: "value_bytes D m msg f src = Some v" and t: "ltype f = PB_LTYPE_BOOL"
    and R: "mapped h R" "bytes_of p 1 \<subseteq> R"
  shows "decoded R v s h (\<lambda>m'. value_bytes D m' msg' f p = Some v) (pb_dec_bool f p s h)"
proof -
  obtain b where b: "v = base128 (if b then 1 else 0)" using v t by (auto simp: value_bytes_def)
  have "pb_decode_varint32 s = (Some (word_of_nat (if b then 1 else 0)), buf_adv (length v) s)"
    using buf.varint32_small [OF s(1), of "if b then 1 else 0" rest] s(2) by (simp add: b)
  moreover have "decoded R [] (buf_adv (length v) s) h (\<lambda>m'. value_bytes D m' msg' f p = Some v)
      (store_then (h_store h p [if (word_of_nat (if b then 1 else 0) :: u32) \<noteq> 0 then 1 else 0])
        (\<lambda>h. Some (True, buf_adv (length v) s, h)))"
  proof (rule decoded_store [OF R(1)])
    fix m' assume "load_bytes m' p (length [if (word_of_nat (if b then 1 else 0) :: u32) \<noteq> 0 then 1 else 0 :: u8]) =
      Some [if (word_of_nat (if b then 1 else 0) :: u32) \<noteq> 0 then 1 else 0]"
    then have "m' p = Some (if b then 1 else 0)" by (auto split: bind_splits if_splits)
    then show "value_bytes D m' msg' f p = Some v" using t by (simp add: b value_bytes_def safe_read_bool_def)
  qed (use R content_after [OF s] in simp_all)
  ultimately show ?thesis unfolding pb_dec_bool_def by (rule decoded_wire [where w = "[]", simplified, OF _ s])
qed

lemma varint_decoded:
  assumes s: "buf_ok s" "buf_content s = v @ rest" and v: "value_bytes D m msg f src = Some v" and t: "ltype f = PB_LTYPE_VARINT"
    and R: "mapped h R" "bytes_of p (unat (f_data_size f)) \<subseteq> R"
  shows "decoded R v s h (\<lambda>m'. value_bytes D m' msg' f p = Some v) (pb_dec_varint f p s h)"
proof -
  obtain x where x: "load_int64 m (f_data_size f) src = Some (Some x)" "v = base128 (unat x)"
    using v t by (auto simp: value_bytes_def split: bind_splits)
  note fits = load_int_fits [OF x(1)]
  have "pb_decode_varint s = (Some x, buf_adv (length v) s)"
    using buf.pb_decode_varint_base128 [OF s(1)] s(2) by (simp add: x(2))
  moreover have "decoded R [] (buf_adv (length v) s) h (\<lambda>m'. value_bytes D m' msg' f p = Some v)
      (store_int True (f_data_size f) p (if f_data_size f = 8 then x else scast (to_u32 x)) (buf_adv (length v) s) h)"
    using fits content_after [OF s] load_int_clamp(1) [OF _ fits(1)] t
    by (intro decoded_store_int [OF R]) (auto simp: value_bytes_def x(2))
  ultimately show ?thesis
    unfolding pb_dec_varint_def by (rule decoded_wire [where w = "[]", simplified, OF _ s])
qed

lemma uvarint_decoded:
  assumes s: "buf_ok s" "buf_content s = v @ rest" and v: "value_bytes D m msg f src = Some v" and t: "ltype f = PB_LTYPE_UVARINT"
    and R: "mapped h R" "bytes_of p (unat (f_data_size f)) \<subseteq> R"
  shows "decoded R v s h (\<lambda>m'. value_bytes D m' msg' f p = Some v) (pb_dec_uvarint f p s h)"
proof -
  obtain x where x: "load_uint64 m (f_data_size f) src = Some (Some x)" "v = base128 (unat x)"
    using v t by (auto simp: value_bytes_def split: bind_splits)
  note fits = load_uint_fits [OF x(1)]
  have "pb_decode_varint s = (Some x, buf_adv (length v) s)"
    using buf.pb_decode_varint_base128 [OF s(1)] s(2) by (simp add: x(2))
  moreover have "decoded R [] (buf_adv (length v) s) h (\<lambda>m'. value_bytes D m' msg' f p = Some v)
      (store_int False (f_data_size f) p x (buf_adv (length v) s) h)"
    using fits content_after [OF s] load_int_clamp(2) [OF _ fits(1)] t
    by (intro decoded_store_int [OF R]) (auto simp: value_bytes_def x(2))
  ultimately show ?thesis
    unfolding pb_dec_uvarint_def by (rule decoded_wire [where w = "[]", simplified, OF _ s])
qed

lemma svarint_decoded:
  assumes s: "buf_ok s" "buf_content s = v @ rest" and v: "value_bytes D m msg f src = Some v" and t: "ltype f = PB_LTYPE_SVARINT"
    and R: "mapped h R" "bytes_of p (unat (f_data_size f)) \<subseteq> R"
  shows "decoded R v s h (\<lambda>m'. value_bytes D m' msg' f p = Some v) (pb_dec_svarint f p s h)"
proof -
  obtain x where x: "load_int64 m (f_data_size f) src = Some (Some x)" "v = base128 (unat (zigzag x))"
    using v t by (auto simp: value_bytes_def split: bind_splits)
  note fits = load_int_fits [OF x(1)]
  have "pb_decode_svarint s = (Some x, buf_adv (length v) s)"
    using buf.decode_svarint_zigzag [OF s(1)] s(2) by (simp add: x(2))
  moreover have "decoded R [] (buf_adv (length v) s) h (\<lambda>m'. value_bytes D m' msg' f p = Some v)
      (store_int True (f_data_size f) p x (buf_adv (length v) s) h)"
    using fits content_after [OF s] load_int_clamp(1) [OF _ fits(1)] t
    by (intro decoded_store_int [OF R]) (auto simp: value_bytes_def x(2))
  ultimately show ?thesis
    unfolding pb_dec_svarint_def by (rule decoded_wire [where w = "[]", simplified, OF _ s])
qed

lemma fixed32_decoded:
  assumes s: "buf_ok s" "buf_content s = v @ rest" and v: "value_bytes D m msg f src = Some v" and t: "ltype f = PB_LTYPE_FIXED32"
    and R: "mapped h R" "bytes_of p 4 \<subseteq> R"
  shows "decoded R v s h (\<lambda>m'. value_bytes D m' msg' f p = Some v) (pb_dec_fixed32 f p s h)"
proof -
  obtain x where x: "v = le32 x" using v t by (auto simp: value_bytes_def)
  have loaded: "load_word m' p 4 = Some x" if "load_bytes m' p 4 = Some (le_bytes 4 (unat x))" for m'
    using that by (rule load_word_back) simp
  have "pb_decode_fixed32 s = (Some x, buf_adv (length v) s)"
    using buf.decode_fixed32_le32 [OF s(1)] s(2) by (simp add: x)
  then show ?thesis
    unfolding pb_dec_fixed32_def h_store_word_def using content_after [OF s] R t loaded
    by (intro decoded_wire [where w = "[]", simplified, OF _ s] decoded_store) (auto simp: x value_bytes_def)
qed

lemma fixed64_decoded:
  assumes s: "buf_ok s" "buf_content s = v @ rest" and v: "value_bytes D m msg f src = Some v" and t: "ltype f = PB_LTYPE_FIXED64"
    and R: "mapped h R" "bytes_of p 8 \<subseteq> R"
  shows "decoded R v s h (\<lambda>m'. value_bytes D m' msg' f p = Some v) (pb_dec_fixed64 f p s h)"
proof -
  obtain x where x: "v = le64 x" using v t by (auto simp: value_bytes_def)
  have loaded: "load_word m' p 8 = Some x" if "load_bytes m' p 8 = Some (le_bytes 8 (unat x))" for m'
    using that by (rule load_word_back) simp
  have "pb_decode_fixed64 s = (Some x, buf_adv (length v) s)"
    using buf.decode_fixed64_le64 [OF s(1)] s(2) by (simp add: x)
  then show ?thesis
    unfolding pb_dec_fixed64_def h_store_word_def using content_after [OF s] R t loaded
    by (intro decoded_wire [where w = "[]", simplified, OF _ s] decoded_store) (auto simp: x value_bytes_def)
qed

lemma decoded_weaken:
  assumes "decoded S v s h1 Q' r" "S \<subseteq> R" "alters R h h1" "\<And>h'. alters S h1 h' \<Longrightarrow> Q' (h_mem h') \<Longrightarrow> Q (h_mem h')"
  shows "decoded R v s h Q r"
  using assms alters_mono [OF _ assms(2)] alters_trans [OF assms(3)] unfolding decoded_def by fastforce

text \<open>A value with its length before it.\<close>

lemma delimited_decoded:
  assumes s: "buf_ok s" "buf_content s = delimited bs @ rest" and n: "length bs < 2 ^ 32"
    and g: "\<And>t. buf_ok t \<Longrightarrow> buf_content t = bs @ rest \<Longrightarrow> decoded R bs t h Q (g (word_of_nat (length bs)) t h)"
  shows "decoded R (delimited bs) s h Q (wire_then (pb_decode_varint32 s) h g)"
proof -
  have c: "buf_content s = base128 (length bs) @ bs @ rest" using s(2) by (simp add: delimited_def)
  have "decoded R bs (buf_adv (length (base128 (length bs))) s) h Q
      (g (word_of_nat (length bs)) (buf_adv (length (base128 (length bs))) s) h)"
    using content_after [OF s(1) c] by (intro g) simp_all
  from decoded_wire [where f = pb_decode_varint32 and g = g and x = "word_of_nat (length bs)", OF buf.varint32_small [OF s(1) c n] s(1) c this]
  show ?thesis unfolding delimited_def .
qed

lemma read_mem_decoded:
  assumes s: "buf_ok s" "buf_content s = bs @ rest" and n: "unat n = length bs"
    and R: "mapped h R" "bytes_of p (length bs) \<subseteq> R" and Q: "\<And>m'. load_bytes m' p (length bs) = Some bs \<Longrightarrow> Q m'"
  shows "decoded R bs s h Q (pb_read_mem p n s h)"
proof -
  have "unat n \<le> unat (bytes_left s)" using buf_length_content [OF s(1)] s(2) n by simp
  then have "pb_read s True n = (Some bs, buf_adv (length bs) s)" using buf_pb_read [OF s(1), of n True] s(2) n by simp
  moreover have "length bs \<le> 2 ^ 64" using unat_lt_u64 [of n] n by simp
  ultimately show ?thesis
    unfolding pb_read_mem_def using R Q content_after [OF s]
    by (intro decoded_wire [where w = "[]", simplified, OF _ s] decoded_store) simp_all
qed

lemma small: "\<not> PB_SIZE_MAX < (w :: u32)"
  using unsigned_less [of w, where 'a = nat] by (simp add: word_less_nat_alt)

lemma fixed_length_decoded:
  assumes s: "buf_ok s" "buf_content s = v @ rest" and v: "value_bytes D m msg f src = Some v"
    and t: "ltype f = PB_LTYPE_FIXED_LENGTH_BYTES"
    and R: "mapped h R" "bytes_of p (unat (f_data_size f)) \<subseteq> R"
  shows "decoded R v s h (\<lambda>m'. value_bytes D m' msg' f p = Some v) (pb_dec_fixed_length_bytes f p s h)"
proof -
  obtain bs where bs: "load_bytes m src (unat (f_data_size f)) = Some bs" "v = delimited bs"
    using v t by (auto simp: value_bytes_def)
  have len: "length bs = unat (f_data_size f)" by (rule length_load_bytes [OF bs(1)])
  have "unat (f_data_size f) < 2 ^ LENGTH(32)" by (rule unsigned_less)
  then have n: "length bs < 2 ^ 32" and w: "(word_of_nat (length bs) :: u32) = f_data_size f" by (simp_all add: len)
  have Q: "value_bytes D m' msg' f p = Some v" if "load_bytes m' p (length bs) = Some bs" for m'
    using that t by (simp add: value_bytes_def bs(2) len)
  show ?thesis
    unfolding bs(2) pb_dec_fixed_length_bytes_def
  proof (rule delimited_decoded [OF s(1) s(2) [unfolded bs(2)] n])
    fix t :: "'a pb_istream" assume t: "buf_ok t" "buf_content t = bs @ rest"
    have read: "decoded R bs t h (\<lambda>m'. value_bytes D m' msg' f p = Some (delimited bs)) (pb_read_mem p (data_size f) t h)"
      using R Q by (intro read_mem_decoded [OF t]) (simp_all add: len bs(2))
    have none: "decoded R [] t h (\<lambda>m'. value_bytes D m' msg' f p = Some (delimited bs))
        (store_then (h_store h p (replicate (unat (f_data_size f)) 0)) (\<lambda>h. Some (True, t, h)))" if "f_data_size f = 0"
    proof -
      have "bs = []" using that len by simp
      then show ?thesis using that Q R t by (intro decoded_store) (simp_all add: bs(2))
    qed
    show "decoded R bs t h (\<lambda>m'. value_bytes D m' msg' f p = Some (delimited bs))
       (if PB_SIZE_MAX < word_of_nat (length bs) then d_fail ''bytes overflow'' t h
        else if (word_of_nat (length bs) :: u32) = 0 then
          store_then (h_store h p (replicate (unat (f_data_size f)) 0)) (\<lambda>h. Some (True, t, h))
        else if word_of_nat (length bs) \<noteq> f_data_size f then d_fail ''incorrect fixed length bytes size'' t h
        else pb_read_mem p (data_size f) t h)"
      using read none len small [of "f_data_size f"] by (cases "f_data_size f = 0") (simp_all add: w)
  qed
qed

lemma bytes_decoded:
  assumes s: "buf_ok s" "buf_content s = v @ rest" and v: "value_bytes D m msg f src = Some v"
    and t: "ltype f = PB_LTYPE_BYTES" and a: "atype f = PB_ATYPE_STATIC" and z: "4 \<le> f_data_size f" and p: "p \<noteq> 0"
    and R: "mapped h R" "bytes_of p (unat (f_data_size f)) \<subseteq> R"
  shows "decoded R v s h (\<lambda>m'. value_bytes D m' msg' f p = Some v) (pb_dec_bytes env f p s h)"
proof -
  have z4: "unat (data_size f - 4) = unat (f_data_size f) - 4" "4 \<le> unat (f_data_size f)"
    using z by (simp_all add: unat_sub word_le_nat_alt)
  have "\<exists>bs. v = delimited bs \<and> length bs \<le> unat (f_data_size f) - 4"
  proof (cases "src = 0")
    case True
    then show ?thesis using v t by (auto simp: value_bytes_def)
  next
    case False
    then obtain n bs where n: "load_size m src = Some n" "\<not> data_size f - 4 < to_u64 n" "load_bytes m (src + 4) (unat n) = Some bs"
      "v = delimited bs" using v t a by (auto simp: value_bytes_def split: bind_splits if_splits)
    then have "length bs \<le> unat (f_data_size f) - 4" using length_load_bytes [OF n(3)] z4 by (simp add: word_less_nat_alt)
    then show ?thesis using n(4) by blast
  qed
  then obtain bs where bs: "v = delimited bs" "length bs + 4 \<le> unat (f_data_size f)" using z4 by auto
  have "unat (f_data_size f) < 2 ^ LENGTH(32)" by (rule unsigned_less)
  then have n: "length bs < 2 ^ 32" "length bs + 4 < 2 ^ 32" using bs(2) by simp_all
  let ?n = "word_of_nat (length bs) :: u32"
  have w: "unat ?n = length bs" using n by (simp add: unat_of_nat)
  have alloc: "unat (to_u64 ?n + 4) = length bs + 4" using n w by (simp add: unat_word_ariths)
  then have le: "\<not> data_size f < to_u64 ?n + 4" "\<not> to_u64 ?n + 4 < to_u64 ?n" using bs(2) w by (simp_all add: word_less_nat_alt)
  have sub: "bytes_of p 4 \<subseteq> R" "bytes_of (p + 4) (length bs) \<subseteq> R"
    using subset_trans [OF bytes_of_mono R(2), of 4] subset_trans [OF bytes_of_inside [of 4 "length bs" _ p, OF _] R(2)] bs(2)
    by (simp_all add: add.commute)
  have le4: "length bs \<le> unat (f_data_size f) - 4" using bs(2) by simp
  have apart: "bytes_of (p + 4) (length bs) \<inter> bytes_of p 4 = {}"
    using bytes_of_disjoint [of 4 "length bs" p] n(2) by (simp add: Int_commute)
  obtain h1 where h1: "h_store_word h p 4 ?n = Some h1" "alters (bytes_of p 4) h h1" "load_bytes (h_mem h1) p 4 = Some (le_bytes 4 (unat ?n))"
    using h_store_word_load [of h p 4 ?n] mapped_mono [OF R(1) sub(1)] by auto
  have ptr: "load_size (h_mem h1) p = Some ?n" by (rule load_word_back [OF h1(3)]) simp
  have w1: "alters R h h1" by (rule alters_mono [OF h1(2) sub(1)])
  have m1: "mapped h1 R" using R(1) w1 by (simp add: alters_mapped)
  show ?thesis
    unfolding bs(1) pb_dec_bytes_def Let_def
  proof (rule delimited_decoded [OF s(1) s(2) [unfolded bs(1)] n(1)])
    fix t :: "'a pb_istream" assume t: "buf_ok t" "buf_content t = bs @ rest"
    have "decoded (bytes_of (p + 4) (length bs)) bs t h1 (\<lambda>m'. load_bytes m' (p + 4) (length bs) = Some bs)
      (pb_read_mem (p + 4) (to_u64 ?n) t h1)"
      using w mapped_mono [OF m1 sub(2)] by (intro read_mem_decoded [OF t]) simp_all
    then have "decoded R bs t h (\<lambda>m'. value_bytes D m' msg' f p = Some (delimited bs)) (pb_read_mem (p + 4) (to_u64 ?n) t h1)"
    proof (rule decoded_weaken [OF _ sub(2) w1])
      fix h' assume h': "alters (bytes_of (p + 4) (length bs)) h1 h'" "load_bytes (h_mem h') (p + 4) (length bs) = Some bs"
      have "load_size (h_mem h') p = Some ?n" using load_word_agree [OF alters_agree [OF h'(1) apart], where 'a = 32] ptr by simp
      then show "value_bytes D (h_mem h') msg' f p = Some (delimited bs)"
        using h'(2) \<open>ltype f = PB_LTYPE_BYTES\<close> p w z4 le4 by (simp add: value_bytes_def word_less_nat_alt linorder_not_less)
    qed
    then show "decoded R bs t h (\<lambda>m'. value_bytes D m' msg' f p = Some (delimited bs))
       (if PB_SIZE_MAX < ?n then d_fail ''bytes overflow'' t h
        else if to_u64 ?n + 4 < to_u64 ?n then d_fail ''size too large'' t h
        else if atype f = PB_ATYPE_POINTER then
          if bytes_left t < to_u64 ?n then d_fail ''end-of-stream'' t h
          else dec_then (allocate_field env p (to_u64 ?n + 4) 1 t h) (\<lambda>s h. do { bdest \<leftarrow> h_ptr h p;
            store_then (h_store_word h bdest 4 ?n) (pb_read_mem (bdest + 4) (to_u64 ?n) s) })
        else if data_size f < to_u64 ?n + 4 then d_fail ''bytes overflow'' t h
        else store_then (h_store_word h p 4 ?n) (pb_read_mem (p + 4) (to_u64 ?n) t))"
      using le h1(1) a small [of ?n] by simp
  qed
qed

lemma string_size_load:
  "string_size m p k = Some n \<Longrightarrow> n \<le> k \<and> (\<exists>bs. load_bytes m p n = Some bs \<and> 0 \<notin> set bs)"
proof (induction k arbitrary: p n)
  case (Suc k)
  obtain c where c: "m p = Some c" using Suc.prems by (cases "m p") auto
  show ?case
  proof (cases "c = 0")
    case False
    then obtain n' where "string_size m (p + 1) k = Some n'" "n = Suc n'" using Suc.prems c by auto
    then show ?thesis using Suc.IH [of "p + 1" n'] c False by auto
  qed (use Suc.prems c in auto)
qed simp

lemma string_size_store:
  "load_bytes m p (length bs) = Some bs \<Longrightarrow> 0 \<notin> set bs \<Longrightarrow> m (p + word_of_nat (length bs)) = Some 0 \<Longrightarrow> length bs < k \<Longrightarrow>
    string_size m p k = Some (length bs)"
proof (induction bs arbitrary: p k)
  case Nil
  then show ?case by (cases k) auto
next
  case (Cons b bs)
  obtain k' where k: "k = Suc k'" using Cons.prems(4) by (cases k) auto
  have "string_size m (p + 1) k' = Some (length bs)"
    using Cons.prems k by (intro Cons.IH) (auto simp: add.assoc split: bind_splits)
  then show ?case using Cons.prems k by (auto split: bind_splits)
qed

lemma string_decoded:
  assumes s: "buf_ok s" "buf_content s = v @ rest" and v: "value_bytes D m msg f src = Some v"
    and t: "ltype f = PB_LTYPE_STRING" and a: "atype f = PB_ATYPE_STATIC" and p: "p \<noteq> 0" and pos: "0 < f_data_size f"
    and nul: "src \<noteq> 0 \<Longrightarrow> string_size m src (unat (f_data_size f)) \<noteq> Some (unat (f_data_size f))"
    and R: "mapped h R" "bytes_of p (unat (f_data_size f)) \<subseteq> R"
  shows "decoded R v s h (\<lambda>m'. value_bytes D m' msg' f p = Some v) (pb_dec_string env f p s h)"
proof -
  let ?k = "unat (f_data_size f)"
  obtain n bs where n: "(if src = 0 then Some 0 else string_size m src ?k) = Some n" "load_bytes m src n = Some bs" "v = delimited bs"
    using v t a by (auto simp: value_bytes_def cong: if_cong split: bind_splits)
  have len: "length bs = n" by (rule length_load_bytes [OF n(2)])
  have "0 < ?k" using pos by (simp add: word_less_nat_alt)
  then have lt: "length bs < ?k" and nz: "0 \<notin> set bs"
    using n(1,2) nul string_size_load [of m src ?k n] by (auto simp: len split: if_splits)
  have "?k < 2 ^ LENGTH(32)" by (rule unsigned_less)
  then have l32: "length bs < 2 ^ 32" "length bs + 1 < 2 ^ 32" using lt by simp_all
  let ?n = "word_of_nat (length bs) :: u32"
  have w: "unat ?n = length bs" using l32 by (simp add: unat_of_nat)
  have w1: "unat (?n + 1) = length bs + 1" using l32 w by (simp add: unat_word_ariths)
  then have le: "\<not> data_size f < to_u64 (?n + 1)" "\<not> to_u64 (?n + 1) < to_u64 ?n" using lt w by (simp_all add: word_less_nat_alt)
  have wn: "to_u64 ?n = word_of_nat (length bs)" using word_of_unatI [of "to_u64 ?n" "length bs"] w by simp
  have sub: "bytes_of p (length bs) \<subseteq> R" "bytes_of (p + word_of_nat (length bs)) 1 \<subseteq> R"
    using subset_trans [OF bytes_of_mono R(2), of "length bs"] subset_trans [OF bytes_of_inside [of "length bs" 1 _ p, OF _] R(2)] lt
    by simp_all
  have apart: "bytes_of (p + word_of_nat (length bs)) 1 \<inter> bytes_of p (length bs) = {}"
    using bytes_of_disjoint [of "length bs" 1 p] l32 by (simp add: Int_commute)
  show ?thesis
    unfolding n(3) pb_dec_string_def Let_def
  proof (rule delimited_decoded [OF s(1) s(2) [unfolded n(3)] l32(1)])
    fix t :: "'a pb_istream" assume t: "buf_ok t" "buf_content t = bs @ rest"
    let ?Q = "\<lambda>m'. value_bytes D m' msg' f p = Some (delimited bs)"
    have "decoded R bs t h (\<lambda>m'. load_bytes m' p (length bs) = Some bs) (pb_read_mem p (to_u64 ?n) t h)"
      using w R(1) sub(1) by (intro read_mem_decoded [OF t]) simp_all
    then obtain t1 h1 where r: "pb_read_mem p (to_u64 ?n) t h = Some (True, t1, h1)" "stepped bs t t1" "alters R h h1"
      "load_bytes (h_mem h1) p (length bs) = Some bs" by (auto simp: decoded_def)
    have m1: "mapped h1 R" using R(1) r(3) by (simp add: alters_mapped)
    obtain h2 where h2: "h_store h1 (p + word_of_nat (length bs)) [0] = Some h2" "alters (bytes_of (p + word_of_nat (length bs)) 1) h1 h2"
      "load_bytes (h_mem h2) (p + word_of_nat (length bs)) 1 = Some [0]"
      using h_store_load [of h1 "p + word_of_nat (length bs)" "[0]"] mapped_mono [OF m1 sub(2)] by auto
    have "load_bytes (h_mem h2) p (length bs) = Some bs" using load_bytes_agree [OF alters_agree [OF h2(2) apart]] r(4) by simp
    then have "string_size (h_mem h2) p ?k = Some (length bs)"
      using h2(3) nz lt by (intro string_size_store) (auto split: bind_splits)
    then have Q: "?Q (h_mem h2)"
      using \<open>ltype f = PB_LTYPE_STRING\<close> a p \<open>load_bytes (h_mem h2) p (length bs) = Some bs\<close> by (simp add: value_bytes_def)
    have "decoded R bs t h ?Q (Some (True, t1, h2))"
      using decoded_Some [OF r(2) alters_trans [OF r(3) alters_mono [OF h2(2) sub(2)]], of ?Q] Q by simp
    then show "decoded R bs t h ?Q
       (if to_u64 (?n + 1) < to_u64 ?n then d_fail ''size too large'' t h
        else if atype f = PB_ATYPE_POINTER then
          if bytes_left t < to_u64 ?n then d_fail ''end-of-stream'' t h
          else dec_then (allocate_field env p (to_u64 (?n + 1)) 1 t h) (\<lambda>s h. do { dest \<leftarrow> h_ptr h p;
              (status, s, h) \<leftarrow> pb_read_mem dest (to_u64 ?n) s h;
              store_then (h_store h (dest + to_u64 ?n) [0]) (\<lambda>h. Some (status, s, h)) })
        else if data_size f < to_u64 (?n + 1) then d_fail ''string overflow'' t h
        else do { (status, s, h) \<leftarrow> pb_read_mem p (to_u64 ?n) t h;
              store_then (h_store h (p + to_u64 ?n) [0]) (\<lambda>h. Some (status, s, h)) })"
      using le r(1) h2(1) a by (simp add: wn)
  qed
qed

text \<open>A message inside, given that decoding its bytes gives back a message with these bytes.\<close>

lemma submessage_decoded:
  assumes s: "buf_ok s" "buf_content s = v @ rest" and v: "value_bytes D m msg f src = Some v"
    and t: "ltype f = PB_LTYPE_SUBMESSAGE" and nr: "htype f \<noteq> PB_HTYPE_REPEATED" and len: "length v < 2 ^ 32"
    and sub: "\<And>fs bs t. fields_at D (f_ptr f) = Some fs \<Longrightarrow> msg fs src = Some bs \<Longrightarrow> length bs < 2 ^ 32 \<Longrightarrow> buf_ok t \<Longrightarrow> buf_content t = bs \<Longrightarrow>
      decoded R bs t h (\<lambda>m'. msg' m' fs p = Some bs) (noinit fs p t h)"
    and env: "d_fields env = D"
  shows "decoded R v s h (\<lambda>m'. value_bytes D m' (msg' m') f p = Some v) (pb_dec_submessage env init noinit f p s h)"
proof -
  obtain fs bs where fs: "fields_at D (f_ptr f) = Some fs" "msg fs src = Some bs" "v = delimited bs" "f_ptr f \<noteq> 0"
    using v t by (auto simp: value_bytes_def split: bind_splits if_splits)
  have n: "length bs < 2 ^ 32" using len fs(3) by (simp add: delimited_def)
  have c: "buf_content s = base128 (length bs) @ bs @ rest" using s(2) fs(3) by (simp add: delimited_def)
  obtain sub parent where mk: "pb_make_string_substream s = (Some sub, parent)" "buf_ok sub" "buf_content sub = bs"
    and close: "\<And>sub'. reads sub sub' \<Longrightarrow>
      \<exists>s'. pb_close_string_substream parent sub' = (Some (), s') \<and> buf_ok s' \<and> buf_content s' = rest \<and> reads s s'"
    using delimited_substream [OF s(1) c n] by blast
  obtain sub' h' where dec: "noinit fs p sub h = Some (True, sub', h')" "stepped bs sub sub'" "alters R h h'" "msg' (h_mem h') fs p = Some bs"
    using sub [OF fs(1,2) n mk(2,3)] by (auto simp: decoded_def)
  obtain s' where s': "pb_close_string_substream parent sub' = (Some (), s')" "stepped v s s'"
    using close [of sub'] dec(2) s(2) by (auto simp: stepped_def)
  have "value_bytes D (h_mem h') (msg' (h_mem h')) f p = Some v" using fs t dec(4) by (simp add: value_bytes_def)
  then show ?thesis
    using decoded_Some [OF s'(2) dec(3), of "\<lambda>m'. value_bytes D m' (msg' m') f p = Some v"] mk(1) fs(1,4) nr dec(1) s'(1) env
    by (simp add: pb_dec_submessage_def wire_then_def)
qed

end
