(* ===== verification/NanopbPlain.thy ===== *)
theory NanopbPlain
  imports NanopbValues
begin

text \<open>
  Messages of plain fields: required fields, optional fields with a flag and singular fields without one, of
  every type a static field can have, messages in messages included. Their fields are laid out one
  after the other, the encoding of a message is the concatenation of what its fields write, and a field
  depends on nothing but its own addresses.
\<close>

section \<open>Messages of single fields\<close>

text \<open>Singular fields: optional, present when they are not the default value.\<close>

definition singular :: "pb_field \<Rightarrow> bool" where
  "singular f \<longleftrightarrow> htype f = PB_HTYPE_OPTIONAL \<and> f_size_offset f = 0"

definition plain_field :: "(addr \<Rightarrow> bool) \<Rightarrow> pb_field \<Rightarrow> bool" where
  "plain_field sub f \<longleftrightarrow>
    f_tag f \<noteq> 0 \<and> f_tag f < 0x20000000 \<and> 0 < f_data_size f \<and> atype f = PB_ATYPE_STATIC \<and>
    ltype f \<le> PB_LTYPE_FIXED_LENGTH_BYTES \<and> ltype f \<noteq> PB_LTYPE_EXTENSION \<and>
    (htype f = PB_HTYPE_REQUIRED \<or> htype f = PB_HTYPE_OPTIONAL) \<and>
    (singular f \<longrightarrow> ltype f \<le> PB_LTYPE_STRING \<and> f_ptr f = 0) \<and>
    (ltype f = PB_LTYPE_FIXED32 \<longrightarrow> f_data_size f = 4) \<and> (ltype f = PB_LTYPE_FIXED64 \<longrightarrow> f_data_size f = 8) \<and>
    (ltype f = PB_LTYPE_BOOL \<longrightarrow> f_data_size f = 1) \<and>
    (ltype f = PB_LTYPE_BYTES \<longrightarrow> 4 \<le> f_data_size f) \<and>
    (ltype f = PB_LTYPE_SUBMESSAGE \<longrightarrow> sub (f_ptr f))"

fun plain :: "nat \<Rightarrow> desc_table \<Rightarrow> pb_field list \<Rightarrow> bool" where
  "plain 0 D fs = False"
| "plain (Suc d) D fs =
    (distinct (map f_tag fs) \<and>
     (\<forall>f \<in> set fs. plain_field (\<lambda>p. case fields_at D p of None \<Rightarrow> False | Some fs \<Rightarrow> plain d D fs) f))"

text \<open>The addresses of a field: its data, and its flag. The fields of a struct do not overlap.\<close>

definition field_addrs :: "pb_field_iter \<Rightarrow> addr list" where
  "field_addrs it =
    map (\<lambda>i. pData it + word_of_nat i) [0..<item_room (cur it)] @
    (if htype (cur it) = PB_HTYPE_OPTIONAL \<and> \<not> singular (cur it) then [pData it + size_offset (cur it)] else [])"

fun separate :: "nat \<Rightarrow> desc_table \<Rightarrow> pb_field list \<Rightarrow> addr \<Rightarrow> bool" where
  "separate 0 D fs dest = False"
| "separate (Suc d) D fs dest =
    (distinct (concat (map field_addrs (struct_iters fs dest))) \<and>
     (\<forall>it \<in> set (struct_iters fs dest). ltype (cur it) = PB_LTYPE_SUBMESSAGE \<longrightarrow>
       (case fields_at D (f_ptr (cur it)) of None \<Rightarrow> False | Some fs \<Rightarrow> separate d D fs (pData it))))"

text \<open>Whether a field of the message at \<open>data\<close> is present.\<close>

definition zero_value :: "mem \<Rightarrow> pb_field \<Rightarrow> addr \<Rightarrow> bool option" where
  "zero_value m f p =
    (if ltype f = PB_LTYPE_BYTES then map_option (\<lambda>c. c = 0) (load_size m p)
     else if ltype f = PB_LTYPE_STRING then map_option (\<lambda>c. c = 0) (m p)
     else all_zero m p (unat (f_data_size f)))"

definition present :: "mem \<Rightarrow> pb_field \<Rightarrow> addr \<Rightarrow> bool option" where
  "present m f p =
    (if htype f = PB_HTYPE_REQUIRED then Some True
     else if \<not> singular f then safe_read_bool m (p + size_offset f)
     else map_option Not (zero_value m f p))"

text \<open>What is asked of the message that is encoded: neither it nor a field of it that is present is at
  NULL, and its strings end inside their arrays.\<close>

fun sound :: "nat \<Rightarrow> desc_table \<Rightarrow> mem \<Rightarrow> pb_field list \<Rightarrow> addr \<Rightarrow> bool" where
  "sound 0 D m fs src = False"
| "sound (Suc d) D m fs src =
    (src \<noteq> 0 \<and>
     (\<forall>it \<in> set (struct_iters fs src). present m (cur it) (pData it) = Some True \<longrightarrow> pData it \<noteq> 0 \<and>
       (ltype (cur it) = PB_LTYPE_STRING \<longrightarrow>
          string_size m (pData it) (unat (f_data_size (cur it))) \<noteq> Some (unat (f_data_size (cur it)))) \<and>
       (ltype (cur it) = PB_LTYPE_SUBMESSAGE \<longrightarrow>
          (case fields_at D (f_ptr (cur it)) of None \<Rightarrow> False | Some fs \<Rightarrow> sound d D m fs (pData it)))))"

text \<open>The fields in their order: a field follows the end of the one before it.\<close>

fun field_offset :: "pb_field list \<Rightarrow> nat \<Rightarrow> addr" where
  "field_offset fs 0 = data_offset (field_at fs 0)"
| "field_offset fs (Suc i) = field_offset fs i + data_size (field_at fs i) + data_offset (field_at fs (Suc i))"

definition required_before :: "pb_field list \<Rightarrow> nat \<Rightarrow> nat" where
  "required_before fs i = length (filter (\<lambda>f. htype f = PB_HTYPE_REQUIRED) (take i fs))"

definition iter_at :: "pb_field list \<Rightarrow> addr \<Rightarrow> nat \<Rightarrow> pb_field_iter" where
  "iter_at fs dest i =
    \<lparr>it_start = fs, it_pos = i, required_field_index = required_before fs i, dest_struct = dest,
     pData = dest + field_offset fs i, pSize = At (dest + field_offset fs i + size_offset (field_at fs i))\<rparr>"

lemma iter_at_simps [simp]:
  "it_start (iter_at fs dest i) = fs" "it_pos (iter_at fs dest i) = i" "cur (iter_at fs dest i) = field_at fs i"
  "pSize (iter_at fs dest i) = At (pData (iter_at fs dest i) + size_offset (field_at fs i))"
  "required_field_index (iter_at fs dest i) = required_before fs i"
  by (simp_all add: iter_at_def cur_def)

lemma plain_fieldD:
  assumes "plain_field sub f"
  shows "f_tag f \<noteq> 0" "f_tag f < 0x20000000" "atype f = PB_ATYPE_STATIC" "ltype f \<noteq> PB_LTYPE_EXTENSION"
    "htype f = PB_HTYPE_REQUIRED \<or> htype f = PB_HTYPE_OPTIONAL" "htype f \<noteq> PB_HTYPE_REPEATED" "htype f \<noteq> PB_HTYPE_ONEOF"
  using assms by (auto simp: plain_field_def)

definition nested_plain :: "nat \<Rightarrow> desc_table \<Rightarrow> addr \<Rightarrow> bool" where
  "nested_plain d D p = (case fields_at D p of None \<Rightarrow> False | Some fs \<Rightarrow> plain d D fs)"

lemma plain_distinct: "plain d D fs \<Longrightarrow> distinct (map f_tag fs)"
  by (cases d) simp_all

lemma plain_at: "plain (Suc d) D fs \<Longrightarrow> i < length fs \<Longrightarrow> plain_field (nested_plain d D) (field_at fs i)"
  by (simp add: field_at_def nested_plain_def [abs_def])

lemma plain_some:
  assumes "plain d D fs" "i < length fs"
  obtains sub where "plain_field sub (field_at fs i)"
proof (cases d)
  case (Suc d')
  then show ?thesis using assms plain_at [of d' D fs i] that by blast
qed (use assms in simp)

lemma required_before_Suc:
  "i < length fs \<Longrightarrow> required_before fs (Suc i) = required_before fs i + (if htype (field_at fs i) = PB_HTYPE_REQUIRED then 1 else 0)"
  by (simp add: required_before_def take_Suc_conv_app_nth field_at_def)

lemma begin_iter_at: "dest \<noteq> 0 \<Longrightarrow> pb_field_iter_begin fs dest = (f_tag (field_at fs 0) \<noteq> 0, iter_at fs dest 0)"
  by (simp add: pb_field_iter_begin_def iter_at_def Let_def required_before_def)

lemma next_iter_at:
  assumes p: "plain d D fs" and i: "i < length fs" and dest: "dest \<noteq> 0"
  shows "pb_field_iter_next (iter_at fs dest i) =
    (if Suc i < length fs then (True, iter_at fs dest (Suc i)) else (False, iter_at fs dest 0))"
proof -
  obtain sub sub' where f: "plain_field sub (field_at fs i)" "Suc i < length fs \<Longrightarrow> plain_field sub' (field_at fs (Suc i))"
    using plain_some [OF p i] plain_some [OF p, of "Suc i"] by metis
  have last: "f_tag (field_at fs (Suc i)) = 0" if "\<not> Suc i < length fs"
    using that by (simp add: field_at_def PB_LAST_FIELD_def)
  show ?thesis
    using plain_fieldD [OF f(1)] plain_fieldD [OF f(2)] last i begin_iter_at [OF dest, of fs]
    by (auto simp: pb_field_iter_next_def Let_def iter_at_def cur_def required_before_Suc add.assoc)
qed

lemma struct_iters_at:
  assumes p: "plain d D fs" and dest: "dest \<noteq> 0" and n: "fs \<noteq> []"
  shows "struct_iters fs dest = map (iter_at fs dest) [0..<length fs]"
proof -
  have "field_iters (iter_at fs dest i) = map (iter_at fs dest) [i..<length fs]" if "i < length fs" for i
    using that
  proof (induction "length fs - i" arbitrary: i rule: less_induct)
    case less
    show ?case
    proof (cases "Suc i < length fs")
      case True
      then show ?thesis
        using less.hyps [of "Suc i"] less.prems next_iter_at [OF p less.prems dest]
        by (subst field_iters.simps) (simp add: upt_conv_Cons)
    next
      case False
      then show ?thesis
        using less.prems next_iter_at [OF p less.prems dest] by (subst field_iters.simps) (simp add: upt_conv_Cons)
    qed
  qed
  then show ?thesis using n by (simp add: struct_iters_def begin_iter_at [OF dest])
qed

lemma find_iter_at:
  assumes p: "plain d D fs" and dest: "dest \<noteq> 0" and ij: "i \<le> j" "j < length fs"
  shows "pb_field_iter_find (iter_at fs dest i) (f_tag (field_at fs j)) = (True, iter_at fs dest j)"
proof -
  obtain sub where f: "plain_field sub (field_at fs j)" using plain_some [OF p ij(2)] .
  note dist = plain_distinct [OF p]
  let ?w = "\<lambda>f. f_tag f = f_tag (field_at fs j) \<and> ltype f \<noteq> PB_LTYPE_EXTENSION"
  have here: "?w (field_at fs j)" using plain_fieldD(4) [OF f] by simp
  have other: "f_tag (field_at fs i) \<noteq> f_tag (field_at fs j)" if "i < j" for i
    using that dist ij(2) by (auto simp: field_at_def distinct_conv_nth)
  have "iter_find_loop n start ?w (iter_at fs dest i) = (True, iter_at fs dest j)" if "i \<le> j" "start \<le> i" "j \<le> n + i" for n start i
    using that
  proof (induction n arbitrary: i)
    case 0
    then show ?case using here by (simp add: iter_find_loop.simps)
  next
    case (Suc n)
    show ?case
    proof (cases "i = j")
      case True
      then show ?thesis using here by (simp add: iter_find_loop.simps)
    next
      case False
      then have "i < j" "i < length fs" "Suc i < length fs" using Suc.prems(1) ij(2) by simp_all
      then show ?thesis
        using Suc.prems Suc.IH [of "Suc i"] other [of i] next_iter_at [OF p _ dest, of i]
        by (subst iter_find_loop.simps) (simp add: Let_def)
    qed
  qed
  then show ?thesis using ij by (simp add: pb_field_iter_find_def)
qed

section \<open>What a field depends on\<close>

lemma low_types:
  assumes "(t :: u8) \<le> PB_LTYPE_STRING"
  shows "t \<noteq> PB_LTYPE_SUBMESSAGE" "t \<noteq> PB_LTYPE_EXTENSION" "t \<noteq> PB_LTYPE_FIXED_LENGTH_BYTES"
  using assms by auto

lemma field_bytes_present:
  assumes f: "plain_field sub f"
  shows "any_field_bytes n D U m msg f p = Some v \<longleftrightarrow>
    (singular f \<longrightarrow> 0 < n) \<and> (htype f = PB_HTYPE_REQUIRED \<longrightarrow> p \<noteq> 0) \<and>
    do { has \<leftarrow> present m f p; if has then both (tag_bytes f) (value_bytes D m msg f p) else Some [] } = Some v"
proof -
  have t: "ltype f \<le> PB_LTYPE_FIXED_LENGTH_BYTES" and low: "singular f \<Longrightarrow> ltype f \<le> PB_LTYPE_STRING"
    using f by (simp_all add: plain_field_def)
  note d = plain_fieldD [OF f]
  have eq: "any_field_bytes n D U m msg f p = basic_field_bytes n D m msg f p"
    using d(3,4) t by (simp add: any_field_bytes_def field_bytes_def)
  show ?thesis
  proof (cases "singular f")
    case True
    then have o: "htype f = PB_HTYPE_OPTIONAL" "f_size_offset f = 0" by (simp_all add: singular_def)
    show ?thesis
    proof (cases n)
      case 0
      then show ?thesis using eq True o d(3) by (simp add: basic_field_bytes_def Let_def)
    next
      case (Suc n')
      have "pb_check_proto3_default_value n D m f p = zero_value m f p"
        using o d(3) low_types [OF low [OF True]] by (simp add: Suc zero_value_def)
      then show ?thesis
        using eq True o d(3) Suc by (cases "zero_value m f p") (simp_all add: basic_field_bytes_def present_def Let_def)
    qed
  next
    case False
    then have o: "htype f = PB_HTYPE_OPTIONAL \<Longrightarrow> f_size_offset f \<noteq> 0" by (simp add: singular_def)
    show ?thesis
    proof (cases "htype f = PB_HTYPE_REQUIRED")
      case True
      then show ?thesis using eq d(3) False by (simp add: basic_field_bytes_def present_def Let_def)
    next
      case opt: False
      then show ?thesis
        using eq d(3,5) False o by (cases "safe_read_bool m (p + size_offset f)") (simp_all add: basic_field_bytes_def present_def Let_def)
    qed
  qed
qed

text \<open>The bytes of a value of a type.\<close>

lemma value_bytes_BYTES: "ltype f = PB_LTYPE_BYTES \<Longrightarrow> atype f = PB_ATYPE_STATIC \<Longrightarrow> value_bytes D m msg f p =
    (if p = 0 then Some (delimited [])
     else do { n \<leftarrow> load_size m p;
               if data_size f - 4 < to_u64 n then None else map_option delimited (load_bytes m (p + 4) (unat n)) })"
  and value_bytes_STRING: "ltype f = PB_LTYPE_STRING \<Longrightarrow> atype f = PB_ATYPE_STATIC \<Longrightarrow> value_bytes D m msg f p =
    do { n \<leftarrow> (if p = 0 then Some 0 else string_size m p (unat (f_data_size f))); map_option delimited (load_bytes m p n) }"
  and value_bytes_SUBMESSAGE: "ltype f = PB_LTYPE_SUBMESSAGE \<Longrightarrow> value_bytes D m msg f p =
    (if f_ptr f = 0 then None else do { fs \<leftarrow> fields_at D (f_ptr f); map_option delimited (msg fs p) })"
  and value_bytes_FIXED_LENGTH: "ltype f = PB_LTYPE_FIXED_LENGTH_BYTES \<Longrightarrow>
    value_bytes D m msg f p = map_option delimited (load_bytes m p (unat (f_data_size f)))"
  by (simp_all add: value_bytes_def)

lemma string_size_agree: "agree (bytes_of p k) m m' \<Longrightarrow> string_size m p k = string_size m' p k"
proof (induction k arbitrary: p)
  case (Suc k)
  then have "m p = m' p" "agree (bytes_of (p + 1) k) m m'" by (auto simp: agree_def bytes_of_Suc)
  then show ?case using Suc.IH by (cases "m' p") simp_all
qed simp

lemma all_zero_agree: "agree (bytes_of p k) m m' \<Longrightarrow> all_zero m p k = all_zero m' p k"
proof (induction k arbitrary: p)
  case (Suc k)
  then have "m p = m' p" "agree (bytes_of (p + 1) k) m m'" by (auto simp: agree_def bytes_of_Suc)
  then show ?case using Suc.IH by (cases "m' p") simp_all
qed simp

lemma agree_start: "agree (bytes_of p n) m m' \<Longrightarrow> k \<le> n \<Longrightarrow> agree (bytes_of p k) m m'"
  by (rule agree_mono [OF _ bytes_of_mono])

lemma load_int_agree:
  assumes "agree (bytes_of p (unat sz)) m m'"
  shows "load_int64 m sz p = load_int64 m' sz p" "load_uint64 m sz p = load_uint64 m' sz p"
  using load_word_agree [of p 1 m m', where 'a = 8] load_word_agree [of p 2 m m', where 'a = 16]
    load_word_agree [of p 4 m m', where 'a = 32] load_word_agree [of p 8 m m', where 'a = 64] assms
  by (auto simp: load_int64_def load_uint64_def)

lemma room_agree:
  assumes "agree (bytes_of p (item_room f)) m m'"
  shows "agree (bytes_of p (unat (f_data_size f))) m m'"
  by (rule agree_start [OF assms]) (simp add: item_room_def)

lemma value_bytes_agree:
  assumes f: "plain_field sub f" and a: "agree (bytes_of p (item_room f)) m m'"
    and s: "\<And>fs. ltype f = PB_LTYPE_SUBMESSAGE \<Longrightarrow> fields_at D (f_ptr f) = Some fs \<Longrightarrow> msg fs p = msg' fs p"
  shows "value_bytes D m msg f p = value_bytes D m' msg' f p"
proof -
  let ?k = "unat (f_data_size f)"
  note ak = room_agree [OF a]
  have types: "ltype f = PB_LTYPE_FIXED32 \<Longrightarrow> f_data_size f = 4" "ltype f = PB_LTYPE_FIXED64 \<Longrightarrow> f_data_size f = 8"
    "ltype f = PB_LTYPE_BOOL \<Longrightarrow> f_data_size f = 1" "ltype f = PB_LTYPE_BYTES \<Longrightarrow> 4 \<le> f_data_size f" "atype f = PB_ATYPE_STATIC"
    using f by (simp_all add: plain_field_def)
  consider "ltype f = PB_LTYPE_BOOL" | "ltype f = PB_LTYPE_FIXED32" | "ltype f = PB_LTYPE_FIXED64" | "ltype f = PB_LTYPE_BYTES"
    | "ltype f = PB_LTYPE_STRING" | "ltype f = PB_LTYPE_SUBMESSAGE"
    | "ltype f \<notin> {PB_LTYPE_BOOL, PB_LTYPE_FIXED32, PB_LTYPE_FIXED64, PB_LTYPE_BYTES, PB_LTYPE_STRING, PB_LTYPE_SUBMESSAGE}"
    by blast
  then show ?thesis
  proof cases
    case 1
    then have "m p = m' p" using ak types(3) by (simp add: agree_def bytes_of_Suc)
    then show ?thesis using 1 by (simp add: value_bytes_def safe_read_bool_def)
  next
    case 2
    then show ?thesis using load_word_agree [of p 4 m m', where 'a = 32] ak types(1) by (simp add: value_bytes_def)
  next
    case 3
    then show ?thesis using load_word_agree [of p 8 m m', where 'a = 64] ak types(2) by (simp add: value_bytes_def)
  next
    case 4
    then have z4: "unat (data_size f - 4) = ?k - 4" "4 \<le> ?k"
      using types(4) by (simp_all add: unat_sub word_le_nat_alt)
    have size: "load_size m p = load_size m' p" by (rule load_word_agree [OF agree_start [OF ak z4(2)]])
    have "load_bytes m (p + 4) (unat n) = load_bytes m' (p + 4) (unat n)" if "\<not> data_size f - 4 < to_u64 n" for n :: u32
    proof (rule load_bytes_agree [OF agree_mono [OF ak]])
      have "4 + unat n \<le> ?k" using that z4 by (simp add: word_less_nat_alt)
      then show "bytes_of (p + 4) (unat n) \<subseteq> bytes_of p ?k" using bytes_of_inside [of 4 "unat n" ?k p] by simp
    qed
    then show ?thesis using 4 types(5) size by (cases "load_size m' p") (simp_all add: value_bytes_BYTES)
  next
    case 5
    have "load_bytes m p n = load_bytes m' p n" if "(if p = 0 then Some 0 else string_size m' p ?k) = Some n" for n
    proof (rule load_bytes_agree [OF agree_start [OF ak]])
      show "n \<le> ?k" using that string_size_load [of m' p ?k n] by (auto split: if_splits)
    qed
    then show ?thesis using 5 types(5) string_size_agree [OF ak]
      by (cases "p = 0"; cases "string_size m' p ?k") (simp_all add: value_bytes_STRING)
  next
    case 6
    then show ?thesis using s by (cases "fields_at D (f_ptr f)") (simp_all add: value_bytes_SUBMESSAGE)
  next
    case 7
    then show ?thesis using load_int_agree [OF ak] load_bytes_agree [OF ak] by (simp add: value_bytes_def Let_def)
  qed
qed

lemma size_offset_zero: "(scast (x :: u32) :: u64) = 0 \<longleftrightarrow> x = 0"
proof
  assume "(scast x :: u64) = 0"
  then have "ucast (scast x :: u64) = (0 :: u32)" by simp
  moreover have "ucast (scast x :: u64) = x" by transfer (simp add: take_bit_signed_take_bit)
  ultimately show "x = 0" by simp
qed simp

lemma field_addrs_data: "set (field_addrs it) = bytes_of (pData it) (item_room (cur it)) \<union>
    (if htype (cur it) = PB_HTYPE_OPTIONAL \<and> \<not> singular (cur it) then {pData it + size_offset (cur it)} else {})"
  by (auto simp: field_addrs_def bytes_of_def)

lemma present_agree:
  assumes f: "plain_field sub (cur it)" and a: "agree (set (field_addrs it)) m m'"
  shows "present m (cur it) (pData it) = present m' (cur it) (pData it)"
proof -
  have a': "agree (bytes_of (pData it) (item_room (cur it))) m m'" using a by (rule agree_mono) (auto simp: field_addrs_data)
  note ak = room_agree [OF a']
  show ?thesis
  proof (cases "singular (cur it)")
    case True
    then have o: "0 < unat (f_data_size (cur it))" "ltype (cur it) = PB_LTYPE_BYTES \<Longrightarrow> 4 \<le> unat (f_data_size (cur it))"
      using f by (auto simp: plain_field_def word_less_nat_alt word_le_nat_alt)
    have "m (pData it) = m' (pData it)" using ak o(1) by (simp add: agree_def)
    moreover have "ltype (cur it) = PB_LTYPE_BYTES \<Longrightarrow> load_size m (pData it) = load_size m' (pData it)"
      by (rule load_word_agree [OF agree_start [OF ak o(2)]])
    ultimately show ?thesis
      using True all_zero_agree [OF ak] by (simp add: present_def zero_value_def)
  next
    case False
    then show ?thesis
      using a plain_fieldD(5) [OF f] by (auto simp: present_def agree_def field_addrs_data safe_read_bool_def)
  qed
qed

lemma field_bytes_agree:
  assumes f: "plain_field sub (cur it)" and a: "agree (set (field_addrs it)) m m'"
    and s: "\<And>fs. ltype (cur it) = PB_LTYPE_SUBMESSAGE \<Longrightarrow> fields_at D (f_ptr (cur it)) = Some fs \<Longrightarrow> msg fs (pData it) = msg' fs (pData it)"
  shows "any_field_bytes n D U m msg (cur it) (pData it) = any_field_bytes n D U m' msg' (cur it) (pData it)"
proof -
  have a': "agree (bytes_of (pData it) (item_room (cur it))) m m'" using a by (rule agree_mono) (auto simp: field_addrs_data)
  have v: "value_bytes D m msg (cur it) (pData it) = value_bytes D m' msg' (cur it) (pData it)"
    by (rule value_bytes_agree [OF f a']) (rule s)
  have "any_field_bytes n D U m msg (cur it) (pData it) = Some v \<longleftrightarrow> any_field_bytes n D U m' msg' (cur it) (pData it) = Some v" for v
    by (simp only: field_bytes_present [OF f] present_agree [OF f a] v)
  then show ?thesis by (metis not_None_eq)
qed

section \<open>Messages as their fields\<close>

text \<open>What the field at position \<open>i\<close> writes.\<close>

definition field_out :: "nat \<Rightarrow> desc_table \<Rightarrow> user_bytes \<Rightarrow> mem \<Rightarrow> pb_field list \<Rightarrow> addr \<Rightarrow> nat \<Rightarrow> u8 list option" where
  "field_out n D U m fs src i =
    any_field_bytes n D U m (message_bytes n D U m) (field_at fs i) (pData (iter_at fs src i))"

lemma fields_bytes_foldr: "fields_bytes func it = foldr (\<lambda>j. both (func (cur j) (pData j))) (field_iters it) (Some [])"
proof (induction func it rule: fields_bytes.induct)
  case (1 func it)
  show ?case
  proof (cases "pb_field_iter_next it")
    case (Pair b it')
    show ?thesis
    proof (cases b)
      case True
      then show ?thesis using "1.IH" [OF Pair [symmetric]] Pair by (subst fields_bytes.simps, subst field_iters.simps) simp
    next
      case False
      then show ?thesis using Pair by (subst fields_bytes.simps, subst field_iters.simps) simp
    qed
  qed
qed

lemma message_bytes_fields:
  assumes p: "plain d D fs" and src: "src \<noteq> 0"
  shows "message_bytes (Suc n) D U m fs src = foldr (\<lambda>i. both (field_out n D U m fs src i)) [0..<length fs] (Some [])"
proof (cases "fs = []")
  case True
  then show ?thesis by (simp add: begin_iter_at [OF src] field_at_def PB_LAST_FIELD_def)
next
  case False
  then obtain sub where f: "plain_field sub (field_at fs 0)" using plain_some [OF p, of 0] by auto
  have "field_iters (iter_at fs src 0) = map (iter_at fs src) [0..<length fs]"
    using struct_iters_at [OF p src False] begin_iter_at [OF src, of fs] by (simp add: struct_iters_def)
  then show ?thesis
    using plain_fieldD(1) [OF f] by (simp add: begin_iter_at [OF src] fields_bytes_foldr foldr_map comp_def field_out_def)
qed

lemma iter_at_in:
  assumes "plain d D fs" "dest \<noteq> 0" "i < length fs"
  shows "iter_at fs dest i \<in> set (struct_iters fs dest)"
proof -
  have "fs \<noteq> []" using assms(3) by auto
  then show ?thesis using struct_iters_at [OF assms(1,2)] assms(3) by simp
qed

lemma distinct_concat_nth:
  "distinct (concat xss) \<Longrightarrow> i < length xss \<Longrightarrow> j < length xss \<Longrightarrow> i \<noteq> j \<Longrightarrow> set (xss ! i) \<inter> set (xss ! j) = {}"
proof (induction xss arbitrary: i j)
  case (Cons xs xss)
  have "set (xss ! k) \<subseteq> set (concat xss)" if "k < length xss" for k using nth_mem [OF that] by (auto intro: bexI [of _ "xss ! k"])
  then show ?case using Cons.prems Cons.IH [of "i - 1" "j - 1"] by (cases i; cases j) fastforce+
qed simp

text \<open>A struct that can be the target of a message.\<close>

definition target :: "nat \<Rightarrow> desc_table \<Rightarrow> mem \<Rightarrow> pb_field list \<Rightarrow> addr \<Rightarrow> nat \<Rightarrow> bool" where
  "target d D m fs dest n \<longleftrightarrow> static_layout d D m fs dest n \<and> plain d D fs \<and> separate d D fs dest"

definition region :: "pb_field list \<Rightarrow> addr \<Rightarrow> nat \<Rightarrow> addr set" where
  "region fs dest i = set (field_addrs (iter_at fs dest i))"

lemma target_dom: "dom m = dom m' \<Longrightarrow> target d D m fs dest n = target d D m' fs dest n"
  by (simp add: target_def static_layout_dom [of m m'])

lemma targetD:
  assumes t: "target (Suc d) D m fs dest n"
  shows "dest \<noteq> 0" "plain (Suc d) D fs" "static_layout (Suc d) D m fs dest n"
    "i < length fs \<Longrightarrow> static_at d D m dest n (iter_at fs dest i)"
    "i < length fs \<Longrightarrow> plain_field (nested_plain d D) (field_at fs i)"
    "i < length fs \<Longrightarrow> on_field fs dest (iter_at fs dest i)"
    "i < length fs \<Longrightarrow> region fs dest i \<subseteq> bytes_of dest n"
proof -
  show dest: "dest \<noteq> 0" and p: "plain (Suc d) D fs" and l: "static_layout (Suc d) D m fs dest n"
    using t by (simp_all add: target_def)
  show f: "i < length fs \<Longrightarrow> plain_field (nested_plain d D) (field_at fs i)" by (rule plain_at [OF p])
  show o: "i < length fs \<Longrightarrow> on_field fs dest (iter_at fs dest i)"
    using iter_at_in [OF p dest] by (auto simp: on_field_def)
  show s: "i < length fs \<Longrightarrow> static_at d D m dest n (iter_at fs dest i)" by (rule layout_field [OF l o])
  show "region fs dest i \<subseteq> bytes_of dest n" if i: "i < length fs"
  proof -
    let ?it = "iter_at fs dest i"
    note f = plain_fieldD [OF f [OF i]]
    have "pData ?it + size_offset (cur ?it) \<in> bytes_of dest n" if "htype (cur ?it) = PB_HTYPE_OPTIONAL" "\<not> singular (cur ?it)"
    proof -
      have "count_room ?it = 1" using that size_offset_zero by (simp add: count_room_def singular_def)
      then show ?thesis using static_fieldD(7) [OF s [OF i] iter_at_simps(4)] by (simp add: bytes_of_Suc)
    qed
    moreover have "bytes_of (pData ?it) (item_room (cur ?it)) \<subseteq> bytes_of dest n"
      using static_fieldD(5) [OF s [OF i]] f(6) by simp
    ultimately show ?thesis unfolding region_def field_addrs_data by (auto split: if_splits)
  qed
qed

lemma target_separate:
  assumes t: "target (Suc d) D m fs dest n" and ij: "i < length fs" "j < length fs" "i \<noteq> j"
  shows "region fs dest i \<inter> region fs dest j = {}"
proof -
  have d: "distinct (concat (map field_addrs (struct_iters fs dest)))" using t by (simp add: target_def)
  have n: "fs \<noteq> []" using ij by auto
  note s = struct_iters_at [OF targetD(2,1) [OF t] n]
  show ?thesis using distinct_concat_nth [OF d, of i j] ij by (simp add: region_def s)
qed

lemma target_flag:
  assumes t: "target (Suc d) D m fs dest n" and i: "i < length fs"
    and o: "htype (field_at fs i) = PB_HTYPE_OPTIONAL" "\<not> singular (field_at fs i)"
  shows "pData (iter_at fs dest i) + size_offset (field_at fs i) \<notin> bytes_of (pData (iter_at fs dest i)) (item_room (field_at fs i))"
proof -
  have "iter_at fs dest i \<in> set (struct_iters fs dest)" by (rule iter_at_in [OF targetD(2,1) [OF t] i])
  moreover have "distinct (concat (map field_addrs (struct_iters fs dest)))" using t by (simp add: target_def)
  ultimately have "distinct (field_addrs (iter_at fs dest i))" by (auto simp: distinct_concat_iff)
  then show ?thesis using o by (auto simp: field_addrs_def bytes_of_def)
qed

lemma target_nested:
  assumes t: "target (Suc d) D m fs dest n" and i: "i < length fs" and s: "ltype (field_at fs i) = PB_LTYPE_SUBMESSAGE"
  obtains fs' where "fields_at D (f_ptr (field_at fs i)) = Some fs'"
    "target d D m fs' (pData (iter_at fs dest i)) (unat (f_data_size (field_at fs i)))"
proof -
  let ?it = "iter_at fs dest i"
  note f = plain_fieldD [OF targetD(5) [OF t i]]
  obtain fs' where fs': "fields_at D (f_ptr (field_at fs i)) = Some fs'"
    "static_layout d D m fs' (pData ?it) (unat (f_data_size (field_at fs i)))"
    using static_nested [OF static_fieldD(11) [OF targetD(4) [OF t i]]] s f(6) by auto
  have "plain d D fs'" using targetD(5) [OF t i] s fs'(1) by (simp add: plain_field_def nested_plain_def)
  moreover have "?it \<in> set (struct_iters fs dest)" by (rule iter_at_in [OF targetD(2,1) [OF t] i])
  then have "separate d D fs' (pData ?it)" using t s fs'(1) by (force simp: target_def)
  ultimately show thesis using that fs' by (simp add: target_def)
qed

lemma nested_inside:
  "bytes_of (pData (iter_at fs dest i)) (unat (f_data_size (field_at fs i))) \<subseteq> region fs dest i"
proof -
  have "bytes_of (pData (iter_at fs dest i)) (unat (f_data_size (field_at fs i))) \<subseteq>
    bytes_of (pData (iter_at fs dest i)) (item_room (field_at fs i))"
    by (rule bytes_of_mono) (simp add: item_room_def)
  then show ?thesis by (auto simp: region_def field_addrs_data)
qed

lemma field_out_step:
  assumes t: "target (Suc d) D m0 fs dest n" and i: "i < length fs" and a: "agree (region fs dest i) m m'"
    and nested: "\<And>fs' p n'. target d D m0 fs' p n' \<Longrightarrow> agree (bytes_of p n') m m' \<Longrightarrow>
      message_bytes k D U m fs' p = message_bytes k D U m' fs' p"
  shows "field_out k D U m fs dest i = field_out k D U m' fs dest i"
proof -
  let ?it = "iter_at fs dest i"
  have s: "message_bytes k D U m fs' (pData ?it) = message_bytes k D U m' fs' (pData ?it)"
    if "ltype (cur ?it) = PB_LTYPE_SUBMESSAGE" "fields_at D (f_ptr (cur ?it)) = Some fs'" for fs'
  proof -
    have "target d D m0 fs' (pData ?it) (unat (f_data_size (field_at fs i)))" using target_nested [OF t i] that by auto
    then show ?thesis using nested agree_mono [OF a nested_inside] by blast
  qed
  have "plain_field (nested_plain d D) (cur ?it)" using targetD(5) [OF t i] by simp
  from field_bytes_agree [OF this a [unfolded region_def], of D "message_bytes k D U m" "message_bytes k D U m'"] s
  show ?thesis by (simp add: field_out_def)
qed

lemma message_bytes_agree:
  "target d D m0 fs dest n \<Longrightarrow> agree (bytes_of dest n) m m' \<Longrightarrow> message_bytes k D U m fs dest = message_bytes k D U m' fs dest"
proof (induction d arbitrary: k fs dest n)
  case 0
  then show ?case by (simp add: target_def)
next
  case (Suc d)
  note t = Suc.prems(1)
  show ?case
  proof (cases k)
    case k: (Suc k')
    have "field_out k' D U m fs dest i = field_out k' D U m' fs dest i" if i: "i < length fs" for i
      by (rule field_out_step [OF t i agree_mono [OF Suc.prems(2) targetD(7) [OF t i]] Suc.IH])
    then have "foldr (\<lambda>i. both (field_out k' D U m fs dest i)) [0..<length fs] (Some []) =
      foldr (\<lambda>i. both (field_out k' D U m' fs dest i)) [0..<length fs] (Some [])" by (intro foldr_cong) simp_all
    then show ?thesis using message_bytes_fields [OF targetD(2,1) [OF t]] by (simp only: k)
  qed simp
qed

lemma field_out_agree:
  assumes "target (Suc d) D m0 fs dest n" "i < length fs" "agree (region fs dest i) m m'"
  shows "field_out k D U m fs dest i = field_out k D U m' fs dest i"
  by (rule field_out_step [OF assms message_bytes_agree])

end
