(* ===== verification/NanopbRoundtrip.thy ===== *)
theory NanopbRoundtrip
  imports NanopbPlain
begin

text \<open>
  What the encoder writes, the decoder reads, for the messages of plain fields: decoding the bytes of a message
  into any struct with the same descriptors succeeds, and the message in the struct has the same bytes.
  The proof goes over the fields of the message: before a field, the fields that have been decoded
  write what they should, and those to come are absent (\<open>blank\<close>), as the defaults left them.
\<close>

section \<open>Defaults\<close>

text \<open>No optional field is present: its flag is clear, or its value is zero.\<close>

fun blank :: "nat \<Rightarrow> desc_table \<Rightarrow> mem \<Rightarrow> pb_field list \<Rightarrow> addr \<Rightarrow> bool" where
  "blank 0 D m fs dest = False"
| "blank (Suc d) D m fs dest =
    (\<forall>i < length fs. let f = field_at fs i; p = pData (iter_at fs dest i) in
      (singular f \<longrightarrow> load_bytes m p (unat (f_data_size f)) = Some (replicate (unat (f_data_size f)) 0)) \<and>
      (htype f = PB_HTYPE_OPTIONAL \<and> \<not> singular f \<longrightarrow> m (p + size_offset f) = Some 0) \<and>
      (ltype f = PB_LTYPE_SUBMESSAGE \<longrightarrow> (case fields_at D (f_ptr f) of None \<Rightarrow> False | Some fs \<Rightarrow> blank d D m fs p)))"

definition blank_at :: "nat \<Rightarrow> desc_table \<Rightarrow> mem \<Rightarrow> pb_field list \<Rightarrow> addr \<Rightarrow> nat \<Rightarrow> bool" where
  "blank_at d D m fs dest i \<longleftrightarrow> (let f = field_at fs i; p = pData (iter_at fs dest i) in
      (singular f \<longrightarrow> load_bytes m p (unat (f_data_size f)) = Some (replicate (unat (f_data_size f)) 0)) \<and>
      (htype f = PB_HTYPE_OPTIONAL \<and> \<not> singular f \<longrightarrow> m (p + size_offset f) = Some 0) \<and>
      (ltype f = PB_LTYPE_SUBMESSAGE \<longrightarrow> (case fields_at D (f_ptr f) of None \<Rightarrow> False | Some fs \<Rightarrow> blank d D m fs p)))"

lemma blank_Suc: "blank (Suc d) D m fs dest \<longleftrightarrow> (\<forall>i < length fs. blank_at d D m fs dest i)"
  by (simp add: blank_at_def)

lemma blank_step:
  assumes t: "target (Suc d) D m0 fs dest n" and i: "i < length fs" and a: "agree (region fs dest i) m m'"
    and nested: "\<And>fs' p n'. target d D m0 fs' p n' \<Longrightarrow> agree (bytes_of p n') m m' \<Longrightarrow> blank d D m fs' p = blank d D m' fs' p"
  shows "blank_at d D m fs dest i = blank_at d D m' fs dest i"
proof -
  let ?it = "iter_at fs dest i" and ?f = "field_at fs i"
  have "load_bytes m (pData ?it) (unat (f_data_size ?f)) = load_bytes m' (pData ?it) (unat (f_data_size ?f))"
    by (rule load_bytes_agree [OF agree_mono [OF a nested_inside]])
  moreover have "m (pData ?it + size_offset ?f) = m' (pData ?it + size_offset ?f)" if "htype ?f = PB_HTYPE_OPTIONAL" "\<not> singular ?f"
    using a that by (simp add: agree_def region_def field_addrs_data)
  moreover have "blank d D m fs' (pData ?it) = blank d D m' fs' (pData ?it)"
    if "ltype ?f = PB_LTYPE_SUBMESSAGE" "fields_at D (f_ptr ?f) = Some fs'" for fs'
  proof -
    have "target d D m0 fs' (pData ?it) (unat (f_data_size ?f))" using target_nested [OF t i] that by auto
    then show ?thesis using nested agree_mono [OF a nested_inside] by blast
  qed
  ultimately show ?thesis by (auto simp: blank_at_def Let_def split: option.split)
qed

lemma blank_agree:
  "target d D m0 fs dest n \<Longrightarrow> agree (bytes_of dest n) m m' \<Longrightarrow> blank d D m fs dest = blank d D m' fs dest"
proof (induction d arbitrary: fs dest n)
  case 0
  then show ?case by simp
next
  case (Suc d)
  note t = Suc.prems(1)
  have "blank_at d D m fs dest i = blank_at d D m' fs dest i" if "i < length fs" for i
    by (rule blank_step [OF t that agree_mono [OF Suc.prems(2) targetD(7) [OF t that]] Suc.IH])
  then show ?case unfolding blank_Suc by blast
qed

lemma blank_at_agree:
  assumes "target (Suc d) D m0 fs dest n" "i < length fs" "agree (region fs dest i) m m'"
  shows "blank_at d D m fs dest i = blank_at d D m' fs dest i"
  by (rule blank_step [OF assms blank_agree])

text \<open>Going over the fields, when each step stays in the addresses of its field.\<close>

lemma each_field_regions:
  assumes p: "plain d D fs" and dest: "dest \<noteq> 0"
    and step: "\<And>i h. i < length fs \<Longrightarrow> dom (h_mem h) = dom (h_mem h0) \<Longrightarrow>
      \<exists>h'. f (iter_at fs dest i) h = Some h' \<and> alters (region fs dest i) h h' \<and> B i (h_mem h')"
    and frame: "\<And>i m m'. i < length fs \<Longrightarrow> agree (region fs dest i) m m' \<Longrightarrow> B i m = B i m'"
    and apart: "\<And>i j. i < length fs \<Longrightarrow> j < length fs \<Longrightarrow> i \<noteq> j \<Longrightarrow> region fs dest i \<inter> region fs dest j = {}"
  shows "i < length fs \<Longrightarrow> dom (h_mem h) = dom (h_mem h0) \<Longrightarrow>
    \<exists>h'. each_field f (iter_at fs dest i) h = Some h' \<and> alters (\<Union>j\<in>{i..<length fs}. region fs dest j) h h' \<and>
      (\<forall>j\<in>{i..<length fs}. B j (h_mem h'))"
proof (induction "length fs - i" arbitrary: i h rule: less_induct)
  case less
  note i = less.prems(1)
  obtain h1 where h1: "f (iter_at fs dest i) h = Some h1" "alters (region fs dest i) h h1" "B i (h_mem h1)"
    using step [OF less.prems] by blast
  note next_i = next_iter_at [OF p i dest]
  show ?case
  proof (cases "Suc i < length fs")
    case False
    then have "{i..<length fs} = {i}" using i by auto
    then show ?thesis using h1 next_i False by (subst each_field.simps) simp
  next
    case True
    have "dom (h_mem h1) = dom (h_mem h0)" using h1(2) less.prems(2) by (simp add: alters_def)
    moreover have "length fs - Suc i < length fs - i" using i by simp
    ultimately obtain h2 where h2: "each_field f (iter_at fs dest (Suc i)) h1 = Some h2"
      "alters (\<Union>j\<in>{Suc i..<length fs}. region fs dest j) h1 h2" "\<forall>j\<in>{Suc i..<length fs}. B j (h_mem h2)"
      using less.hyps [of "Suc i" h1] True by blast
    have S: "{i..<length fs} = insert i {Suc i..<length fs}" using i by auto
    have "(\<Union>j\<in>{Suc i..<length fs}. region fs dest j) \<inter> region fs dest i = {}" using apart i by fastforce
    then have "B i (h_mem h2)" using frame [OF i alters_agree [OF h2(2)]] h1(3) by blast
    moreover have "alters (\<Union>j\<in>{i..<length fs}. region fs dest j) h h2"
      by (rule alters_trans [OF alters_mono [OF h1(2)] alters_mono [OF h2(2)]]) (auto simp: S)
    ultimately show ?thesis using h1(1) h2(1,3) next_i True by (subst each_field.simps) (auto simp: S)
  qed
qed

lemma plain_singular: "plain_field sub f \<Longrightarrow> singular f \<Longrightarrow> ltype f \<le> PB_LTYPE_STRING \<and> f_ptr f = 0 \<and> 0 < f_data_size f"
  unfolding plain_field_def by blast

lemma data_room: "bytes_of p (unat (f_data_size f)) \<subseteq> bytes_of p (item_room f)"
  by (rule bytes_of_mono) (simp add: item_room_def)

text \<open>A field is set to its default.\<close>

lemma default_data:
  assumes t: "target (Suc d) D (h_mem h) fs dest n" and m: "mapped h (bytes_of dest n)" and i: "i < length fs"
    and single: "\<And>fs' p n' h. target d D (h_mem h) fs' p n' \<Longrightarrow> mapped h (bytes_of p n') \<Longrightarrow>
      \<exists>h'. for_fields single fs' p h = Some h' \<and> alters (bytes_of p n') h h' \<and> blank d D (h_mem h') fs' p"
  obtains h' where "(if ltype (field_at fs i) = PB_LTYPE_SUBMESSAGE then
          do { fs' \<leftarrow> fields_at D (f_ptr (field_at fs i)); for_fields single fs' (pData (iter_at fs dest i)) h }
        else if f_ptr (field_at fs i) \<noteq> 0 then
          do { bs \<leftarrow> load_bytes (h_mem h) (f_ptr (field_at fs i)) (unat (f_data_size (field_at fs i)));
               h_store h (pData (iter_at fs dest i)) bs }
        else h_store h (pData (iter_at fs dest i)) (replicate (unat (f_data_size (field_at fs i))) 0)) = Some h'"
      "alters (bytes_of (pData (iter_at fs dest i)) (unat (f_data_size (field_at fs i)))) h h'"
      "singular (field_at fs i) \<Longrightarrow> load_bytes (h_mem h') (pData (iter_at fs dest i)) (unat (f_data_size (field_at fs i))) =
        Some (replicate (unat (f_data_size (field_at fs i))) 0)"
      "ltype (field_at fs i) = PB_LTYPE_SUBMESSAGE \<Longrightarrow>
        (case fields_at D (f_ptr (field_at fs i)) of None \<Rightarrow> False | Some fs' \<Rightarrow> blank d D (h_mem h') fs' (pData (iter_at fs dest i)))"
proof -
  let ?f = "field_at fs i" and ?p = "pData (iter_at fs dest i)"
  let ?k = "unat (f_data_size ?f)"
  let ?R = "bytes_of ?p ?k"
  note pf = targetD(5) [OF t i]
  have sing: "ltype ?f \<noteq> PB_LTYPE_SUBMESSAGE \<and> f_ptr ?f = 0" if "singular ?f"
    by (rule conjI [OF low_types(1) [OF conjunct1 [OF plain_singular [OF pf that]]] conjunct1 [OF conjunct2 [OF plain_singular [OF pf that]]]])
  have R: "mapped h ?R" by (rule mapped_mono [OF m subset_trans [OF nested_inside targetD(7) [OF t i]]])
  have "?k < 2 ^ LENGTH(32)" by (rule unsigned_less)
  then have k: "?k \<le> 2 ^ 64" by simp
  show thesis
  proof (cases "ltype ?f = PB_LTYPE_SUBMESSAGE")
    case True
    obtain fs' where fs': "fields_at D (f_ptr ?f) = Some fs'" "target d D (h_mem h) fs' ?p ?k" using target_nested [OF t i True] .
    obtain h' where "for_fields single fs' ?p h = Some h'" "alters ?R h h'" "blank d D (h_mem h') fs' ?p"
      using single [OF fs'(2) R] by blast
    then show thesis using sing by (intro that [of h']) (simp_all add: fs'(1) True)
  next
    case False
    show thesis
    proof (cases "f_ptr ?f = 0")
      case True
      obtain h' where "h_store h ?p (replicate ?k 0) = Some h'" "alters ?R h h'" "load_bytes (h_mem h') ?p ?k = Some (replicate ?k 0)"
        using h_store_load [of h ?p "replicate ?k 0"] R k by auto
      then show thesis by (intro that [of h']) (simp_all add: False True)
    next
      case ptr: False
      have "ltype (cur (iter_at fs dest i)) \<noteq> PB_LTYPE_SUBMESSAGE" "f_ptr (cur (iter_at fs dest i)) \<noteq> 0" using False ptr by simp_all
      from static_fieldD(10) [OF targetD(4) [OF t i] this]
      obtain bs where bs: "load_bytes (h_mem h) (f_ptr ?f) ?k = Some bs" "length bs = ?k" by auto
      obtain h' where "h_store h ?p bs = Some h'" "alters ?R h h'" using h_store_load [of h ?p bs] R k bs(2) by auto
      then show thesis using sing by (intro that [of h']) (simp_all add: False ptr bs(1))
    qed
  qed
qed

lemma default_field:
  assumes t: "target (Suc d) D (h_mem h) fs dest n" and m: "mapped h (bytes_of dest n)" and i: "i < length fs"
    and single: "\<And>fs' p n' h. target d D (h_mem h) fs' p n' \<Longrightarrow> mapped h (bytes_of p n') \<Longrightarrow>
      \<exists>h'. for_fields single fs' p h = Some h' \<and> alters (bytes_of p n') h h' \<and> blank d D (h_mem h') fs' p"
  shows "\<exists>h'. set_default_body k D single (iter_at fs dest i) h = Some h' \<and> alters (region fs dest i) h h' \<and>
    blank_at d D (h_mem h') fs dest i"
proof -
  let ?it = "iter_at fs dest i" and ?f = "field_at fs i"
  let ?init = "\<lambda>h. if ltype ?f = PB_LTYPE_SUBMESSAGE then
          do { fs' \<leftarrow> fields_at D (f_ptr ?f); for_fields single fs' (pData ?it) h }
        else if f_ptr ?f \<noteq> 0 then
          do { bs \<leftarrow> load_bytes (h_mem h) (f_ptr ?f) (unat (f_data_size ?f)); h_store h (pData ?it) bs }
        else h_store h (pData ?it) (replicate (unat (f_data_size ?f)) 0)"
  let ?q = "pData ?it + size_offset ?f" and ?R = "bytes_of (pData ?it) (unat (f_data_size ?f))"
  note pf = plain_fieldD [OF targetD(5) [OF t i]]
  show ?thesis
  proof (cases "htype ?f = PB_HTYPE_OPTIONAL \<and> \<not> singular ?f")
    case False
    then have "\<not> (htype ?f = PB_HTYPE_OPTIONAL \<and> pSize ?it \<noteq> At (pData ?it))" using size_offset_zero by (auto simp: singular_def)
    note no_flag = this
    show ?thesis
    proof (rule default_data [OF t m i single])
      fix h' assume h': "?init h = Some h'" "alters ?R h h'"
        "singular ?f \<Longrightarrow> load_bytes (h_mem h') (pData ?it) (unat (f_data_size ?f)) = Some (replicate (unat (f_data_size ?f)) 0)"
        "ltype ?f = PB_LTYPE_SUBMESSAGE \<Longrightarrow>
          (case fields_at D (f_ptr ?f) of None \<Rightarrow> False | Some fs' \<Rightarrow> blank d D (h_mem h') fs' (pData ?it))"
      have "set_default_body k D single ?it h = Some h'" using h'(1) no_flag pf by (simp add: set_default_body_def Let_def) blast
      moreover have "blank_at d D (h_mem h') fs dest i" using h'(3,4) False by (simp add: blank_at_def Let_def) blast
      ultimately show ?thesis using alters_mono [OF h'(2) nested_inside] by blast
    qed
  next
    case True
    then have q: "pSize ?it \<noteq> At (pData ?it)" using size_offset_zero by (auto simp: singular_def)
    have inq: "?q \<in> region fs dest i" using True by (simp add: region_def field_addrs_data)
    then have "mapped h (bytes_of ?q 1)" using mapped_mono [OF m] targetD(7) [OF t i] by (auto simp: bytes_of_Suc)
    then obtain h1 where h1: "h_store h ?q [0] = Some h1" "alters (bytes_of ?q 1) h h1" "load_bytes (h_mem h1) ?q 1 = Some [0]"
      using h_store_load [of h ?q "[0]"] by auto
    have dom: "dom (h_mem h) = dom (h_mem h1)" using h1(2) by (simp add: alters_def)
    have t1: "target (Suc d) D (h_mem h1) fs dest n" using t target_dom [OF dom] by simp
    have m1: "mapped h1 (bytes_of dest n)" using m h1(2) by (simp add: alters_mapped)
    have "?q \<notin> ?R" using target_flag [OF t i] True data_room by blast
    then have keep: "h_mem h' ?q = Some 0" if "alters ?R h1 h'" for h'
      using that h1(3) by (auto simp: alters_def split: bind_splits)
    have w: "alters (region fs dest i) h h'" if "alters ?R h1 h'" for h'
      by (rule alters_trans [OF alters_mono [OF h1(2)] alters_mono [OF that nested_inside]]) (use inq in \<open>simp add: bytes_of_Suc\<close>)
    show ?thesis
    proof (rule default_data [OF t1 m1 i single])
      fix h' assume h': "?init h1 = Some h'" "alters ?R h1 h'"
        "singular ?f \<Longrightarrow> load_bytes (h_mem h') (pData ?it) (unat (f_data_size ?f)) = Some (replicate (unat (f_data_size ?f)) 0)"
        "ltype ?f = PB_LTYPE_SUBMESSAGE \<Longrightarrow>
          (case fields_at D (f_ptr ?f) of None \<Rightarrow> False | Some fs' \<Rightarrow> blank d D (h_mem h') fs' (pData ?it))"
      have "store_flag ?it h False = Some h1" using h1(1) by simp
      then have "set_default_body k D single ?it h = Some h'"
        using h'(1) q True pf by (simp add: set_default_body_def Let_def del: store_flag.simps)
      moreover have "blank_at d D (h_mem h') fs dest i" using h'(4) keep [OF h'(2)] True by (simp add: blank_at_def Let_def)
      ultimately show ?thesis using w [OF h'(2)] by blast
    qed
  qed
qed

lemma defaults_blank:
  "target d D (h_mem h) fs dest n \<Longrightarrow> mapped h (bytes_of dest n) \<Longrightarrow> d \<le> k \<Longrightarrow>
    \<exists>h'. for_fields (pb_field_set_to_default k D) fs dest h = Some h' \<and> alters (bytes_of dest n) h h' \<and> blank d D (h_mem h') fs dest"
proof (induction d arbitrary: k fs dest n h)
  case 0
  then show ?case by (simp add: target_def)
next
  case (Suc d)
  obtain k' where k: "k = Suc k'" "d \<le> k'" using Suc.prems(3) by (cases k) auto
  note t = Suc.prems(1)
  note single = Suc.IH [OF _ _ k(2)]
  show ?case
  proof (cases "fs = []")
    case True
    then show ?thesis by (simp add: for_fields_def begin_iter_at [OF targetD(1) [OF t]] field_at_def PB_LAST_FIELD_def)
  next
    case False
    have step: "\<exists>h'. pb_field_set_to_default k D (iter_at fs dest i) h1 = Some h' \<and> alters (region fs dest i) h1 h' \<and> blank_at d D (h_mem h') fs dest i"
      if "i < length fs" "dom (h_mem h1) = dom (h_mem h)" for i h1
    proof -
      have "target (Suc d) D (h_mem h1) fs dest n" using t target_dom [OF that(2)] by simp
      moreover have "mapped h1 (bytes_of dest n)" using Suc.prems(2) that(2) by (simp add: mapped_def)
      ultimately show ?thesis using default_field [OF _ _ that(1) single] by (simp add: k(1))
    qed
    obtain h' where h': "each_field (pb_field_set_to_default k D) (iter_at fs dest 0) h = Some h'"
      "alters (\<Union>j\<in>{0..<length fs}. region fs dest j) h h'" "\<forall>j\<in>{0..<length fs}. blank_at d D (h_mem h') fs dest j"
      using each_field_regions [where B = "\<lambda>i m. blank_at d D m fs dest i" and i = 0 and h = h, OF targetD(2,1) [OF t] step
          blank_at_agree [OF t] target_separate [OF t]] False by blast
    have "(\<Union>j\<in>{0..<length fs}. region fs dest j) \<subseteq> bytes_of dest n" using targetD(7) [OF t] by fastforce
    then have "alters (bytes_of dest n) h h'" by (rule alters_mono [OF h'(2)])
    moreover have "blank (Suc d) D (h_mem h') fs dest" using h'(3) unfolding blank_Suc by simp
    moreover have "f_tag (field_at fs 0) \<noteq> 0" using plain_fieldD(1) [OF targetD(5) [OF t, of 0]] False by simp
    ultimately show ?thesis using h'(1) by (simp add: for_fields_def begin_iter_at [OF targetD(1) [OF t]] del: blank.simps)
  qed
qed

section \<open>Zero values\<close>

text \<open>The bytes of the zero of a type; a value is zero exactly when these are its bytes.\<close>

definition zero_out :: "pb_field \<Rightarrow> u8 list" where
  "zero_out f = (if ltype f = PB_LTYPE_FIXED32 then le32 0 else if ltype f = PB_LTYPE_FIXED64 then le64 0 else [0])"

lemma base128_zero: "base128 n = [0] \<longleftrightarrow> n = 0"
proof
  assume b: "base128 n = [0]"
  then have n: "n < 128" by (metis base128_large base128_not_Nil list.inject not_le)
  then have "byte_of n = 0" using b by simp
  then have "unat (byte_of n) = 0" by simp
  then show "n = 0" using n by (simp add: unat_byte_of)
qed (simp add: byte_of_def)

lemma delimited_zero: "delimited bs = [0] \<longleftrightarrow> bs = []"
  using base128_zero [of 0] by (cases bs) (auto simp: delimited_def append_eq_Cons_conv)

lemma zigzag_zero: "zigzag v = 0 \<longleftrightarrow> v = 0"
proof
  assume z: "zigzag v = 0"
  have "zigzag (0 :: u64) = 0" by (simp add: zigzag_def)
  then show "v = 0" using zigzag_inverse [of v] zigzag_inverse [of 0] z by (simp add: zigzag_def)
qed (simp add: zigzag_def)

lemma le32_zero: "le32 w = le32 0 \<longleftrightarrow> w = 0" and le64_zero: "le64 x = le64 0 \<longleftrightarrow> x = 0"
proof -
  have "w = 0" if "le32 w = le32 0" using le32_bytes [of w] le32_bytes [of 0] that by (simp add: le32_def)
  then show "le32 w = le32 0 \<longleftrightarrow> w = 0" by auto
  have "x = 0" if "le64 x = le64 0" using le64_bytes [of x] le64_bytes [of 0] that by (simp add: le64_def)
  then show "le64 x = le64 0 \<longleftrightarrow> x = 0" by auto
qed

lemma all_zero_load: "load_bytes m p n = Some bs \<Longrightarrow> all_zero m p n = Some (\<forall>b \<in> set bs. b = 0)"
proof (induction n arbitrary: p bs)
  case (Suc n)
  obtain b bs' where b: "m p = Some b" "load_bytes m (p + 1) n = Some bs'" "bs = b # bs'"
    using Suc.prems by (auto split: bind_splits)
  then show ?case using Suc.IH [OF b(2)] by simp
qed simp

lemma le_nat_zero: "le_nat bs = 0 \<longleftrightarrow> (\<forall>b \<in> set bs. b = 0)"
  by (induction bs) (auto simp: unat_eq_0)

lemma le_nat_less: "le_nat bs < 256 ^ length bs"
proof (induction bs)
  case (Cons b bs)
  have "unat b < 256" using unsigned_less [of b, where 'a = nat] by simp
  then have "unat b + 256 * le_nat bs < 256 * (le_nat bs + 1)" by simp
  also have "\<dots> \<le> 256 * 256 ^ length bs" using Cons by (intro mult_le_mono2) simp
  finally show ?case by simp
qed simp

lemma load_word_all_zero:
  fixes w :: "'a::len word"
  assumes "load_word m p n = Some w" "LENGTH('a) = 8 * n"
  shows "all_zero m p n = Some (w = 0)"
proof -
  obtain bs where bs: "load_bytes m p n = Some bs" "w = word_of_nat (le_nat bs)" using assms(1) by (auto simp: load_word_def)
  have "le_nat bs < 2 ^ LENGTH('a)" using le_nat_less [of bs] length_load_bytes [OF bs(1)] assms(2) by (simp add: power_mult)
  then have "unat w = le_nat bs" by (simp add: bs(2) unat_of_nat)
  then show ?thesis using all_zero_load [OF bs(1)] le_nat_zero [of bs] by (simp add: unat_eq_0 [symmetric])
qed

lemma cast_zero: "(scast (a :: u8) :: u64) = 0 \<longleftrightarrow> a = 0" "(scast (b :: u16) :: u64) = 0 \<longleftrightarrow> b = 0" "(scast (c :: u32) :: u64) = 0 \<longleftrightarrow> c = 0"
  "(ucast a :: u64) = 0 \<longleftrightarrow> a = 0" "(ucast b :: u64) = 0 \<longleftrightarrow> b = 0" "(ucast c :: u64) = 0 \<longleftrightarrow> c = 0"
proof -
  have "ucast (scast a :: u64) = a" "ucast (scast b :: u64) = b" "ucast (scast c :: u64) = c"
    "ucast (ucast a :: u64) = a" "ucast (ucast b :: u64) = b" "ucast (ucast c :: u64) = c"
    by (transfer, simp add: take_bit_signed_take_bit)+
  then show "(scast a :: u64) = 0 \<longleftrightarrow> a = 0" "(scast b :: u64) = 0 \<longleftrightarrow> b = 0" "(scast c :: u64) = 0 \<longleftrightarrow> c = 0"
    "(ucast a :: u64) = 0 \<longleftrightarrow> a = 0" "(ucast b :: u64) = 0 \<longleftrightarrow> b = 0" "(ucast c :: u64) = 0 \<longleftrightarrow> c = 0"
    by (metis unsigned_0 signed_0)+
qed

lemma load_int_zero:
  shows "load_int64 m sz p = Some (Some v) \<Longrightarrow> all_zero m p (unat sz) = Some (v = 0)"
    "load_uint64 m sz p = Some (Some v) \<Longrightarrow> all_zero m p (unat sz) = Some (v = 0)"
  by (auto simp: load_int64_def load_uint64_def cast_zero load_word_all_zero simp del: all_zero.simps split: if_splits)

lemma zero_value_out:
  assumes f: "plain_field sub f" and s: "singular f" and v: "value_bytes D m msg f p = Some v" and p: "p \<noteq> 0"
  shows "zero_value m f p = Some (v = zero_out f)"
proof -
  have types: "ltype f = PB_LTYPE_FIXED32 \<Longrightarrow> f_data_size f = 4" "ltype f = PB_LTYPE_FIXED64 \<Longrightarrow> f_data_size f = 8"
    "ltype f = PB_LTYPE_BOOL \<Longrightarrow> f_data_size f = 1" and a: "atype f = PB_ATYPE_STATIC" and pos: "0 < f_data_size f"
    using f s unfolding plain_field_def by blast+
  consider "ltype f = PB_LTYPE_BOOL" | "ltype f = PB_LTYPE_VARINT" | "ltype f = PB_LTYPE_UVARINT" | "ltype f = PB_LTYPE_SVARINT"
    | "ltype f = PB_LTYPE_FIXED32" | "ltype f = PB_LTYPE_FIXED64" | "ltype f = PB_LTYPE_BYTES" | "ltype f = PB_LTYPE_STRING"
    using v low_types [OF conjunct1 [OF plain_singular [OF f s]]] by (auto simp: value_bytes_def Let_def split: if_splits)
  then show ?thesis
  proof cases
    case 1
    then obtain b where "m p = Some b" "v = base128 (if b \<noteq> 0 then 1 else 0)"
      using v by (auto simp: value_bytes_def safe_read_bool_def)
    then show ?thesis using 1 types(3) base128_zero [of 0] base128_zero [of 1] by (simp add: zero_value_def zero_out_def)
  next
    case 2
    then obtain x where "load_int64 m (f_data_size f) p = Some (Some x)" "v = base128 (unat x)"
      using v by (auto simp: value_bytes_def split: bind_splits)
    then show ?thesis using 2 load_int_zero(1) base128_zero [of "unat x"] by (simp add: zero_value_def zero_out_def unat_eq_0)
  next
    case 3
    then obtain x where "load_uint64 m (f_data_size f) p = Some (Some x)" "v = base128 (unat x)"
      using v by (auto simp: value_bytes_def split: bind_splits)
    then show ?thesis using 3 load_int_zero(2) base128_zero [of "unat x"] by (simp add: zero_value_def zero_out_def unat_eq_0)
  next
    case 4
    then obtain x where "load_int64 m (f_data_size f) p = Some (Some x)" "v = base128 (unat (zigzag x))"
      using v by (auto simp: value_bytes_def split: bind_splits)
    then show ?thesis
      using 4 load_int_zero(1) base128_zero [of "unat (zigzag x)"] by (simp add: zero_value_def zero_out_def unat_eq_0 zigzag_zero)
  next
    case 5
    then obtain x where "load_word m p 4 = Some x" "v = le32 x" using v by (auto simp: value_bytes_def)
    then show ?thesis using 5 types(1) load_word_all_zero [of m p 4 x] le32_zero by (simp add: zero_value_def zero_out_def)
  next
    case 6
    then obtain x where "load_word m p 8 = Some x" "v = le64 x" using v by (auto simp: value_bytes_def)
    then show ?thesis using 6 types(2) load_word_all_zero [of m p 8 x] le64_zero by (simp add: zero_value_def zero_out_def)
  next
    case 7
    then obtain n bs where n: "load_size m p = Some n" "load_bytes m (p + 4) (unat n) = Some bs" "v = delimited bs"
      using v p a by (auto simp: value_bytes_BYTES split: bind_splits if_splits)
    have "n = 0 \<longleftrightarrow> bs = []" using length_load_bytes [OF n(2)] by (auto simp: unat_eq_0)
    then show ?thesis using 7 n(1,3) delimited_zero by (simp add: zero_value_def zero_out_def)
  next
    case 8
    then obtain n bs where n: "string_size m p (unat (f_data_size f)) = Some n" "load_bytes m p n = Some bs" "v = delimited bs"
      using v p a by (auto simp: value_bytes_STRING split: bind_splits)
    obtain k where k: "unat (f_data_size f) = Suc k" using pos by (cases "unat (f_data_size f)") (simp_all add: unat_eq_0)
    obtain c where c: "m p = Some c" using n(1) k by (cases "m p") auto
    have "c = 0 \<longleftrightarrow> bs = []" using n(1) k c length_load_bytes [OF n(2)] by (auto split: if_splits)
    then show ?thesis using 8 c n(3) delimited_zero by (simp add: zero_value_def zero_out_def)
  qed
qed

section \<open>A field is decoded\<close>

lemma entry_decoded:
  fixes s :: "'s pb_istream"
  assumes func: "PB_DECODERS env init noinit (ltype f) = Some func" and f: "plain_field pl f" and env: "d_fields env = D"
    and s: "buf_ok s" "buf_content s = v @ rest" and v: "value_bytes D m msg f src = Some v" and len: "length v < 2 ^ 32"
    and R: "mapped h (bytes_of p (item_room f))" and p: "p \<noteq> 0"
    and nul: "ltype f = PB_LTYPE_STRING \<Longrightarrow> string_size m src (unat (f_data_size f)) \<noteq> Some (unat (f_data_size f))"
    and sub: "\<And>fs bs t. ltype f = PB_LTYPE_SUBMESSAGE \<Longrightarrow> fields_at D (f_ptr f) = Some fs \<Longrightarrow> msg fs src = Some bs \<Longrightarrow>
      length bs < 2 ^ 32 \<Longrightarrow> buf_ok t \<Longrightarrow> buf_content t = bs \<Longrightarrow>
      decoded (bytes_of p (unat (f_data_size f))) bs t h (\<lambda>m'. msg' m' fs p = Some bs) (noinit fs p t h)"
  shows "decoded (bytes_of p (item_room f)) v s h (\<lambda>m'. value_bytes D m' (msg' m') f p = Some v) (func f p s h)"
proof -
  let ?R = "bytes_of p (item_room f)"
  note pf = plain_fieldD [OF f]
  have ds: "bytes_of p (unat (f_data_size f)) \<subseteq> ?R" by (rule data_room)
  have z: "ltype f = PB_LTYPE_BYTES \<Longrightarrow> 4 \<le> f_data_size f" "ltype f = PB_LTYPE_STRING \<Longrightarrow> 0 < f_data_size f"
    using f unfolding plain_field_def by blast+
  have known: "ltype f \<in> {0, 1, 2, 3, 4, 5, 6, 7, 8, 0xA}"
    using v by (auto simp: value_bytes_def Let_def split: if_splits)
  show ?thesis
  proof (cases "ltype f = PB_LTYPE_SUBMESSAGE")
    case True
    have "func = pb_dec_submessage env init noinit" using func True by (simp add: PB_DECODERS_def)
    moreover have "decoded ?R v s h (\<lambda>m'. value_bytes D m' (msg' m') f p = Some v) (pb_dec_submessage env init noinit f p s h)"
    proof (rule submessage_decoded [OF s v True pf(6) len _ env])
      fix fs bs and t :: "'s pb_istream"
      assume "fields_at D (f_ptr f) = Some fs" "msg fs src = Some bs" "length bs < 2 ^ 32" "buf_ok t" "buf_content t = bs"
      from sub [OF True this] show "decoded ?R bs t h (\<lambda>m'. msg' m' fs p = Some bs) (noinit fs p t h)"
        by (rule decoded_weaken [OF _ ds alters_refl])
    qed
    ultimately show ?thesis by simp
  next
    case False
    have msg: "value_bytes D m' (msg' m') f p = value_bytes D m' (\<lambda>fs a. None) f p" for m'
      using False by (simp add: value_bytes_def Let_def)
    have "decoded ?R v s h (\<lambda>m'. value_bytes D m' (\<lambda>fs a. None) f p = Some v) (func f p s h)"
      using known False func room_bytes [where dest = p and f = f, OF subset_refl] nul
        bool_decoded [OF s v _ R] varint_decoded [OF s v _ R ds] uvarint_decoded [OF s v _ R ds] svarint_decoded [OF s v _ R ds]
        fixed32_decoded [OF s v _ R] fixed64_decoded [OF s v _ R] fixed_length_decoded [OF s v _ R ds]
        bytes_decoded [OF s v _ pf(3) z(1) p R ds] string_decoded [OF s v _ pf(3) p z(2) _ R ds]
      by (auto simp: PB_DECODERS_def)
    then show ?thesis by (simp only: msg)
  qed
qed

lemma mapped_bytes_at: "mapped h (bytes_of p n) \<Longrightarrow> 0 < n \<Longrightarrow> h_mem h 0 = None \<Longrightarrow> p \<noteq> 0"
  by (cases n) (auto simp: mapped_def bytes_of_Suc)

lemma all_zero_mapped: "bytes_of p n \<subseteq> dom m \<Longrightarrow> all_zero m p n \<noteq> None"
  using load_bytes_mapped [of p n m] all_zero_load by fastforce

text \<open>The result of decoding the value at \<open>i\<close> into a struct that does not have it yet.\<close>

lemma static_field_decoded:
  fixes s :: "'s pb_istream"
  assumes t: "target (Suc d) D (h_mem h) fs dest n" and m: "mapped h (bytes_of dest n)" and null: "h_mem h 0 = None"
    and i: "i < length fs" and env: "d_fields env = D"
    and s: "buf_ok s" "buf_content s = v @ rest" and v: "value_bytes D m0 msg (field_at fs i) src = Some v" and len: "length v < 2 ^ 32"
    and src: "src \<noteq> 0" "present m0 (field_at fs i) src = Some True"
    and nul: "ltype (field_at fs i) = PB_LTYPE_STRING \<Longrightarrow>
      string_size m0 src (unat (f_data_size (field_at fs i))) \<noteq> Some (unat (f_data_size (field_at fs i)))"
    and blank: "blank_at d D (h_mem h) fs dest i"
    and sub: "\<And>fs' bs t h p k'. ltype (field_at fs i) = PB_LTYPE_SUBMESSAGE \<Longrightarrow> fields_at D (f_ptr (field_at fs i)) = Some fs' \<Longrightarrow>
      msg fs' src = Some bs \<Longrightarrow> length bs < 2 ^ 32 \<Longrightarrow> buf_ok t \<Longrightarrow> buf_content t = bs \<Longrightarrow>
      target d D (h_mem h) fs' p k' \<Longrightarrow> mapped h (bytes_of p k') \<Longrightarrow> h_mem h 0 = None \<Longrightarrow> blank d D (h_mem h) fs' p \<Longrightarrow>
      decoded (bytes_of p k') bs t h (\<lambda>m'. msg' m' fs' p = Some bs) (noinit fs' p t h)"
  obtains s' h' where
    "decode_static_field env (PB_DECODERS env init noinit) wt s h (iter_at fs dest i) = Some (True, s', h', iter_at fs dest i)"
    "stepped v s s'" "alters (region fs dest i) h h'"
    "value_bytes D (h_mem h') (msg' (h_mem h')) (field_at fs i) (pData (iter_at fs dest i)) = Some v"
    "present (h_mem h') (field_at fs i) (pData (iter_at fs dest i)) = Some True" "pData (iter_at fs dest i) \<noteq> 0"
proof -
  let ?it = "iter_at fs dest i" and ?f = "field_at fs i"
  let ?p = "pData ?it" and ?k = "unat (f_data_size ?f)"
  let ?R = "bytes_of ?p (item_room ?f)" and ?q = "?p + size_offset ?f"
  note f = targetD(5) [OF t i]
  note pf = plain_fieldD [OF f]
  obtain func where func: "PB_DECODERS env init noinit (ltype ?f) = Some func"
    using known_decoder [OF targetD(4) [OF t i], of env init noinit] by auto
  have RR: "?R \<subseteq> region fs dest i" by (auto simp: region_def field_addrs_data)
  have RD: "region fs dest i \<subseteq> bytes_of dest n" by (rule targetD(7) [OF t i])
  have mR: "mapped h (region fs dest i)" by (rule mapped_mono [OF m RD])
  have p: "?p \<noteq> 0"
  proof (rule mapped_bytes_at [OF mapped_mono [OF mR RR] _ null])
    have "0 < f_data_size ?f" using f unfolding plain_field_def by blast
    then show "0 < item_room ?f" by (simp add: item_room_def word_less_nat_alt)
  qed
  have entry: "decoded ?R v s h1 (\<lambda>m'. value_bytes D m' (msg' m') ?f ?p = Some v) (func ?f ?p s h1)"
    if w: "alters (region fs dest i - ?R) h h1" for h1
  proof (rule entry_decoded [OF func f env s v len _ p nul])
    have dom: "dom (h_mem h) = dom (h_mem h1)" using w by (simp add: alters_def)
    have t1: "target (Suc d) D (h_mem h1) fs dest n" using t target_dom [OF dom] by simp
    have null1: "h_mem h1 0 = None" using dom null by (metis domIff)
    show m1: "mapped h1 ?R" using mapped_mono [OF mR RR] dom by (simp add: mapped_def)
    fix fs' bs and t' :: "'s pb_istream"
    assume a: "ltype ?f = PB_LTYPE_SUBMESSAGE" "fields_at D (f_ptr ?f) = Some fs'" "msg fs' src = Some bs" "length bs < 2 ^ 32"
      "buf_ok t'" "buf_content t' = bs"
    have n1: "target d D (h_mem h1) fs' ?p ?k" using target_nested [OF t1 i a(1)] a(2) by auto
    have "agree (bytes_of ?p ?k) (h_mem h1) (h_mem h)"
      by (rule alters_agree [OF w]) (use data_room in blast)
    then have "blank d D (h_mem h1) fs' ?p" using blank_agree [OF n1] blank a(1,2) by (auto simp: blank_at_def Let_def)
    then show "decoded (bytes_of ?p ?k) bs t' h1 (\<lambda>m'. msg' m' fs' ?p = Some bs) (noinit fs' ?p t' h1)"
      by (intro sub [OF a n1 mapped_mono [OF m1 data_room] null1])
  qed
  show thesis
  proof (cases "htype ?f = PB_HTYPE_OPTIONAL \<and> \<not> singular ?f")
    case True
    then have q: "pSize ?it \<noteq> At ?p" using size_offset_zero by (auto simp: singular_def)
    have inq: "?q \<in> region fs dest i" using True by (simp add: region_def field_addrs_data)
    have notin: "?q \<notin> ?R" using target_flag [OF t i] True by blast
    have "mapped h (bytes_of ?q 1)" using mapped_mono [OF mR] inq by (auto simp: bytes_of_Suc)
    then obtain h1 where h1: "h_store h ?q [1] = Some h1" "alters (bytes_of ?q 1) h h1" "load_bytes (h_mem h1) ?q 1 = Some [1]"
      using h_store_load [of h ?q "[1]"] by auto
    have w: "alters (region fs dest i - ?R) h h1"
      by (rule alters_mono [OF h1(2)]) (use inq notin in \<open>simp add: bytes_of_Suc\<close>)
    obtain s' h' where r: "func ?f ?p s h1 = Some (True, s', h')" "stepped v s s'" "alters ?R h1 h'"
      "value_bytes D (h_mem h') (msg' (h_mem h')) ?f ?p = Some v" using entry [OF w] by (auto simp: decoded_def)
    have "h_mem h' ?q = Some 1" using r(3) notin h1(3) by (auto simp: alters_def split: bind_splits)
    then have "present (h_mem h') ?f ?p = Some True" using True by (simp add: present_def safe_read_bool_def)
    moreover have "store_flag ?it h True = Some h1" using h1(1) by simp
    then have "decode_static_field env (PB_DECODERS env init noinit) wt s h ?it = Some (True, s', h', ?it)"
      using func r(1) True q by (simp add: decode_static_field_def Let_def with_iter_def del: store_flag.simps)
    moreover have "alters (region fs dest i) h h'"
      using alters_trans [OF alters_mono [OF w] alters_mono [OF r(3) RR]] by blast
    ultimately show thesis using that r(2,4) p by blast
  next
    case False
    obtain s' h' where r: "func ?f ?p s h = Some (True, s', h')" "stepped v s s'" "alters ?R h h'"
      "value_bytes D (h_mem h') (msg' (h_mem h')) ?f ?p = Some v" using entry [OF alters_refl] by (auto simp: decoded_def)
    have "present (h_mem h') ?f ?p = Some True"
    proof (cases "singular ?f")
      case sing: True
      have "v \<noteq> zero_out ?f" using zero_value_out [OF f sing v src(1)] src(2) sing by (simp add: present_def singular_def)
      then show ?thesis using zero_value_out [OF f sing r(4) p] sing by (simp add: present_def singular_def)
    next
      case not: False
      then show ?thesis using False pf(5) by (simp add: present_def)
    qed
    moreover have "\<not> (htype ?f = PB_HTYPE_OPTIONAL \<and> pSize ?it \<noteq> At ?p)" using False size_offset_zero by (auto simp: singular_def)
    then have "decode_static_field env (PB_DECODERS env init noinit) wt s h ?it = Some (True, s', h', ?it)"
      using func r(1) pf(5) by (auto simp: decode_static_field_def Let_def with_iter_def)
    ultimately show thesis using that r(2,4) p alters_mono [OF r(3) RR] by blast
  qed
qed

section \<open>The fields of the source\<close>

lemma source_field:
  assumes sd: "sound (Suc d) D m fs src" and p: "plain (Suc d) D fs" and i: "i < length fs"
    and w: "field_out k D U m fs src i = Some w"
  obtains (absent) "w = []" "htype (field_at fs i) = PB_HTYPE_OPTIONAL" "singular (field_at fs i) \<Longrightarrow> 0 < k"
  | (there) wt v where "wire_type_of (ltype (field_at fs i)) = Some wt" "w = base128 (tag_value wt (f_tag (field_at fs i))) @ v"
      "value_bytes D m (message_bytes k D U m) (field_at fs i) (pData (iter_at fs src i)) = Some v"
      "present m (field_at fs i) (pData (iter_at fs src i)) = Some True" "pData (iter_at fs src i) \<noteq> 0"
      "ltype (field_at fs i) = PB_LTYPE_STRING \<Longrightarrow>
        string_size m (pData (iter_at fs src i)) (unat (f_data_size (field_at fs i))) \<noteq> Some (unat (f_data_size (field_at fs i)))"
      "\<And>fs'. ltype (field_at fs i) = PB_LTYPE_SUBMESSAGE \<Longrightarrow> fields_at D (f_ptr (field_at fs i)) = Some fs' \<Longrightarrow>
        sound d D m fs' (pData (iter_at fs src i))" "singular (field_at fs i) \<Longrightarrow> 0 < k"
proof -
  let ?f = "field_at fs i" and ?p = "pData (iter_at fs src i)"
  have f: "plain_field (nested_plain d D) ?f" by (rule plain_at [OF p i])
  have src: "src \<noteq> 0" using sd by simp
  have "do { has \<leftarrow> present m ?f ?p; if has then both (tag_bytes ?f) (value_bytes D m (message_bytes k D U m) ?f ?p) else Some [] } = Some w"
    and k: "singular ?f \<Longrightarrow> 0 < k"
    using w field_bytes_present [OF f, of k D U m "message_bytes k D U m" ?p w] by (auto simp: field_out_def)
  then consider (no) "present m ?f ?p = Some False" "w = []"
    | (yes) "present m ?f ?p = Some True" "both (tag_bytes ?f) (value_bytes D m (message_bytes k D U m) ?f ?p) = Some w"
    by (auto split: bind_splits if_splits)
  then show thesis
  proof cases
    case no
    then have "htype ?f \<noteq> PB_HTYPE_REQUIRED" by (auto simp: present_def)
    then show thesis using absent [OF no(2) _ k] plain_fieldD(5) [OF f] by simp
  next
    case yes
    obtain wt v where "wire_type_of (ltype ?f) = Some wt" "w = base128 (tag_value wt (f_tag ?f)) @ v"
      "value_bytes D m (message_bytes k D U m) ?f ?p = Some v"
      using yes(2) by (auto simp: both_def tag_bytes_def split: bind_splits)
    moreover have "iter_at fs src i \<in> set (struct_iters fs src)" by (rule iter_at_in [OF p src i])
    then have "?p \<noteq> 0 \<and>
       (ltype ?f = PB_LTYPE_STRING \<longrightarrow> string_size m ?p (unat (f_data_size ?f)) \<noteq> Some (unat (f_data_size ?f))) \<and>
       (ltype ?f = PB_LTYPE_SUBMESSAGE \<longrightarrow> (case fields_at D (f_ptr ?f) of None \<Rightarrow> False | Some fs \<Rightarrow> sound d D m fs ?p))"
      using sd yes(1) by (force simp only: sound.simps iter_at_simps)
    ultimately show thesis using yes(1) k by (intro there [of wt v]) (simp_all split: option.splits)
  qed
qed

lemma load_bytes_take: "load_bytes m p n = Some bs \<Longrightarrow> k \<le> n \<Longrightarrow> load_bytes m p k = Some (take k bs)"
proof (induction n arbitrary: p k bs)
  case (Suc n)
  then show ?case by (cases k) (auto split: bind_splits)
qed simp

lemma blank_absent:
  assumes t: "target (Suc d) D m0 fs dest n" and i: "i < length fs" and b: "blank_at d D m fs dest i"
    and o: "htype (field_at fs i) = PB_HTYPE_OPTIONAL" and k: "singular (field_at fs i) \<Longrightarrow> 0 < k"
  shows "field_out k D U m fs dest i = Some []"
proof -
  let ?f = "field_at fs i" and ?p = "pData (iter_at fs dest i)"
  let ?k = "unat (f_data_size ?f)"
  note f = targetD(5) [OF t i]
  have "present m ?f ?p = Some False"
  proof (cases "singular ?f")
    case True
    then have z: "load_bytes m ?p ?k = Some (replicate ?k 0)" using b by (simp add: blank_at_def Let_def)
    have "load_size m ?p = Some 0" if "ltype ?f = PB_LTYPE_BYTES"
    proof -
      have "4 \<le> f_data_size ?f" using f that unfolding plain_field_def by blast
      then have "load_bytes m ?p 4 = Some (replicate 4 0)" using load_bytes_take [OF z, of 4] by (simp add: word_le_nat_alt)
      then show ?thesis using le_nat_zero [of "replicate 4 0"] by (simp add: load_word_def)
    qed
    moreover have "m ?p = Some 0"
    proof -
      have "0 < f_data_size ?f" using f unfolding plain_field_def by blast
      then have "1 \<le> ?k" by (simp add: word_less_nat_alt)
      then have "load_bytes m ?p (Suc 0) = Some [0]" using load_bytes_take [OF z, of 1] by simp
      then show ?thesis by (auto split: bind_splits)
    qed
    ultimately show ?thesis using True all_zero_load [OF z] o by (auto simp: present_def zero_value_def)
  next
    case False
    then show ?thesis using b o by (simp add: present_def blank_at_def Let_def safe_read_bool_def)
  qed
  then show ?thesis using field_bytes_present [OF f, of k D U m "message_bytes k D U m" ?p "[]"] k o by (simp add: field_out_def)
qed

section \<open>Required fields\<close>

text \<open>The bits of the first \<open>n\<close> required fields, of those that have one.\<close>

definition seen_first :: "u32 list \<Rightarrow> nat \<Rightarrow> bool" where
  "seen_first seen n \<longleftrightarrow> length seen = 2 \<and> (\<forall>r<64. bit (seen ! (r div 32)) (r mod 32) \<longleftrightarrow> r < n)"

lemma bit_mark: "b < 32 \<Longrightarrow> bit (x OR push_bit j 1 :: u32) b \<longleftrightarrow> bit x b \<or> b = j"
  by (auto simp: bit_or_iff bit_exp_iff)

lemma seen_mark:
  assumes "seen_first seen n" "n < 64"
  shows "seen_first (seen[n div 32 := seen ! (n div 32) OR push_bit (n mod 32) 1]) (Suc n)"
proof -
  have l: "length seen = 2" "n div 32 < 2" using assms by (auto simp: seen_first_def)
  have "bit (seen[n div 32 := seen ! (n div 32) OR push_bit (n mod 32) 1] ! (r div 32)) (r mod 32) \<longleftrightarrow> r < Suc n" if r: "r < 64" for r
  proof (cases "r div 32 = n div 32")
    case True
    have "r mod 32 = n mod 32 \<longleftrightarrow> r = n" using True by (metis div_mult_mod_eq)
    then show ?thesis using True l assms(1) r bit_mark [of "r mod 32"] by (auto simp: seen_first_def)
  next
    case False
    then have "r \<noteq> n" by auto
    then show ?thesis using False assms(1) r by (auto simp: seen_first_def)
  qed
  then show ?thesis using l by (simp add: seen_first_def)
qed

lemma seen_full: "seen_first seen n \<Longrightarrow> 64 \<le> n \<Longrightarrow> 64 \<le> n' \<Longrightarrow> seen_first seen n'"
  by (auto simp: seen_first_def)

lemma seen_all:
  assumes s: "seen_first seen n"
  shows "\<not> required_fields_missing seen (min 64 n)"
proof -
  let ?n = "min 64 n"
  have bits: "bit (seen ! j) b \<longleftrightarrow> 32 * j + b < n" if "j < 2" "b < 32" for j b
  proof -
    have "32 * j + b < 64" using that by (cases j) auto
    then have "bit (seen ! ((32 * j + b) div 32)) ((32 * j + b) mod 32) \<longleftrightarrow> 32 * j + b < n" using s unfolding seen_first_def by blast
    moreover have "(32 * j + b) div 32 = j" "(32 * j + b) mod 32 = b" using that by simp_all
    ultimately show ?thesis by simp
  qed
  have full: "seen ! j = - 1" if "j < ?n div 32" for j
  proof (rule bit_word_eqI)
    fix b assume "b < LENGTH(32)"
    then have b: "b < 32" by simp
    have "j < 2" "32 * j + b < n" using that b by auto
    then show "bit (seen ! j) b = bit (- 1 :: u32) b" using bits b by simp
  qed
  have "seen ! (?n div 32) = drop_bit (32 - ?n mod 32) (- 1)" if z: "?n mod 32 \<noteq> 0"
  proof (rule bit_word_eqI)
    fix b assume "b < LENGTH(32)"
    then have b: "b < 32" by simp
    have n: "n < 64" using z by (cases "n < 64") simp_all
    then have "n div 32 < 2" by auto
    moreover have "32 * (n div 32) + n mod 32 = n" by simp
    then have "32 * (n div 32) + b < n \<longleftrightarrow> b < n mod 32" by linarith
    ultimately have "bit (seen ! (n div 32)) b \<longleftrightarrow> b < n mod 32" using bits [OF _ b] by simp
    moreover have "bit (drop_bit (32 - n mod 32) (- 1 :: u32)) b \<longleftrightarrow> b < n mod 32" using b by (auto simp: bit_drop_bit_eq bit_mask_iff)
    ultimately show "bit (seen ! (?n div 32)) b = bit (drop_bit (32 - ?n mod 32) (- 1 :: u32)) b" using n by simp
  qed
  then show ?thesis using full by (auto simp: required_fields_missing_def)
qed

lemma seek_end_at:
  assumes p: "plain d D fs" and dest: "dest \<noteq> 0"
  shows "c < length fs \<Longrightarrow> seek_end (iter_at fs dest c) =
    (required_before fs (length fs - 1), f_type (field_at fs (length fs - 1)), iter_at fs dest 0)"
proof (induction "length fs - c" arbitrary: c rule: less_induct)
  case less
  have n: "pb_field_iter_next (iter_at fs dest c) =
    (if Suc c < length fs then (True, iter_at fs dest (Suc c)) else (False, iter_at fs dest 0))"
    by (rule next_iter_at [OF p less.prems dest])
  show ?case
  proof (cases "Suc c < length fs")
    case True
    then have "seek_end (iter_at fs dest (Suc c)) =
      (required_before fs (length fs - 1), f_type (field_at fs (length fs - 1)), iter_at fs dest 0)"
      using less.hyps [of "Suc c"] by simp
    then show ?thesis using n True by (subst seek_end.simps) simp
  next
    case False
    then have "c = length fs - 1" using less.prems by simp
    then show ?thesis using n False by (subst seek_end.simps) simp
  qed
qed

lemma required_field_count_at:
  assumes p: "plain d D fs" and dest: "dest \<noteq> 0" and c: "c < length fs \<or> fs = [] \<and> c = 0"
  shows "required_field_count (iter_at fs dest c) = min 64 (required_before fs (length fs))"
proof (cases "fs = []")
  case True
  have "pb_field_iter_next (iter_at [] dest c) = (False, iter_at [] dest c)"
    by (simp add: pb_field_iter_next_def Let_def field_at_def PB_LAST_FIELD_def)
  then show ?thesis
    by (simp add: required_field_count_def seek_end.simps [of "iter_at [] dest c"] required_before_def True field_at_def PB_LAST_FIELD_def)
next
  case False
  then obtain sub where f: "plain_field sub (field_at fs 0)" using plain_some [OF p, of 0] by auto
  have l: "length fs - 1 < length fs" "Suc (length fs - 1) = length fs" using False by (cases fs; simp)+
  show ?thesis
    using seek_end_at [OF p dest] c False plain_fieldD(1) [OF f] required_before_Suc [OF l(1)] l(2)
    by (simp add: required_field_count_def)
qed

section \<open>The loop over the input\<close>

text \<open>The local variables after a field.\<close>

definition after_field :: "decoding \<Rightarrow> pb_field_iter \<Rightarrow> decoding" where
  "after_field st it = leave_field it (mark_required (st\<lparr>iter := it\<rparr>))"

lemma after_field_at:
  assumes "fixed_count_field st = None" "i < length fs" "seen_first (fields_seen st) (required_before fs i)"
  shows "iter (after_field st (iter_at fs dest i)) = iter_at fs dest i" "fixed_count_field (after_field st (iter_at fs dest i)) = None"
    "seen_first (fields_seen (after_field st (iter_at fs dest i))) (required_before fs (Suc i))"
proof -
  let ?n = "required_before fs i"
  show "iter (after_field st (iter_at fs dest i)) = iter_at fs dest i" "fixed_count_field (after_field st (iter_at fs dest i)) = None"
    using assms(1) by (simp_all add: after_field_def leave_field_def mark_required_def Let_def)
  show "seen_first (fields_seen (after_field st (iter_at fs dest i))) (required_before fs (Suc i))"
    using assms(3) seen_mark [OF assms(3)] seen_full [OF assms(3), of "Suc ?n"]
    by (auto simp: after_field_def leave_field_def mark_required_def Let_def required_before_Suc [OF assms(2)])
qed

lemma tag_not_zero: "f_tag f \<noteq> 0 \<Longrightarrow> tag_value wt (f_tag f) \<noteq> 0"
  by (simp add: tag_value_def unat_eq_0)

text \<open>A round of the loop that meets the field at \<open>i\<close>.\<close>

lemma decode_round:
  assumes t: "target (Suc d) D m0 fs dest n" and i: "i < length fs" and c: "c \<le> i"
    and st: "iter st = iter_at fs dest c" "fixed_count_field st = None"
    and s: "buf_ok s" "buf_content s = base128 (tag_value wt (f_tag (field_at fs i))) @ rest"
    and wt: "wire_type_of (ltype (field_at fs i)) = Some wt"
    and dec: "decode_static_field env decoders wt (buf_adv (length (base128 (tag_value wt (f_tag (field_at fs i))))) s) h (iter_at fs dest i) =
      Some (True, s', h', iter_at fs dest i)"
  shows "decode_loop (Suc k) env decoders st s h = decode_loop k env decoders (after_field st (iter_at fs dest i)) s' h'"
proof -
  let ?f = "field_at fs i" and ?it = "iter_at fs dest i"
  let ?s1 = "buf_adv (length (base128 (tag_value wt (f_tag ?f)))) s"
  note pf = plain_fieldD [OF targetD(5) [OF t i]]
  have "unat (f_tag ?f) < 2 ^ 29" using pf(2) by (simp add: word_less_nat_alt)
  then have tag: "pb_decode_tag s = (Some (wt, f_tag ?f), False, ?s1)"
    by (rule buf.decode_tag_value [OF s wire_type_small [OF wt] _ tag_not_zero [OF pf(1)]])
  have left: "bytes_left s \<noteq> 0" using s buf_length_content [OF s(1)] by auto
  have find: "pb_field_iter_find (iter st) (f_tag ?f) = (True, ?it)" unfolding st(1) by (rule find_iter_at [OF targetD(2,1) [OF t] c i])
  have enter: "enter_fixed_count (st\<lparr>iter := ?it\<rparr>) = Some (st\<lparr>iter := ?it\<rparr>)"
    using pf(6) by (simp add: enter_fixed_count_def Let_def)
  have it: "iter (mark_required (st\<lparr>iter := ?it\<rparr>)) = ?it" by (simp add: mark_required_def Let_def)
  have field: "decode_field env decoders wt ?s1 h ?it = Some (True, s', h', ?it)"
    using pf(3,7) dec by (simp add: decode_field_def)
  show ?thesis
    using left tag find enter it field by (subst decode_loop.simps) (simp add: Let_def after_field_def)
qed

text \<open>
  The fields before \<open>i\<close> have been decoded, those from \<open>i\<close> on are absent in the struct, and the
  input has their bytes \<open>vs\<close>.
\<close>

definition loop_inv ::
  "nat \<Rightarrow> nat \<Rightarrow> desc_table \<Rightarrow> user_bytes \<Rightarrow> (nat \<Rightarrow> u8 list) \<Rightarrow> pb_field list \<Rightarrow> addr \<Rightarrow> nat \<Rightarrow> heap \<Rightarrow> nat \<Rightarrow> decoding \<Rightarrow> 's pb_istream \<Rightarrow> heap \<Rightarrow> bool" where
  "loop_inv k d D U vs fs dest n h0 i st s h \<longleftrightarrow>
    (\<exists>c \<le> i. iter st = iter_at fs dest c \<and> (c < length fs \<or> fs = [] \<and> c = 0)) \<and> fixed_count_field st = None \<and>
    seen_first (fields_seen st) (required_before fs i) \<and> buf_ok s \<and> buf_content s = concat (map vs [i..<length fs]) \<and>
    alters (bytes_of dest n) h0 h \<and>
    (\<forall>j < length fs. if j < i then field_out k D U (h_mem h) fs dest j = Some (vs j) else blank_at d D (h_mem h) fs dest j)"

lemma loop_inv_step:
  fixes s :: "'s pb_istream"
  assumes t: "target (Suc d) D (h_mem h0) fs dest n" and m: "mapped h0 (bytes_of dest n)" and null: "h_mem h0 0 = None"
    and env: "d_fields env = D" and sd: "sound (Suc d) D m0 fs src" and out: "field_out k D U m0 fs src i = Some (vs i)"
    and len: "length (vs i) < 2 ^ 32"
    and sub: "\<And>fs' bs t h p k' a. sound d D m0 fs' a \<Longrightarrow> message_bytes k D U m0 fs' a = Some bs \<Longrightarrow> length bs < 2 ^ 32 \<Longrightarrow>
      buf_ok t \<Longrightarrow> buf_content t = bs \<Longrightarrow> target d D (h_mem h) fs' p k' \<Longrightarrow> mapped h (bytes_of p k') \<Longrightarrow> h_mem h 0 = None \<Longrightarrow>
      blank d D (h_mem h) fs' p \<Longrightarrow> decoded (bytes_of p k') bs t h (\<lambda>m'. message_bytes k D U m' fs' p = Some bs) (noinit fs' p t h)"
    and i: "i < length fs" and inv: "loop_inv k d D U vs fs dest n h0 i st s h"
  obtains (skip) "vs i = []" "loop_inv k d D U vs fs dest n h0 (Suc i) st s h"
  | (round) st' s' h' where "loop_inv k d D U vs fs dest n h0 (Suc i) st' s' h'" "stepped (vs i) s s'"
      "\<And>j. decode_loop (Suc j) env (PB_DECODERS env init noinit) st s h = decode_loop j env (PB_DECODERS env init noinit) st' s' h'"
      "vs i \<noteq> []"
proof -
  let ?f = "field_at fs i" and ?it = "iter_at fs dest i"
  obtain c where c: "c \<le> i" "iter st = iter_at fs dest c" using inv by (auto simp: loop_inv_def)
  have st: "fixed_count_field st = None" "seen_first (fields_seen st) (required_before fs i)" and s: "buf_ok s"
    and content: "buf_content s = vs i @ concat (map vs [Suc i..<length fs])"
    and w: "alters (bytes_of dest n) h0 h" and bl: "blank_at d D (h_mem h) fs dest i"
    and others: "\<And>j. j < length fs \<Longrightarrow> if j < i then field_out k D U (h_mem h) fs dest j = Some (vs j) else blank_at d D (h_mem h) fs dest j"
    using inv i by (auto simp: loop_inv_def upt_conv_Cons)
  have dom: "dom (h_mem h0) = dom (h_mem h)" using w by (simp add: alters_def)
  have t': "target (Suc d) D (h_mem h) fs dest n" using t target_dom [OF dom] by simp
  have m': "mapped h (bytes_of dest n)" using m w by (simp add: alters_mapped)
  have null': "h_mem h 0 = None" using null dom by (metis domIff)
  from sd targetD(2) [OF t] i out show thesis
  proof (cases rule: source_field)
    case absent
    have "field_out k D U (h_mem h) fs dest i = Some (vs i)" using blank_absent [OF t i bl absent(2,3)] absent(1) by simp
    then have "loop_inv k d D U vs fs dest n h0 (Suc i) st s h"
      using c st s content w others absent(1,2) i
      by (auto simp: loop_inv_def required_before_Suc less_Suc_eq split: if_splits intro!: exI [of _ c])
    then show thesis by (rule skip [OF absent(1)])
  next
    case (there wt v)
    let ?tag = "base128 (tag_value wt (f_tag ?f))"
    have ct: "buf_content s = ?tag @ v @ concat (map vs [Suc i..<length fs])" using content there(2) by simp
    note s1 = content_after [OF s ct]
    have lv: "length v < 2 ^ 32" using len there(2) by simp
    have nested: "decoded (bytes_of p k') bs t h (\<lambda>m'. message_bytes k D U m' fs' p = Some bs) (noinit fs' p t h)"
      if "ltype ?f = PB_LTYPE_SUBMESSAGE" "fields_at D (f_ptr ?f) = Some fs'" "message_bytes k D U m0 fs' (pData (iter_at fs src i)) = Some bs"
        "length bs < 2 ^ 32" "buf_ok t" "buf_content t = bs" "target d D (h_mem h) fs' p k'" "mapped h (bytes_of p k')" "h_mem h 0 = None"
        "blank d D (h_mem h) fs' p" for fs' bs t h p k'
      by (rule sub [OF there(7) [OF that(1,2)] that(3-10)])
    obtain s' h' where dec: "decode_static_field env (PB_DECODERS env init noinit) wt (buf_adv (length ?tag) s) h ?it = Some (True, s', h', ?it)"
      and r: "stepped v (buf_adv (length ?tag) s) s'" "alters (region fs dest i) h h'"
        "value_bytes D (h_mem h') (message_bytes k D U (h_mem h')) ?f (pData ?it) = Some v"
        "present (h_mem h') ?f (pData ?it) = Some True" "pData ?it \<noteq> 0"
      by (rule static_field_decoded [where msg = "message_bytes k D U m0" and msg' = "message_bytes k D U" and noinit = noinit and init = init and wt = wt,
          OF t' m' null' i env conjunct1 [OF s1] conjunct2 [OF s1] there(3) lv there(5,4,6) bl nested])
    have o: "field_out k D U (h_mem h') fs dest i = Some (vs i)"
      using field_bytes_present [OF targetD(5) [OF t i], of k D U "h_mem h'" "message_bytes k D U (h_mem h')" "pData ?it" "vs i"] r(3-5) there(1,2,8)
      by (simp add: field_out_def tag_bytes_def)
    have "if j < Suc i then field_out k D U (h_mem h') fs dest j = Some (vs j) else blank_at d D (h_mem h') fs dest j" if j: "j < length fs" for j
    proof (cases "j = i")
      case False
      have a: "agree (region fs dest j) (h_mem h') (h_mem h)" by (rule alters_agree [OF r(2) target_separate [OF t i j]]) (use False in simp)
      show ?thesis using others [OF j] field_out_agree [OF t j a] blank_at_agree [OF t j a] False by (auto split: if_splits)
    qed (simp add: o)
    moreover have "stepped (vs i) s s'" using stepped_trans [OF stepped_adv [OF s ct] r(1)] there(2) by simp
    moreover have "alters (bytes_of dest n) h0 h'" by (rule alters_trans [OF w alters_mono [OF r(2) targetD(7) [OF t i]]])
    moreover have "buf_ok s' \<and> buf_content s' = concat (map vs [Suc i..<length fs])"
      using r(1) s1 by (simp add: stepped_def)
    ultimately have inv': "loop_inv k d D U vs fs dest n h0 (Suc i) (after_field st ?it) s' h'"
      using after_field_at [OF st(1) i st(2), of dest] i unfolding loop_inv_def by (intro conjI exI [of _ i]) simp_all
    show thesis
    proof (rule round [OF inv' \<open>stepped (vs i) s s'\<close>])
      show "decode_loop (Suc j) env (PB_DECODERS env init noinit) st s h =
        decode_loop j env (PB_DECODERS env init noinit) (after_field st ?it) s' h'" for j
        by (rule decode_round [OF t i c(1) c(2) st(1) s ct there(1) dec])
    qed (simp add: there(2))
  qed
qed

lemma loop_decoded:
  fixes s :: "'s pb_istream"
  assumes t: "target (Suc d) D (h_mem h0) fs dest n" and m: "mapped h0 (bytes_of dest n)" and null: "h_mem h0 0 = None"
    and env: "d_fields env = D" and sd: "sound (Suc d) D m0 fs src"
    and out: "\<And>i. i < length fs \<Longrightarrow> field_out k D U m0 fs src i = Some (vs i)"
    and len: "\<And>i. i < length fs \<Longrightarrow> length (vs i) < 2 ^ 32"
    and sub: "\<And>fs' bs t h p k' a. sound d D m0 fs' a \<Longrightarrow> message_bytes k D U m0 fs' a = Some bs \<Longrightarrow> length bs < 2 ^ 32 \<Longrightarrow>
      buf_ok t \<Longrightarrow> buf_content t = bs \<Longrightarrow> target d D (h_mem h) fs' p k' \<Longrightarrow> mapped h (bytes_of p k') \<Longrightarrow> h_mem h 0 = None \<Longrightarrow>
      blank d D (h_mem h) fs' p \<Longrightarrow> decoded (bytes_of p k') bs t h (\<lambda>m'. message_bytes k D U m' fs' p = Some bs) (noinit fs' p t h)"
  shows "i \<le> length fs \<Longrightarrow> loop_inv k d D U vs fs dest n h0 i st s h \<Longrightarrow> unat (bytes_left s) \<le> kk \<Longrightarrow>
    \<exists>st' s' h'. decode_loop kk env (PB_DECODERS env init noinit) st s h = Some (Some st', s', h') \<and>
      loop_inv k d D U vs fs dest n h0 (length fs) st' s' h' \<and> stepped (concat (map vs [i..<length fs])) s s'"
proof (induction "length fs - i" arbitrary: i st s h kk rule: less_induct)
  case less
  have s: "buf_ok s" and content: "buf_content s = concat (map vs [i..<length fs])"
    using less.prems(2) by (simp_all add: loop_inv_def)
  have left: "unat (bytes_left s) = length (concat (map vs [i..<length fs]))" using buf_length_content [OF s] content by simp
  show ?case
  proof (cases "i = length fs")
    case True
    then have "bytes_left s = 0" using left by (simp add: unat_eq_0)
    then show ?thesis using True less.prems(2) stepped_nil [OF s] by (subst decode_loop.simps) simp
  next
    case False
    then have i: "i < length fs" "length fs - Suc i < length fs - i" using less.prems(1) by simp_all
    have split: "concat (map vs [i..<length fs]) = vs i @ concat (map vs [Suc i..<length fs])" using i by (simp add: upt_conv_Cons)
    show ?thesis
    proof (rule loop_inv_step [where noinit = noinit and init = init, OF t m null env sd out [OF i(1)] len [OF i(1)] sub i(1) less.prems(2)])
      assume skip: "vs i = []" "loop_inv k d D U vs fs dest n h0 (Suc i) st s h"
      show ?thesis using less.hyps [OF i(2) _ skip(2) less.prems(3)] i(1) split skip(1) by simp
    next
      fix st' s' h'
      assume round: "loop_inv k d D U vs fs dest n h0 (Suc i) st' s' h'" "stepped (vs i) s s'"
        "\<And>j. decode_loop (Suc j) env (PB_DECODERS env init noinit) st s h = decode_loop j env (PB_DECODERS env init noinit) st' s' h'"
        "vs i \<noteq> []"
      obtain j where j: "kk = Suc j" using round(4) left less.prems(3) split by (cases kk) auto
      have "buf_ok s'" "buf_content s' = concat (map vs [Suc i..<length fs])" using round(1) by (simp_all add: loop_inv_def)
      then have "unat (bytes_left s') \<le> j"
        using buf_length_content [of s'] left split less.prems(3) round(4) by (cases "vs i") (auto simp: j)
      then obtain st'' s'' h'' where "decode_loop j env (PB_DECODERS env init noinit) st' s' h' = Some (Some st'', s'', h'')"
        "loop_inv k d D U vs fs dest n h0 (length fs) st'' s'' h''" "stepped (concat (map vs [Suc i..<length fs])) s' s''"
        using less.hyps [OF i(2) _ round(1), of j] i(1) by auto
      then show ?thesis using round(3) stepped_trans [OF round(2)] split by (auto simp: j)
    qed
  qed
qed

section \<open>Messages\<close>

lemma foldr_both: "foldr (\<lambda>i. both (g i)) xs (Some []) = Some bs \<longleftrightarrow>
  (\<exists>vs. (\<forall>i \<in> set xs. g i = Some (vs i)) \<and> bs = concat (map vs xs))"
proof (induction xs arbitrary: bs)
  case (Cons x xs)
  show ?case
  proof
    assume "foldr (\<lambda>i. both (g i)) (x # xs) (Some []) = Some bs"
    then obtain v bs' where v: "g x = Some v" "foldr (\<lambda>i. both (g i)) xs (Some []) = Some bs'" "bs = v @ bs'"
      by (auto simp: both_def split: bind_splits)
    obtain vs where vs: "\<forall>i \<in> set xs. g i = Some (vs i)" "bs' = concat (map vs xs)" using Cons.IH v(2) by blast
    have "\<forall>i \<in> set (x # xs). g i = Some (the (g i))" using v(1) vs(1) by auto
    moreover have "map (\<lambda>i. the (g i)) xs = map vs xs" using vs(1) by simp
    then have "bs = concat (map (\<lambda>i. the (g i)) (x # xs))" using v(1,3) vs(2) by (simp only: list.map concat.simps option.sel)
    ultimately show "\<exists>vs. (\<forall>i \<in> set (x # xs). g i = Some (vs i)) \<and> bs = concat (map vs (x # xs))"
      by (intro exI [of _ "\<lambda>i. the (g i)"] conjI)
  next
    assume "\<exists>vs. (\<forall>i \<in> set (x # xs). g i = Some (vs i)) \<and> bs = concat (map vs (x # xs))"
    then obtain vs where "\<forall>i \<in> set (x # xs). g i = Some (vs i)" "bs = concat (map vs (x # xs))" by blast
    moreover have "foldr (\<lambda>i. both (g i)) xs (Some []) = Some (concat (map vs xs))" using calculation Cons.IH by auto
    ultimately show "foldr (\<lambda>i. both (g i)) (x # xs) (Some []) = Some bs" by simp
  qed
qed auto

lemma message_decoded:
  fixes s :: "'s pb_istream"
  assumes t: "target (Suc d) D (h_mem h) fs dest n" and m: "mapped h (bytes_of dest n)" and null: "h_mem h 0 = None"
    and env: "d_fields env = D" and sd: "sound (Suc d) D m0 fs src"
    and bs: "message_bytes k D U m0 fs src = Some bs" "length bs < 2 ^ 32" and s: "buf_ok s" "buf_content s = bs"
    and bl: "blank (Suc d) D (h_mem h) fs dest"
    and sub: "\<And>k fs' bs t h p k' a. sound d D m0 fs' a \<Longrightarrow> message_bytes k D U m0 fs' a = Some bs \<Longrightarrow> length bs < 2 ^ 32 \<Longrightarrow>
      buf_ok t \<Longrightarrow> buf_content t = bs \<Longrightarrow> target d D (h_mem h) fs' p k' \<Longrightarrow> mapped h (bytes_of p k') \<Longrightarrow> h_mem h 0 = None \<Longrightarrow>
      blank d D (h_mem h) fs' p \<Longrightarrow> decoded (bytes_of p k') bs t h (\<lambda>m'. message_bytes k D U m' fs' p = Some bs) (noinit fs' p t h)"
  shows "decoded (bytes_of dest n) bs s h (\<lambda>m'. message_bytes k D U m' fs dest = Some bs)
    (decode_message env (PB_DECODERS env init noinit) fs dest s h)"
proof -
  obtain k' where k: "k = Suc k'" using bs(1) by (cases k) auto
  have p: "plain (Suc d) D fs" and dest: "dest \<noteq> 0" using targetD(1,2) [OF t] by simp_all
  have src: "src \<noteq> 0" using sd by simp
  note bytes = message_bytes_fields [OF p, where n = k' and U = U]
  obtain vs where vs: "\<forall>i \<in> set [0..<length fs]. field_out k' D U m0 fs src i = Some (vs i)" "bs = concat (map vs [0..<length fs])"
    using bs(1) bytes [OF src] foldr_both [of "field_out k' D U m0 fs src" "[0..<length fs]" bs] by (auto simp: k)
  have out: "field_out k' D U m0 fs src i = Some (vs i)" if "i < length fs" for i using vs(1) that by simp
  have len: "length (vs i) < 2 ^ 32" if "i < length fs" for i
  proof -
    have "length (vs i) \<le> sum_list (map (\<lambda>i. length (vs i)) [0..<length fs])" using that by (intro member_le_sum_list) auto
    then show ?thesis using bs(2) vs(2) by (simp add: length_concat comp_def)
  qed
  define st where "st = \<lparr>fields_seen = [0, 0 :: u32], extension_range_start = 0 :: u32, fixed_count_field = None :: nat option,
    fixed_count_size = 0 :: u32, iter = snd (pb_field_iter_begin fs dest)\<rparr>"
  have "seen_first [0, 0] 0" by (auto simp: seen_first_def less_2_cases_iff nth_Cons' div_less_iff_less_mult)
  then have inv: "loop_inv k' d D U vs fs dest n h 0 st s h"
    using s bl vs(2) begin_iter_at [OF dest, of fs] by (auto simp: loop_inv_def st_def required_before_def blank_Suc simp del: blank.simps)
  have "\<exists>st' s' h'. decode_loop (unat (bytes_left s)) env (PB_DECODERS env init noinit) st s h = Some (Some st', s', h') \<and>
      loop_inv k' d D U vs fs dest n h (length fs) st' s' h' \<and> stepped (concat (map vs [0..<length fs])) s s'"
    by (rule loop_decoded [OF t m null env sd out len sub le0 inv order_refl])
  then obtain st' s' h' where r: "decode_loop (unat (bytes_left s)) env (PB_DECODERS env init noinit) st s h = Some (Some st', s', h')"
      "loop_inv k' d D U vs fs dest n h (length fs) st' s' h'" "stepped (concat (map vs [0..<length fs])) s s'"
    by blast
  obtain c where c: "iter st' = iter_at fs dest c" "c < length fs \<or> fs = [] \<and> c = 0" using r(2) by (auto simp: loop_inv_def)
  have "\<not> fixed_count_wrong st'" using r(2) by (simp add: loop_inv_def fixed_count_wrong_def)
  moreover have "\<not> required_fields_missing (fields_seen st') (required_field_count (iter st'))"
    using seen_all r(2) required_field_count_at [OF p dest c(2)] c(1) by (simp add: loop_inv_def)
  ultimately have "decode_message env (PB_DECODERS env init noinit) fs dest s h = Some (True, s', h')"
    using r(1) by (simp add: decode_message_def Let_def flip: st_def)
  moreover have "\<forall>i \<in> set [0..<length fs]. field_out k' D U (h_mem h') fs dest i = Some (vs i)"
    using r(2) by (auto simp: loop_inv_def split: if_splits)
  then have "foldr (\<lambda>i. both (field_out k' D U (h_mem h') fs dest i)) [0..<length fs] (Some []) = Some bs"
    unfolding foldr_both using vs(2) by (intro exI [of _ vs] conjI)
  then have "message_bytes k D U (h_mem h') fs dest = Some bs" unfolding k bytes [OF dest] .
  ultimately show ?thesis
    using r(2,3) vs(2) decoded_Some [of bs s s' "bytes_of dest n" h h' "\<lambda>m'. message_bytes k D U m' fs dest = Some bs"]
    by (simp add: loop_inv_def)
qed

lemma noinit_decoded:
  fixes s :: "'s pb_istream"
  assumes env: "d_fields env = D"
  shows "d \<le> kk \<Longrightarrow> sound d D m0 fs src \<Longrightarrow> message_bytes k D U m0 fs src = Some bs \<Longrightarrow> length bs < 2 ^ 32 \<Longrightarrow>
      buf_ok s \<Longrightarrow> buf_content s = bs \<Longrightarrow> target d D (h_mem h) fs dest n \<Longrightarrow> mapped h (bytes_of dest n) \<Longrightarrow> h_mem h 0 = None \<Longrightarrow>
      blank d D (h_mem h) fs dest \<Longrightarrow>
    decoded (bytes_of dest n) bs s h (\<lambda>m'. message_bytes k D U m' fs dest = Some bs) (pb_decode_noinit kk env fs dest s h)"
proof (induction d arbitrary: kk k fs src bs s h dest n)
  case 0
  then show ?case by simp
next
  case (Suc d)
  obtain j where j: "kk = Suc j" "d \<le> j" using Suc.prems(1) by (cases kk) auto
  show ?case
    unfolding j(1) pb_decode_noinit.simps
    by (rule message_decoded [OF Suc.prems(7-9) env Suc.prems(2-6,10) Suc.IH [OF j(2)]])
qed

theorem pb_decode_encoded:
  assumes "static_layout d (d_fields env) (h_mem h) fs dest n" "plain d (d_fields env) fs" "separate d (d_fields env) fs dest"
    and "mapped h (bytes_of dest n)" "h_mem h 0 = None"
    and "sound d (d_fields env) m fs src" "message_bytes k (d_fields env) U m fs src = Some bs" "length bs < 2 ^ 32"
    and "buf_ok s" "buf_content s = bs" "d \<le> fuel" "d \<le> d_depth env"
  shows "\<exists>s' h'. pb_decode fuel env fs dest s h = Some (True, s', h') \<and> buf_ok s' \<and> buf_content s' = [] \<and>
    alters (bytes_of dest n) h h' \<and> message_bytes k (d_fields env) U (h_mem h') fs dest = Some bs"
proof -
  have t: "target d (d_fields env) (h_mem h) fs dest n" using assms(1-3) by (simp add: target_def)
  obtain h1 where h1: "pb_message_set_to_defaults env fs dest h = Some h1" "alters (bytes_of dest n) h h1"
    "blank d (d_fields env) (h_mem h1) fs dest"
    using defaults_blank [OF t assms(4,12)] by (auto simp: pb_message_set_to_defaults_def)
  have dom: "dom (h_mem h) = dom (h_mem h1)" using h1(2) by (simp add: alters_def)
  have "decoded (bytes_of dest n) bs s h1 (\<lambda>m'. message_bytes k (d_fields env) U m' fs dest = Some bs) (pb_decode_noinit fuel env fs dest s h1)"
  proof (rule noinit_decoded [OF refl assms(11,6-10) _ _ _ h1(3)])
    show "target d (d_fields env) (h_mem h1) fs dest n" using t target_dom [OF dom] by simp
    show "mapped h1 (bytes_of dest n)" using assms(4) h1(2) by (simp add: alters_mapped)
    show "h_mem h1 0 = None" using assms(5) dom by (metis domIff)
  qed
  then obtain s' h' where "pb_decode_noinit fuel env fs dest s h1 = Some (True, s', h')" "stepped bs s s'" "alters (bytes_of dest n) h1 h'"
    "message_bytes k (d_fields env) U (h_mem h') fs dest = Some bs" by (auto simp: decoded_def)
  then show ?thesis
    using h1(1,2) assms(10) by (auto simp: pb_decode_def init_and_decode_def stepped_def intro: alters_trans)
qed

end
