(* ===== verification/NanopbRoundtripProps.thy ===== *)
theory NanopbRoundtripProps
  imports NanopbRoundtrip NanopbMessageProps NanopbDecodeProps NanopbWireProps
begin

text \<open>
  The encoder and the decoder together: a message goes through the bytes and comes back. The witness has
  a field of each kind: a number without a flag, a string with one, and a message.
\<close>

definition r_inner :: "pb_field list" where
  "r_inner = [\<lparr>f_tag = 1, f_type = 0x13, f_data_offset = 0, f_size_offset = 0, f_data_size = 4, f_array_size = 0, f_ptr = 0\<rparr>]"

definition r_outer :: "pb_field list" where
  "r_outer =
    [\<lparr>f_tag = 1, f_type = 0x12, f_data_offset = 0, f_size_offset = 0, f_data_size = 4, f_array_size = 0, f_ptr = 0\<rparr>,
     \<lparr>f_tag = 20, f_type = 0x17, f_data_offset = 1, f_size_offset = - 1, f_data_size = 7, f_array_size = 0, f_ptr = 0\<rparr>,
     \<lparr>f_tag = 3, f_type = 0x08, f_data_offset = 0, f_size_offset = 0, f_data_size = 4, f_array_size = 0, f_ptr = 0x2000\<rparr>]"

definition r_descs :: desc_table where
  "r_descs p = (if p = 0x2000 then Some r_inner else None)"

text \<open>The message at \<open>0x1000\<close>: 300, \<open>''hi''\<close> and a message with 3.\<close>

definition r_mem :: mem where
  "r_mem p =
    (if p = 0x1000 then Some 0x2c else if p = 0x1001 \<or> p = 0x1004 then Some 1 else if p = 0x1005 then Some 0x68
     else if p = 0x1006 then Some 0x69 else if p = 0x100c then Some 3
     else if 0x1000 \<le> p \<and> p < 0x1010 then Some 0 else None)"

definition r_heap :: heap where
  "r_heap = \<lparr>h_mem = (\<lambda>p. if 0x3000 \<le> p \<and> p < 0x3010 then Some 0xff else None), h_blocks = (\<lambda>p. None)\<rparr>"

definition r_env :: "unit dec_env" where
  "r_env = \<lparr>d_fields = r_descs, d_alloc = (\<lambda>h n. None), d_decode = (\<lambda>f fd a s h. None),
     d_extension = (\<lambda>f e t w s h. None), d_depth = 2\<rparr>"

lemma r_encoding: "message_bytes 3 r_descs no_bytes r_mem r_outer 0x1000 =
    Some [0x08, 0xac, 0x02, 0xa2, 0x01, 0x02, 0x68, 0x69, 0x1a, 0x02, 0x08, 0x06]"
  by code_simp

lemma r_layout: "static_layout 2 r_descs (h_mem r_heap) r_outer 0x3000 16"
  by code_simp

lemma r_plain: "plain 2 r_descs r_outer"
  by code_simp

lemma r_separate: "separate 2 r_descs r_outer 0x3000"
  by code_simp

lemma r_sound: "sound 2 r_descs r_mem r_outer 0x1000"
  by code_simp

lemma r_mapped: "mapped r_heap (bytes_of 0x3000 16)"
proof -
  have "load_bytes (h_mem r_heap) 0x3000 16 \<noteq> None" by code_simp
  then show ?thesis by (simp only: load_bytes_dom mapped_def)
qed

text \<open>
  C1. A message comes back. For a message of plain fields (required, optional with a flag, or singular;
  numbers, strings, bytes, messages in messages to any depth \<open>d\<close>) that has the encoding \<open>bs\<close>, and a
  struct of its type anywhere in the memory of the decoder, whatever it holds: \<open>pb_encode\<close> writes \<open>bs\<close>,
  \<open>pb_decode\<close> of \<open>bs\<close> into the struct succeeds, takes all of the input and writes nothing outside the struct, and
  \<open>pb_encode\<close> of that struct gives the same result, in the same buffer, as of the message. The
  struct does not overlap itself, and the strings of the message end inside their arrays.
\<close>
theorem pb_encode_decode:
  assumes "static_layout d D (h_mem h) fs dest n" "plain d D fs" "separate d D fs dest" "mapped h (bytes_of dest n)" "h_mem h 0 = None"
    and "sound d D m fs src" "message_bytes k D U m fs src = Some bs" "length bs < 2 ^ 32"
    and "e_fields eenv = D" "user_encodes eenv U" "mem_sink out" "o_errmsg out = None" "length bs \<le> mem_room out"
    and "d_fields denv = D" "d \<le> fuel" "d \<le> d_depth denv"
  shows "\<exists>out' s' h'. pb_encode k eenv m fs src out = Some (True, out') \<and> new_bytes out out' = bs \<and>
    pb_decode fuel denv fs dest (pb_istream_from_buffer (new_bytes out out') (word_of_nat (length (new_bytes out out')))) h =
      Some (True, s', h') \<and> bytes_left s' = 0 \<and> alters (bytes_of dest n) h h' \<and>
    pb_encode k eenv (h_mem h') fs dest out = Some (True, out')"
proof -
  let ?s = "pb_istream_from_buffer bs (word_of_nat (length bs)) :: unit pb_istream"
  have encode: "pb_encode k eenv m' fs' p out = Some (True, mem_emit bs out)" if "message_bytes k D U m' fs' p = Some bs" for m' fs' p
  proof (rule encodesD(1))
    show "encodes (pb_encode k eenv m' fs' p) (Some bs)" using encodes_pb_encode [OF assms(10), of k m' fs' p] that assms(9) by simp
  qed (use assms(11-13) in \<open>simp_all add: ready_def\<close>)
  have new: "new_bytes out (mem_emit bs out) = bs" by (rule new_bytes_emit [OF assms(11,13)])
  have s: "buf_ok ?s" "buf_content ?s = bs" using assms(8) by (simp_all add: from_buffer_ok from_buffer_content)
  obtain s' h' where r: "pb_decode fuel denv fs dest ?s h = Some (True, s', h')" "buf_ok s'" "buf_content s' = []"
    "alters (bytes_of dest n) h h'" "message_bytes k D U (h_mem h') fs dest = Some bs"
    using pb_decode_encoded [of d denv h fs dest n m src k U bs ?s fuel] assms(1-8,14-16) s by auto
  have "bytes_left s' = 0" using buf_length_content [OF r(2)] r(3) by (simp add: unat_eq_0)
  then show ?thesis using encode [OF assms(7)] encode [OF r(5)] new r(1,4) by simp
qed

theorem pb_encode_decode_witness:
  "\<exists>out' s' h'. pb_encode 3 (no_user r_descs) r_mem r_outer 0x1000 sample_out = Some (True, out') \<and>
    pb_decode 2 r_env r_outer 0x3000 (pb_istream_from_buffer (new_bytes sample_out out') 12) r_heap = Some (True, s', h') \<and>
    pb_encode 3 (no_user r_descs) (h_mem h') r_outer 0x3000 sample_out = Some (True, out')"
proof -
  have "h_mem r_heap 0 = None" "o_errmsg sample_out = None" "d_fields r_env = r_descs" "2 \<le> d_depth r_env"
    by (simp_all add: r_heap_def sample_out_def pb_ostream_from_buffer_def r_env_def)
  then show ?thesis
    using pb_encode_decode [OF r_layout r_plain r_separate r_mapped _ r_sound r_encoding _ no_user_fields no_user_encodes
        sample_out_sink, of r_env 2] sample_out_room by fastforce
qed

end
